(* ===== verification/Precedence.thy ===== *)
theory Precedence
  imports Main
begin

text \<open>
  The precedence the program's verdicts share, as an interface: the egress planes and the process
  lens keep it, and what follows from it is proved once.
\<close>

section \<open>What a deny-wins verdict guarantees\<close>

text \<open>
  The contract every plane keeps, whatever its verdict type: a request opens exactly when no deny
  rule hits it and an allow rule or the plane's default opens it. The clients below know nothing
  else of a plane.
\<close>

locale deny_wins =
  fixes deny_rules :: "'pol \<Rightarrow> 'r list"
    and allow_rules :: "'pol \<Rightarrow> 'r list"
    and hits_deny :: "'r \<Rightarrow> 'q \<Rightarrow> bool"
    and hits_allow :: "'r \<Rightarrow> 'q \<Rightarrow> bool"
    and opens_default :: "'pol \<Rightarrow> 'q \<Rightarrow> bool"
    and opens :: "'pol \<Rightarrow> 'q \<Rightarrow> bool"
  assumes opens_iff:
    "opens pol q \<longleftrightarrow>
       \<not> (\<exists>r \<in> set (deny_rules pol). hits_deny r q) \<and>
       ((\<exists>r \<in> set (allow_rules pol). hits_allow r q) \<or> opens_default pol q)"
begin

lemma denied_stays_closed:
  "r \<in> set (deny_rules pol) \<Longrightarrow> hits_deny r q \<Longrightarrow> \<not> opens pol q"
  by (auto simp: opens_iff)

lemma more_denies_close:
  assumes "set (deny_rules pol) \<subseteq> set (deny_rules pol')"
    and "set (allow_rules pol') \<subseteq> set (allow_rules pol)"
    and "\<And>q. opens_default pol' q \<Longrightarrow> opens_default pol q"
    and "opens pol' q"
  shows "opens pol q"
  using assms unfolding opens_iff by blast

lemma order_irrelevant:
  assumes "set (deny_rules pol) = set (deny_rules pol')"
    and "set (allow_rules pol) = set (allow_rules pol')"
    and "\<And>q. opens_default pol q = opens_default pol' q"
  shows "opens pol q = opens pol' q"
  using assms unfolding opens_iff by simp

end

end
