(* ===== verification/Prelude.thy ===== *)
theory Prelude
  imports Main "HOL-Library.Word" "HOL-Library.Char_ord" "HOL-Library.List_Lexorder"
    "HOL-Library.Product_Lexorder" "HOL-Library.Sublist" "HOL-Library.Code_Target_Nat"
begin

text \<open>
  The vocabulary every component shares: the Rust types the sources use, as Isabelle types, and the
  parts of Rust's \<open>str\<close> and slice interface they call, as executable functions with their lemmas.

  A Rust \<open>str\<close> is a sequence of UTF-8 bytes, and so is the model: \<open>string\<close>, one \<open>char\<close> per byte.
  A delimiter the sources split at is ASCII, so splitting at the byte and splitting at the character
  agree. The operations that read whole characters (\<open>trim\<close>, \<open>chars\<close>, lossy decoding) are in the
  theory Utf8.

  Machine integers are words of their width; \<open>usize\<close> offsets into a buffer are \<open>nat\<close>. A
  \<open>Result<T, E>\<close> is \<open>'e + 'a\<close> with \<open>Inl\<close> for \<open>Err\<close>.
\<close>

type_synonym u8 = "8 word"
type_synonym u16 = "16 word"
type_synonym u32 = "32 word"
type_synonym u64 = "64 word"

named_theorems str_simps "characteristic equations of the string operations"
named_theorems str_dests "what a successful string operation says of its argument"

section \<open>Prefixes, suffixes and searches\<close>

text \<open>\<open>str::strip_prefix\<close> and \<open>str::strip_suffix\<close>.\<close>

fun strip_prefix :: "'a list \<Rightarrow> 'a list \<Rightarrow> 'a list option" where
  "strip_prefix [] s = Some s"
| "strip_prefix (p # ps) [] = None"
| "strip_prefix (p # ps) (c # s) = (if p = c then strip_prefix ps s else None)"

definition strip_suffix :: "'a list \<Rightarrow> 'a list \<Rightarrow> 'a list option" where
  "strip_suffix p s = map_option rev (strip_prefix (rev p) (rev s))"

text \<open>\<open>starts_with\<close> and \<open>ends_with\<close>.\<close>

definition starts_with :: "'a list \<Rightarrow> 'a list \<Rightarrow> bool" where
  "starts_with p s = (strip_prefix p s \<noteq> None)"

definition ends_with :: "'a list \<Rightarrow> 'a list \<Rightarrow> bool" where
  "ends_with p s = (strip_suffix p s \<noteq> None)"

text \<open>\<open>str::contains\<close> for a string pattern.\<close>

fun contains_str :: "'a list \<Rightarrow> 'a list \<Rightarrow> bool" where
  "contains_str p [] = (p = [])"
| "contains_str p (c # s) = (starts_with p (c # s) \<or> contains_str p s)"

text \<open>\<open>split_once\<close> and \<open>rsplit_once\<close> at one delimiter.\<close>

fun split_once :: "'a \<Rightarrow> 'a list \<Rightarrow> ('a list \<times> 'a list) option" where
  "split_once d [] = None"
| "split_once d (c # s) =
     (if c = d then Some ([], s)
      else map_option (\<lambda>(a, b). (c # a, b)) (split_once d s))"

definition rsplit_once :: "'a \<Rightarrow> 'a list \<Rightarrow> ('a list \<times> 'a list) option" where
  "rsplit_once d s = map_option (\<lambda>(a, b). (rev b, rev a)) (split_once d (rev s))"

text \<open>\<open>split_once\<close> at a string, as \<open>s.split_once("://")\<close> uses it.\<close>

fun split_once_str :: "'a list \<Rightarrow> 'a list \<Rightarrow> ('a list \<times> 'a list) option" where
  "split_once_str p [] = (if p = [] then Some ([], []) else None)"
| "split_once_str p (c # s) =
     (case strip_prefix p (c # s) of
        Some r \<Rightarrow> Some ([], r)
      | None \<Rightarrow> map_option (\<lambda>(a, b). (c # a, b)) (split_once_str p s))"

text \<open>\<open>split\<close>: every piece between two delimiters, never an empty list.\<close>

fun split_on :: "'a \<Rightarrow> 'a list \<Rightarrow> 'a list list" where
  "split_on d [] = [[]]"
| "split_on d (c # s) =
     (if c = d then [] # split_on d s
      else (case split_on d s of [] \<Rightarrow> [[c]] | x # xs \<Rightarrow> (c # x) # xs))"

text \<open>The first piece of a \<open>split\<close>, i.e. \<open>s.split(d).next()\<close>.\<close>

definition before :: "'a \<Rightarrow> 'a list \<Rightarrow> 'a list" where
  "before d s = takeWhile (\<lambda>c. c \<noteq> d) s"

text \<open>The last piece of a \<open>split\<close>, i.e. \<open>s.rsplit(d).next()\<close>.\<close>

definition after_last :: "'a \<Rightarrow> 'a list \<Rightarrow> 'a list" where
  "after_last d s = rev (takeWhile (\<lambda>c. c \<noteq> d) (rev s))"

text \<open>\<open>[T]::join\<close> over string pieces.\<close>

fun join :: "'a list \<Rightarrow> 'a list list \<Rightarrow> 'a list" where
  "join sep [] = []"
| "join sep [x] = x"
| "join sep (x # y # xs) = x @ sep @ join sep (y # xs)"

text \<open>\<open>trim_end_matches\<close> and \<open>trim_start_matches\<close> for one character.\<close>

definition trim_start_char :: "'a \<Rightarrow> 'a list \<Rightarrow> 'a list" where
  "trim_start_char d s = dropWhile (\<lambda>c. c = d) s"

definition trim_end_char :: "'a \<Rightarrow> 'a list \<Rightarrow> 'a list" where
  "trim_end_char d s = rev (dropWhile (\<lambda>c. c = d) (rev s))"

section \<open>ASCII characters\<close>

definition is_ascii_digit :: "char \<Rightarrow> bool" where
  "is_ascii_digit c = (CHR ''0'' \<le> c \<and> c \<le> CHR ''9'')"

definition is_ascii_uppercase :: "char \<Rightarrow> bool" where
  "is_ascii_uppercase c = (CHR ''A'' \<le> c \<and> c \<le> CHR ''Z'')"

definition is_ascii_lowercase :: "char \<Rightarrow> bool" where
  "is_ascii_lowercase c = (CHR ''a'' \<le> c \<and> c \<le> CHR ''z'')"

definition is_ascii_alphanumeric :: "char \<Rightarrow> bool" where
  "is_ascii_alphanumeric c = (is_ascii_digit c \<or> is_ascii_uppercase c \<or> is_ascii_lowercase c)"

definition is_ascii_hexdigit :: "char \<Rightarrow> bool" where
  "is_ascii_hexdigit c =
     (is_ascii_digit c \<or> (CHR ''a'' \<le> c \<and> c \<le> CHR ''f'') \<or> (CHR ''A'' \<le> c \<and> c \<le> CHR ''F''))"

definition is_ascii :: "char \<Rightarrow> bool" where
  "is_ascii c = ((of_char c :: nat) < 128)"

definition is_ascii_punctuation :: "char \<Rightarrow> bool" where
  "is_ascii_punctuation c =
     ((33 \<le> (of_char c :: nat) \<and> (of_char c :: nat) \<le> 47) \<or>
      (58 \<le> (of_char c :: nat) \<and> (of_char c :: nat) \<le> 64) \<or>
      (91 \<le> (of_char c :: nat) \<and> (of_char c :: nat) \<le> 96) \<or>
      (123 \<le> (of_char c :: nat) \<and> (of_char c :: nat) \<le> 126))"

definition ascii_lower :: "char \<Rightarrow> char" where
  "ascii_lower c = (if is_ascii_uppercase c then char_of ((of_char c :: nat) + 32) else c)"

definition ascii_upper :: "char \<Rightarrow> char" where
  "ascii_upper c = (if is_ascii_lowercase c then char_of ((of_char c :: nat) - 32) else c)"

definition to_ascii_lowercase :: "string \<Rightarrow> string" where
  "to_ascii_lowercase s = map ascii_lower s"

definition to_ascii_uppercase :: "string \<Rightarrow> string" where
  "to_ascii_uppercase s = map ascii_upper s"

section \<open>Numbers as text\<close>

text \<open>\<open>char::to_digit(radix)\<close> for the radices 10 and 16.\<close>

definition digit_val :: "nat \<Rightarrow> char \<Rightarrow> nat option" where
  "digit_val radix c =
     (let v = (if is_ascii_digit c then Some ((of_char c :: nat) - 48)
               else if CHR ''a'' \<le> c \<and> c \<le> CHR ''z'' then Some ((of_char c :: nat) - 87)
               else if CHR ''A'' \<le> c \<and> c \<le> CHR ''Z'' then Some ((of_char c :: nat) - 55)
               else None)
      in case v of Some n \<Rightarrow> if n < radix then Some n else None | None \<Rightarrow> None)"

text \<open>The value of a run of digits, most significant first.\<close>

definition digits_val :: "nat \<Rightarrow> nat list \<Rightarrow> nat" where
  "digits_val radix ds = foldl (\<lambda>n d. n * radix + d) 0 ds"

text \<open>Formatting with \<open>{}\<close> and \<open>{:x}\<close>.\<close>

definition digit_char :: "nat \<Rightarrow> char" where
  "digit_char d = char_of (if d < 10 then 48 + d else 87 + d)"

fun digits_of :: "nat \<Rightarrow> nat \<Rightarrow> nat list" where
  "digits_of radix n =
     (if radix < 2 \<or> n < radix then [n] else digits_of radix (n div radix) @ [n mod radix])"

declare digits_of.simps [simp del]

definition fmt_nat :: "nat \<Rightarrow> nat \<Rightarrow> string" where
  "fmt_nat radix n = map digit_char (digits_of radix n)"

text \<open>\<open>str::parse::<u16>\<close> on a string of ASCII digits: the value, or overflow.\<close>

definition parse_digits :: "nat \<Rightarrow> string \<Rightarrow> nat option" where
  "parse_digits radix s = map_option (digits_val radix) (those (map (digit_val radix) s))"

definition parse_u16 :: "string \<Rightarrow> u16 option" where
  "parse_u16 s =
     (if s = [] then None
      else case parse_digits 10 s of
             Some n \<Rightarrow> if n < 65536 then Some (of_nat n) else None
           | None \<Rightarrow> None)"

section \<open>Lemmas\<close>

lemma find_SomeD: "List.find P xs = Some x \<Longrightarrow> x \<in> set xs \<and> P x"
  by (auto simp: find_Some_iff)

text \<open>\<open>find\<close> returns the first element with the property.\<close>

lemma find_Some_split:
  "List.find P xs = Some x \<longleftrightarrow> (\<exists>pre suf. xs = pre @ x # suf \<and> P x \<and> \<not> list_ex P pre)"
proof (induction xs)
  case (Cons y ys)
  show ?case
  proof (cases "P y")
    case True
    then show ?thesis by (auto simp: Cons_eq_append_conv)
  next
    case False
    then have "List.find P (y # ys) = Some x \<longleftrightarrow>
        (\<exists>pre suf. ys = pre @ x # suf \<and> P x \<and> \<not> list_ex P pre)"
      using Cons.IH by simp
    also have "\<dots> \<longleftrightarrow> (\<exists>pre suf. y # ys = pre @ x # suf \<and> P x \<and> \<not> list_ex P pre)"
    proof
      assume "\<exists>pre suf. ys = pre @ x # suf \<and> P x \<and> \<not> list_ex P pre"
      then obtain pre suf where "ys = pre @ x # suf" "P x" "\<not> list_ex P pre" by blast
      with False have "y # ys = (y # pre) @ x # suf \<and> P x \<and> \<not> list_ex P (y # pre)" by simp
      then show "\<exists>pre suf. y # ys = pre @ x # suf \<and> P x \<and> \<not> list_ex P pre" by blast
    next
      assume "\<exists>pre suf. y # ys = pre @ x # suf \<and> P x \<and> \<not> list_ex P pre"
      then obtain pre suf where s: "y # ys = pre @ x # suf" "P x" "\<not> list_ex P pre" by blast
      with False show "\<exists>pre suf. ys = pre @ x # suf \<and> P x \<and> \<not> list_ex P pre"
        by (cases pre) auto
    qed
    finally show ?thesis .
  qed
qed simp

lemma find_None_iff2: "List.find P xs = None \<longleftrightarrow> list_all (\<lambda>x. \<not> P x) xs"
  by (auto simp: find_None_iff list_all_iff)

lemma strip_prefix_Some [str_simps]: "strip_prefix p s = Some r \<longleftrightarrow> s = p @ r"
  by (induction p s rule: strip_prefix.induct) auto

lemma strip_prefix_append [simp]: "strip_prefix p (p @ r) = Some r"
  by (simp add: strip_prefix_Some)

lemma strip_prefix_self [simp]: "strip_prefix p p = Some []"
  by (simp add: strip_prefix_Some)

lemma strip_prefix_None: "strip_prefix p s = None \<longleftrightarrow> \<not> prefix p s"
  using strip_prefix_Some [of p s] by (cases "strip_prefix p s") (auto simp: prefix_def)

lemma strip_suffix_Some [str_simps]: "strip_suffix p s = Some r \<longleftrightarrow> s = r @ p"
proof -
  have "strip_suffix p s = Some r \<longleftrightarrow> strip_prefix (rev p) (rev s) = Some (rev r)"
    by (auto simp: strip_suffix_def)
  also have "\<dots> \<longleftrightarrow> rev s = rev (r @ p)"
    by (simp add: strip_prefix_Some)
  finally show ?thesis by (simp only: rev_is_rev_conv)
qed

lemma strip_suffix_append [simp]: "strip_suffix p (r @ p) = Some r"
  by (simp add: strip_suffix_Some)

lemma starts_with_iff [str_simps]: "starts_with p s \<longleftrightarrow> prefix p s"
  using strip_prefix_None [of p s] by (auto simp: starts_with_def)

lemma ends_with_iff [str_simps]: "ends_with p s \<longleftrightarrow> suffix p s"
  using strip_suffix_Some [of p s] by (cases "strip_suffix p s") (auto simp: ends_with_def suffix_def)

lemma contains_str_iff [str_simps]: "contains_str p s \<longleftrightarrow> sublist p s"
proof (induction s)
  case (Cons c s)
  then show ?case by (simp only: contains_str.simps starts_with_iff sublist_Cons_right)
qed simp

lemma split_once_Some [str_simps]:
  "split_once d s = Some (a, b) \<longleftrightarrow> s = a @ d # b \<and> d \<notin> set a"
proof (induction s arbitrary: a)
  case (Cons c s)
  then show ?case by (cases a) auto
qed simp

lemma split_once_None [str_simps]: "split_once d s = None \<longleftrightarrow> d \<notin> set s"
  by (induction s) auto

lemma rsplit_once_Some [str_simps]:
  "rsplit_once d s = Some (a, b) \<longleftrightarrow> s = a @ d # b \<and> d \<notin> set b"
proof -
  have "rsplit_once d s = Some (a, b) \<longleftrightarrow> split_once d (rev s) = Some (rev b, rev a)"
    by (auto simp: rsplit_once_def)
  also have "\<dots> \<longleftrightarrow> rev s = rev (a @ d # b) \<and> d \<notin> set b"
    by (simp add: split_once_Some)
  finally show ?thesis by (simp only: rev_is_rev_conv)
qed

lemma rsplit_once_None [str_simps]: "rsplit_once d s = None \<longleftrightarrow> d \<notin> set s"
  by (simp add: rsplit_once_def split_once_None)

lemma split_on_nonempty [simp]: "split_on d s \<noteq> []"
  by (cases s) (auto split: list.splits)

lemma split_on_notin [simp]: "d \<notin> set s \<Longrightarrow> split_on d s = [s]"
  by (induction s) auto

lemma split_on_append_delim: "split_on d (a @ d # b) = split_on d a @ split_on d b"
proof (induction a)
  case (Cons c a)
  then show ?case by (cases "split_on d a") auto
qed simp

lemma join_split_on [simp]: "join [d] (split_on d s) = s"
proof (induction s)
  case (Cons c s)
  then show ?case
    by (cases "split_on d s"; cases "tl (split_on d s)") auto
qed simp

lemma split_on_join:
  "xs \<noteq> [] \<Longrightarrow> (\<And>x. x \<in> set xs \<Longrightarrow> d \<notin> set x) \<Longrightarrow> split_on d (join [d] xs) = xs"
  by (induction "[d]" xs rule: join.induct) (auto simp: split_on_append_delim)

lemma split_on_pieces: "x \<in> set (split_on d s) \<Longrightarrow> d \<notin> set x"
proof (induction s arbitrary: x)
  case (Cons c s)
  then show ?case by (cases "split_on d s") (auto split: if_splits)
qed simp

lemma split_on_subset: "x \<in> set (split_on d s) \<Longrightarrow> set x \<subseteq> set s"
proof (induction s arbitrary: x)
  case (Cons c s)
  then show ?case by (cases "split_on d s") (fastforce split: if_splits)+
qed simp

lemma before_eq_hd_split: "before d s = hd (split_on d s)"
proof (induction s)
  case (Cons c s)
  then show ?case by (cases "split_on d s") (auto simp: before_def)
qed (simp add: before_def)

lemma before_notin [simp]: "d \<notin> set (before d s)"
  by (auto simp: before_def dest: set_takeWhileD)

lemma before_subset: "set (before d s) \<subseteq> set s"
  by (auto simp: before_def dest: set_takeWhileD)

lemma before_append_delim [simp]: "before d (a @ d # b) = before d a"
  by (induction a) (auto simp: before_def)

lemma before_id [simp]: "d \<notin> set s \<Longrightarrow> before d s = s"
  by (induction s) (auto simp: before_def)

lemma after_last_notin [simp]: "d \<notin> set (after_last d s)"
  by (auto simp: after_last_def dest: set_takeWhileD)

lemma after_last_id [simp]: "d \<notin> set s \<Longrightarrow> after_last d s = s"
  by (subst after_last_def, subst takeWhile_eq_all_conv [THEN iffD2]) auto

lemma after_last_append [simp]: "d \<notin> set b \<Longrightarrow> after_last d (a @ d # b) = b"
  using after_last_id [of d b] by (simp add: after_last_def takeWhile_tail takeWhile_append2)

lemma set_join: "set (join sep xs) \<subseteq> set sep \<union> \<Union> (set ` set xs)"
  by (induction sep xs rule: join.induct) auto

lemma trim_end_char_idem [simp]: "trim_end_char d (trim_end_char d s) = trim_end_char d s"
  by (simp add: trim_end_char_def dropWhile_idem)

lemma trim_end_char_snoc [simp]: "trim_end_char d (s @ [d]) = trim_end_char d s"
  by (simp add: trim_end_char_def)

lemma dropWhile_replicate_append: "dropWhile (\<lambda>c. c = d) (replicate n d @ xs) = dropWhile (\<lambda>c. c = d) xs"
  by (induction n) simp_all

lemma trim_end_char_replicate [simp]: "trim_end_char d (s @ replicate n d) = trim_end_char d s"
  by (simp add: trim_end_char_def dropWhile_replicate_append)

lemma trim_end_char_last: "trim_end_char d s \<noteq> [] \<Longrightarrow> last (trim_end_char d s) \<noteq> d"
  by (metis (full_types) hd_dropWhile last_rev rev_is_Nil_conv trim_end_char_def)

lemma trim_end_char_id: "s = [] \<or> last s \<noteq> d \<Longrightarrow> trim_end_char d s = s"
  by (cases s rule: rev_cases) (auto simp: trim_end_char_def)

lemma trim_end_char_subset: "set (trim_end_char d s) \<subseteq> set s"
  by (auto simp: trim_end_char_def dest: set_dropWhileD)

subsection \<open>ASCII case\<close>

text \<open>The classes as intervals of the byte value, and the value of a shifted letter.\<close>

lemmas ascii_classes =
  is_ascii_digit_def is_ascii_uppercase_def is_ascii_lowercase_def is_ascii_alphanumeric_def
  is_ascii_hexdigit_def less_eq_char_def

lemma of_char_ascii_lower:
  "(of_char (ascii_lower c) :: nat) =
     (if 65 \<le> (of_char c :: nat) \<and> (of_char c :: nat) \<le> 90 then of_char c + 32 else of_char c)"
  by (simp add: ascii_lower_def ascii_classes)

lemma ascii_lower_not_upper [simp]: "\<not> is_ascii_uppercase (ascii_lower c)"
  by (auto simp: ascii_classes of_char_ascii_lower)

lemma ascii_lower_id: "\<not> is_ascii_uppercase c \<Longrightarrow> ascii_lower c = c"
  by (simp add: ascii_lower_def)

lemma ascii_lower_idem [simp]: "ascii_lower (ascii_lower c) = ascii_lower c"
  by (simp add: ascii_lower_id)

lemma to_ascii_lowercase_idem [simp]: "to_ascii_lowercase (to_ascii_lowercase s) = to_ascii_lowercase s"
  by (simp add: to_ascii_lowercase_def)

lemma ascii_lower_alnum [simp]: "is_ascii_alphanumeric (ascii_lower c) \<longleftrightarrow> is_ascii_alphanumeric c"
  by (auto simp: ascii_classes of_char_ascii_lower)

lemma ascii_lower_eq_iff:
  "\<not> is_ascii_alphanumeric d \<Longrightarrow> ascii_lower c = d \<longleftrightarrow> c = d"
  by (metis ascii_lower_alnum ascii_lower_id is_ascii_alphanumeric_def)

lemma to_ascii_lowercase_append [simp]:
  "to_ascii_lowercase (a @ b) = to_ascii_lowercase a @ to_ascii_lowercase b"
  by (simp add: to_ascii_lowercase_def)

lemma length_to_ascii_lowercase [simp]: "length (to_ascii_lowercase s) = length s"
  by (simp add: to_ascii_lowercase_def)

subsection \<open>Numbers\<close>

lemma digits_of_nonempty [simp]: "digits_of r n \<noteq> []"
  by (subst digits_of.simps) simp

lemma digits_of_less: "1 < r \<Longrightarrow> d \<in> set (digits_of r n) \<Longrightarrow> d < r"
proof (induction r n arbitrary: d rule: digits_of.induct)
  case (1 r n)
  then show ?case
    by (cases "r < 2 \<or> n < r") (auto simp: digits_of.simps [of r n])
qed

lemma digits_val_digits_of: "1 < r \<Longrightarrow> digits_val r (digits_of r n) = n"
proof (induction r n rule: digits_of.induct)
  case (1 r n)
  then show ?case
    by (cases "r < 2 \<or> n < r") (auto simp: digits_of.simps [of r n] digits_val_def)
qed

lemma length_digits_of: "1 < r \<Longrightarrow> n < r ^ Suc k \<Longrightarrow> length (digits_of r n) \<le> Suc k"
proof (induction k arbitrary: n)
  case 0
  then show ?case by (simp add: digits_of.simps [of r n])
next
  case (Suc k)
  have "n div r < r ^ Suc k"
    using Suc.prems by (simp add: less_mult_imp_div_less mult.commute)
  with Suc show ?case by (auto simp: digits_of.simps [of r n])
qed

lemma hd_digits_of: "1 < r \<Longrightarrow> hd (digits_of r n) = 0 \<Longrightarrow> n = 0"
proof (induction r n rule: digits_of.induct)
  case (1 r n)
  show ?case
  proof (cases "r < 2 \<or> n < r")
    case True
    with 1 show ?thesis by (simp add: digits_of.simps [of r n])
  next
    case False
    with 1 have "n div r = 0" by (simp add: digits_of.simps [of r n])
    with False show ?thesis by (simp add: div_eq_0_iff)
  qed
qed

lemma of_char_digit_char:
  "d < 16 \<Longrightarrow> (of_char (digit_char d) :: nat) = (if d < 10 then 48 + d else 87 + d)"
  by (simp add: digit_char_def)

lemma digit_val_digit_char_16: "d < 16 \<Longrightarrow> digit_val 16 (digit_char d) = Some d"
  by (simp add: digit_val_def ascii_classes of_char_digit_char)

lemma digit_val_digit_char_10: "d < 10 \<Longrightarrow> digit_val 10 (digit_char d) = Some d"
  by (simp add: digit_val_def ascii_classes of_char_digit_char)

lemma digit_val_digit_char: "r = 10 \<or> r = 16 \<Longrightarrow> d < r \<Longrightarrow> digit_val r (digit_char d) = Some d"
  using digit_val_digit_char_10 digit_val_digit_char_16 by auto

lemma map_digit_val_fmt:
  "r = 10 \<or> r = 16 \<Longrightarrow> map (digit_val r) (fmt_nat r n) = map Some (digits_of r n)"
  unfolding fmt_nat_def map_map comp_def
  by (rule map_cong [OF refl]) (metis digit_val_digit_char digits_of_less one_less_numeral_iff
      semiring_norm(76))

lemma those_map_Some [simp]: "those (map Some xs) = Some xs"
  by (induction xs) auto

lemma parse_digits_fmt [simp]: "r = 10 \<or> r = 16 \<Longrightarrow> parse_digits r (fmt_nat r n) = Some n"
  by (auto simp: parse_digits_def map_digit_val_fmt digits_val_digits_of)

lemma fmt_nat_nonempty [simp]: "fmt_nat r n \<noteq> []"
  by (simp add: fmt_nat_def)

lemma unat_u16_less [simp]: "unat (p :: u16) < 65536"
  using unsigned_less [of p, where ?'a = nat] by simp

lemma unat_u8_less [simp]: "unat (b :: u8) < 256"
  using unsigned_less [of b, where ?'a = nat] by simp

lemma parse_u16_fmt [simp]: "parse_u16 (fmt_nat 10 (unat (p :: u16))) = Some p"
  by (simp add: parse_u16_def)

lemma digit_char_decimal: "d < 10 \<Longrightarrow> is_ascii_digit (digit_char d)"
  by (simp add: ascii_classes of_char_digit_char)

lemma digit_char_hex: "d < 16 \<Longrightarrow> is_ascii_hexdigit (digit_char d) \<and> \<not> is_ascii_uppercase (digit_char d)"
  by (simp add: ascii_classes of_char_digit_char)

lemma fmt_nat_10_digits: "c \<in> set (fmt_nat 10 n) \<Longrightarrow> is_ascii_digit c"
  using digits_of_less [of 10] digit_char_decimal by (fastforce simp: fmt_nat_def)

lemma fmt_nat_16_digits: "c \<in> set (fmt_nat 16 n) \<Longrightarrow> is_ascii_hexdigit c \<and> \<not> is_ascii_uppercase c"
  using digits_of_less [of 16] digit_char_hex by (fastforce simp: fmt_nat_def)

end
