(* ===== verification/Utf8.thy ===== *)
theory Utf8
  imports Prelude
begin

text \<open>
  The parts of Rust's \<open>str\<close> that read whole characters of a UTF-8 byte string: \<open>str::trim\<close> (Unicode
  \<open>White_Space\<close>), \<open>chars().any(char::is_control)\<close> (Unicode \<open>Cc\<close>), and \<open>String::from_utf8_lossy\<close>,
  with the facts the path canonicaliser needs: lossy decoding commutes with cutting at an ASCII
  byte, is the identity on valid text, and yields valid text.
\<close>

abbreviation byte :: "char \<Rightarrow> nat" where
  "byte c \<equiv> of_char c"

section \<open>Trimming\<close>

text \<open>The UTF-8 encodings of the characters with the property \<open>White_Space\<close>.\<close>

definition white_space :: "string list" where
  "white_space =
     map (map char_of)
       ([[9], [10], [11], [12], [13], [32], [194, 133], [194, 160], [225, 154, 128]]
        @ map (\<lambda>n. [226, 128, 128 + n]) [0..<11]
        @ [[226, 128, 168], [226, 128, 169], [226, 128, 175], [226, 129, 159], [227, 128, 128 :: nat]])"

text \<open>The same as character literals, which evaluate faster.\<close>

lemma white_space_code [code]: "white_space =
     [[CHR 0x09], [CHR 0x0A], [CHR 0x0B], [CHR 0x0C], [CHR 0x0D], [CHR 0x20], [CHR 0xC2, CHR
      0x85], [CHR 0xC2, CHR 0xA0], [CHR 0xE1, CHR 0x9A, CHR 0x80], [CHR 0xE2, CHR 0x80, CHR
      0x80], [CHR 0xE2, CHR 0x80, CHR 0x81], [CHR 0xE2, CHR 0x80, CHR 0x82], [CHR 0xE2, CHR
      0x80, CHR 0x83], [CHR 0xE2, CHR 0x80, CHR 0x84], [CHR 0xE2, CHR 0x80, CHR 0x85], [CHR
      0xE2, CHR 0x80, CHR 0x86], [CHR 0xE2, CHR 0x80, CHR 0x87], [CHR 0xE2, CHR 0x80, CHR
      0x88], [CHR 0xE2, CHR 0x80, CHR 0x89], [CHR 0xE2, CHR 0x80, CHR 0x8A], [CHR 0xE2, CHR
      0x80, CHR 0xA8], [CHR 0xE2, CHR 0x80, CHR 0xA9], [CHR 0xE2, CHR 0x80, CHR 0xAF], [CHR
      0xE2, CHR 0x81, CHR 0x9F], [CHR 0xE3, CHR 0x80, CHR 0x80]]"
  by code_simp

lemma white_space_nonempty: "[] \<notin> set white_space"
  by (auto simp: white_space_def)

text \<open>One leading white-space character removed, if the string starts with one.\<close>

definition strip_white :: "string \<Rightarrow> string option" where
  "strip_white s =
     (case List.find (\<lambda>w. starts_with w s) white_space of
        Some w \<Rightarrow> Some (drop (length w) s) | None \<Rightarrow> None)"

lemma strip_white_shorter: "strip_white s = Some r \<Longrightarrow> length r < length s"
proof -
  assume "strip_white s = Some r"
  then obtain w where w: "w \<in> set white_space" "starts_with w s" and r: "r = drop (length w) s"
    by (auto simp: strip_white_def dest: find_SomeD split: option.splits)
  from w white_space_nonempty have "w \<noteq> []" by auto
  with w r show ?thesis by (auto simp: starts_with_iff prefix_def)
qed

function trim_start :: "string \<Rightarrow> string" where
  "trim_start s = (case strip_white s of Some r \<Rightarrow> trim_start r | None \<Rightarrow> s)"
  by pat_completeness auto
termination by (relation "measure length") (auto dest: strip_white_shorter)

declare trim_start.simps [simp del]

definition strip_white_end :: "string \<Rightarrow> string option" where
  "strip_white_end s =
     (case List.find (\<lambda>w. ends_with w s) white_space of
        Some w \<Rightarrow> Some (take (length s - length w) s) | None \<Rightarrow> None)"

lemma strip_white_end_shorter: "strip_white_end s = Some r \<Longrightarrow> length r < length s"
proof -
  assume "strip_white_end s = Some r"
  then obtain w where w: "w \<in> set white_space" "ends_with w s"
    and r: "r = take (length s - length w) s"
    by (auto simp: strip_white_end_def dest: find_SomeD split: option.splits)
  from w white_space_nonempty have "w \<noteq> []" by auto
  with w r show ?thesis by (auto simp: ends_with_iff suffix_def)
qed

function trim_end :: "string \<Rightarrow> string" where
  "trim_end s = (case strip_white_end s of Some r \<Rightarrow> trim_end r | None \<Rightarrow> s)"
  by pat_completeness auto
termination by (relation "measure length") (auto dest: strip_white_end_shorter)

declare trim_end.simps [simp del]

definition trim :: "string \<Rightarrow> string" where
  "trim s = trim_end (trim_start s)"

section \<open>Control characters\<close>

text \<open>Whether a character of the category \<open>Cc\<close> occurs: U+0000 to U+001F, U+007F to U+009F.\<close>

fun has_control :: "string \<Rightarrow> bool" where
  "has_control [] = False"
| "has_control (c # s) =
     (byte c < 32 \<or> byte c = 127 \<or>
      (byte c = 194 \<and> (case s of d # _ \<Rightarrow> 128 \<le> byte d \<and> byte d < 160 | [] \<Rightarrow> False)) \<or>
      has_control s)"

section \<open>Lossy decoding\<close>

definition is_continuation :: "char \<Rightarrow> bool" where
  "is_continuation c = (128 \<le> byte c \<and> byte c < 192)"

text \<open>The length of the sequence a leading byte announces, 0 for a byte that leads none.\<close>

definition utf8_char_width :: "char \<Rightarrow> nat" where
  "utf8_char_width c =
     (let n = byte c in
      if n < 128 then 1 else if 194 \<le> n \<and> n \<le> 223 then 2
      else if 224 \<le> n \<and> n \<le> 239 then 3 else if 240 \<le> n \<and> n \<le> 244 then 4 else 0)"

text \<open>Which second byte may follow a leading byte: overlong forms, surrogates and values beyond
  U+10FFFF are excluded here.\<close>

definition second_ok :: "char \<Rightarrow> char \<Rightarrow> bool" where
  "second_ok b c =
     (if byte b = 224 then 160 \<le> byte c \<and> byte c \<le> 191
      else if byte b = 237 then 128 \<le> byte c \<and> byte c \<le> 159
      else if byte b = 240 then 144 \<le> byte c \<and> byte c \<le> 191
      else if byte b = 244 then 128 \<le> byte c \<and> byte c \<le> 143
      else is_continuation c)"

text \<open>The continuation bytes still owed after the second one.\<close>

fun conts :: "nat \<Rightarrow> string \<Rightarrow> bool \<times> nat" where
  "conts n [] = (n = 0, 0)"
| "conts n (c # s) =
     (if n = 0 then (True, 0)
      else if is_continuation c then (case conts (n - 1) s of (ok, k) \<Rightarrow> (ok, Suc k))
      else (False, 0))"

text \<open>Whether the sequence led by \<open>b\<close> is complete in \<open>s\<close>, and how many bytes of \<open>s\<close> it consumes
  (a maximal prefix of a valid sequence when it is not).\<close>

definition utf8_seq :: "char \<Rightarrow> string \<Rightarrow> bool \<times> nat" where
  "utf8_seq b s =
     (let w = utf8_char_width b in
      if w = 0 then (False, 0)
      else if w = 1 then (True, 0)
      else case s of
             [] \<Rightarrow> (False, 0)
           | c # r \<Rightarrow>
               if second_ok b c then (case conts (w - 2) r of (ok, k) \<Rightarrow> (ok, Suc k))
               else (False, 0))"

definition replacement :: string where
  "replacement = map char_of [239, 191, 189 :: nat]"

function utf8_lossy :: "string \<Rightarrow> string" where
  "utf8_lossy [] = []"
| "utf8_lossy (b # s) =
     (let (ok, k) = utf8_seq b s in
      (if ok then b # take k s else replacement) @ utf8_lossy (drop k s))"
  by pat_completeness auto
termination by (relation "measure length") auto

declare utf8_lossy.simps(2) [simp del]

function valid_utf8 :: "string \<Rightarrow> bool" where
  "valid_utf8 [] = True"
| "valid_utf8 (b # s) = (let (ok, k) = utf8_seq b s in ok \<and> valid_utf8 (drop k s))"
  by pat_completeness auto
termination by (relation "measure length") auto

declare valid_utf8.simps(2) [simp del]

section \<open>Lemmas\<close>

lemma is_ascii_not_continuation: "is_ascii c \<Longrightarrow> \<not> is_continuation c"
  by (simp add: is_ascii_def is_continuation_def)

lemma second_ok_continuation: "second_ok b c \<Longrightarrow> is_continuation c"
  by (auto simp: second_ok_def is_continuation_def split: if_splits)

lemma conts_ascii_tail: "is_ascii c \<Longrightarrow> conts n (s @ c # t) = conts n s"
  by (induction n s rule: conts.induct) (auto simp: is_ascii_not_continuation)

lemma conts_bound: "conts n s = (ok, k) \<Longrightarrow> k \<le> length s"
  by (induction n s arbitrary: ok k rule: conts.induct) (auto split: prod.splits if_splits)

lemma utf8_seq_bound: "utf8_seq b s = (ok, k) \<Longrightarrow> k \<le> length s"
  by (auto simp: utf8_seq_def Let_def dest: conts_bound split: list.splits if_splits prod.splits)

lemma utf8_seq_ascii_tail:
  assumes "is_ascii c" shows "utf8_seq b (s @ c # t) = utf8_seq b s"
proof (cases s)
  case Nil
  then show ?thesis
    using assms second_ok_continuation [of b c] is_ascii_not_continuation [of c]
    by (auto simp: utf8_seq_def Let_def)
next
  case (Cons d r)
  then show ?thesis using assms by (simp add: utf8_seq_def Let_def conts_ascii_tail)
qed

lemma utf8_seq_ascii [simp]: "is_ascii b \<Longrightarrow> utf8_seq b s = (True, 0)"
  by (simp add: utf8_seq_def utf8_char_width_def is_ascii_def)

lemma utf8_lossy_ascii_Cons [simp]: "is_ascii c \<Longrightarrow> utf8_lossy (c # s) = c # utf8_lossy s"
  by (simp add: utf8_lossy.simps(2))

lemma utf8_lossy_cut:
  assumes c: "is_ascii c"
  shows "utf8_lossy (s @ c # t) = utf8_lossy s @ c # utf8_lossy t"
proof (induction s rule: utf8_lossy.induct)
  case 1
  show ?case using c by simp
next
  case (2 b s)
  obtain ok k where k: "utf8_seq b s = (ok, k)" by fastforce
  then have "k \<le> length s" by (rule utf8_seq_bound)
  with 2 [OF k [symmetric] refl] k c show ?case
    by (simp add: utf8_lossy.simps(2) utf8_seq_ascii_tail)
qed

lemma utf8_lossy_ascii: "list_all is_ascii s \<Longrightarrow> utf8_lossy s = s"
  by (induction s) auto

lemma utf8_lossy_valid: "valid_utf8 s \<Longrightarrow> utf8_lossy s = s"
proof (induction s rule: utf8_lossy.induct)
  case (2 b s)
  obtain ok k where "utf8_seq b s = (ok, k)" by fastforce
  with 2 show ?case by (auto simp: utf8_lossy.simps(2) valid_utf8.simps(2))
qed simp

text \<open>An ASCII byte of the result stands in the argument: decoding invents no delimiter.\<close>

lemma conts_all: "conts n s = (ok, k) \<Longrightarrow> list_all is_continuation (take k s)"
  by (induction n s arbitrary: ok k rule: conts.induct) (auto split: if_splits prod.splits)

lemma utf8_seq_consumed: "utf8_seq b s = (ok, k) \<Longrightarrow> list_all is_continuation (take k s)"
  by (auto simp: utf8_seq_def Let_def dest: conts_all second_ok_continuation
           split: list.splits if_splits prod.splits)

lemma replacement_not_ascii: "c \<in> set replacement \<Longrightarrow> \<not> is_ascii c"
  by (auto simp: replacement_def is_ascii_def)

lemma utf8_lossy_ascii_mem:
  assumes "is_ascii c" shows "c \<in> set (utf8_lossy s) \<longleftrightarrow> c \<in> set s"
proof (induction s rule: utf8_lossy.induct)
  case (2 b s)
  obtain ok k where k: "utf8_seq b s = (ok, k)" by fastforce
  have nt: "c \<notin> set (take k s)"
    using utf8_seq_consumed [OF k] is_ascii_not_continuation [OF assms]
    by (auto simp: list_all_iff)
  have sp: "set s = set (take k s) \<union> set (drop k s)"
    by (metis append_take_drop_id set_append)
  have nr: "c \<notin> set replacement" using replacement_not_ascii assms by blast
  have b: "\<not> ok \<Longrightarrow> c \<noteq> b" using k assms by auto
  show ?case using 2 [OF k [symmetric] refl] nt nr b sp k
    by (auto simp: utf8_lossy.simps(2))
qed simp

section \<open>Characters\<close>

text \<open>\<open>str::chars\<close>: the byte string cut into its characters, each as its bytes.\<close>

function chars :: "string \<Rightarrow> string list" where
  "chars [] = []"
| "chars (b # s) = (let (ok, k) = utf8_seq b s in (b # take k s) # chars (drop k s))"
  by pat_completeness auto
termination by (relation "measure length") auto

declare chars.simps(2) [simp del]

lemma concat_chars [simp]: "concat (chars s) = s"
proof (induction s rule: chars.induct)
  case (2 b s)
  obtain ok k where "utf8_seq b s = (ok, k)" by fastforce
  with 2 show ?case by (simp add: chars.simps(2))
qed simp

end
