(* ===== verification/Net_Addr.thy ===== *)
theory Net_Addr
  imports Prelude
begin

text \<open>
  \<open>std::net::IpAddr\<close> as the sources use it: the two address types, \<open>to_string\<close>, and
  \<open>str::parse\<close>, which is the recursive-descent parser of the standard library. The main facts are
  that printing and parsing an address gives it back, and which characters a printed address has.
\<close>

section \<open>Addresses\<close>

datatype ipv4 = Ipv4 u8 u8 u8 u8

datatype ipv6 = Ipv6 u16 u16 u16 u16 u16 u16 u16 u16

datatype ip_addr = V4 ipv4 | V6 ipv6

definition is_ipv6 :: "ip_addr \<Rightarrow> bool" where
  "is_ipv6 ip = (case ip of V6 _ \<Rightarrow> True | V4 _ \<Rightarrow> False)"

fun octets :: "ipv4 \<Rightarrow> u8 list" where
  "octets (Ipv4 a b c d) = [a, b, c, d]"

fun segments :: "ipv6 \<Rightarrow> u16 list" where
  "segments (Ipv6 a b c d e f g h) = [a, b, c, d, e, f, g, h]"

fun of_segments :: "u16 list \<Rightarrow> ipv6 option" where
  "of_segments [a, b, c, d, e, f, g, h] = Some (Ipv6 a b c d e f g h)"
| "of_segments _ = None"

text \<open>\<open>u16::from_be_bytes\<close>, and the two bytes of a segment.\<close>

definition u16_of :: "u8 \<Rightarrow> u8 \<Rightarrow> u16" where
  "u16_of hi lo = of_nat (unat hi * 256 + unat lo)"

definition hi_byte :: "u16 \<Rightarrow> u8" where
  "hi_byte s = of_nat (unat s div 256)"

definition lo_byte :: "u16 \<Rightarrow> u8" where
  "lo_byte s = of_nat (unat s mod 256)"

text \<open>\<open>Ipv6Addr::to_ipv4_mapped\<close>.\<close>

definition to_ipv4_mapped :: "ipv6 \<Rightarrow> ipv4 option" where
  "to_ipv4_mapped v6 =
     (case v6 of Ipv6 s0 s1 s2 s3 s4 s5 s6 s7 \<Rightarrow>
        if s0 = 0 \<and> s1 = 0 \<and> s2 = 0 \<and> s3 = 0 \<and> s4 = 0 \<and> s5 = 0xffff
        then Some (Ipv4 (hi_byte s6) (lo_byte s6) (hi_byte s7) (lo_byte s7)) else None)"

section \<open>Printing\<close>

definition show_ipv4 :: "ipv4 \<Rightarrow> string" where
  "show_ipv4 ip = join ''.'' (map (\<lambda>b. fmt_nat 10 (unat b)) (octets ip))"

text \<open>The longest run of zero segments, the first of that length: start and length.\<close>

fun zero_run :: "nat \<Rightarrow> nat \<times> nat \<Rightarrow> nat \<times> nat \<Rightarrow> u16 list \<Rightarrow> nat \<times> nat" where
  "zero_run i cur longest [] = longest"
| "zero_run i cur longest (s # ss) =
     (if s = 0 then
        let cur' = (if snd cur = 0 then (i, 1) else (fst cur, snd cur + 1))
        in zero_run (i + 1) cur' (if snd longest < snd cur' then cur' else longest) ss
      else zero_run (i + 1) (0, 0) longest ss)"

definition longest_zeros :: "u16 list \<Rightarrow> nat \<times> nat" where
  "longest_zeros ss = zero_run 0 (0, 0) (0, 0) ss"

definition fmt_subslice :: "u16 list \<Rightarrow> string" where
  "fmt_subslice ss = join '':'' (map (\<lambda>s. fmt_nat 16 (unat s)) ss)"

definition show_ipv6 :: "ipv6 \<Rightarrow> string" where
  "show_ipv6 ip =
     (case to_ipv4_mapped ip of
        Some v4 \<Rightarrow> ''::ffff:'' @ show_ipv4 v4
      | None \<Rightarrow>
          let ss = segments ip; (start, len) = longest_zeros ss
          in if 1 < len
             then fmt_subslice (take start ss) @ ''::'' @ fmt_subslice (drop (start + len) ss)
             else fmt_subslice ss)"

definition show_ip :: "ip_addr \<Rightarrow> string" where
  "show_ip ip = (case ip of V4 a \<Rightarrow> show_ipv4 a | V6 a \<Rightarrow> show_ipv6 a)"

section \<open>Parsing\<close>

text \<open>Each reader returns what it read and the rest, or \<open>None\<close> with nothing consumed.\<close>

type_synonym 'a reader = "string \<Rightarrow> ('a \<times> string) option"

definition read_number :: "nat \<Rightarrow> nat \<Rightarrow> bool \<Rightarrow> nat \<Rightarrow> nat reader" where
  "read_number radix max_digits allow_zero_prefix bound s =
     (let ds = takeWhile (\<lambda>c. digit_val radix c \<noteq> None) s; n = length ds
      in if n = 0 \<or> max_digits < n then None
         else if \<not> allow_zero_prefix \<and> hd ds = CHR ''0'' \<and> 1 < n then None
         else case parse_digits radix ds of
                Some v \<Rightarrow> if v < bound then Some (v, drop n s) else None
              | None \<Rightarrow> None)"

definition read_separator :: "char \<Rightarrow> nat \<Rightarrow> 'a reader \<Rightarrow> 'a reader" where
  "read_separator sep index inner s =
     (if index = 0 then inner s
      else case s of
             c # r \<Rightarrow> if c = sep then inner r else None
           | [] \<Rightarrow> None)"

fun read_octets :: "nat \<Rightarrow> nat \<Rightarrow> u8 list reader" where
  "read_octets i 0 s = Some ([], s)"
| "read_octets i (Suc n) s =
     (case read_separator CHR ''.'' i (read_number 10 3 False 256) s of
        Some (v, r) \<Rightarrow>
          (case read_octets (Suc i) n r of
             Some (vs, r') \<Rightarrow> Some (of_nat v # vs, r')
           | None \<Rightarrow> None)
      | None \<Rightarrow> None)"

definition read_ipv4 :: "ipv4 reader" where
  "read_ipv4 s =
     (case read_octets 0 4 s of
        Some ([a, b, c, d], r) \<Rightarrow> Some (Ipv4 a b c d, r)
      | _ \<Rightarrow> None)"

text \<open>\<open>read_groups\<close>: the groups read, whether they ended in an embedded IPv4, and the rest.\<close>

function read_groups :: "nat \<Rightarrow> nat \<Rightarrow> string \<Rightarrow> u16 list \<times> bool \<times> string" where
  "read_groups i limit s =
     (if limit \<le> i then ([], False, s)
      else case (if i + 1 < limit then read_separator CHR '':'' i read_ipv4 s else None) of
             Some (Ipv4 a b c d, r) \<Rightarrow> ([u16_of a b, u16_of c d], True, r)
           | None \<Rightarrow>
               (case read_separator CHR '':'' i (read_number 16 4 True 65536) s of
                  Some (g, r) \<Rightarrow>
                    (case read_groups (i + 1) limit r of (gs, v4, r') \<Rightarrow> (of_nat g # gs, v4, r'))
                | None \<Rightarrow> ([], False, s)))"
  by pat_completeness auto
termination by (relation "measure (\<lambda>(i, limit, s). limit - i)") auto

declare read_groups.simps [simp del]

definition read_ipv6 :: "ipv6 reader" where
  "read_ipv6 s =
     (case read_groups 0 8 s of (head, head_v4, r) \<Rightarrow>
        if length head = 8 then map_option (\<lambda>a. (a, r)) (of_segments head)
        else if head_v4 then None
        else case strip_prefix ''::'' r of
               None \<Rightarrow> None
             | Some r1 \<Rightarrow>
                 (case read_groups 0 (8 - (length head + 1)) r1 of (tail, _, r2) \<Rightarrow>
                    map_option (\<lambda>a. (a, r2))
                      (of_segments (head @ replicate (8 - length head - length tail) 0 @ tail))))"

definition read_ip :: "ip_addr reader" where
  "read_ip s =
     (case read_ipv4 s of
        Some (a, r) \<Rightarrow> Some (V4 a, r)
      | None \<Rightarrow> map_option (\<lambda>(a, r). (V6 a, r)) (read_ipv6 s))"

text \<open>\<open>parse::<IpAddr>\<close> and \<open>parse::<Ipv6Addr>\<close>: the whole string has to be read.\<close>

definition parse_ip :: "string \<Rightarrow> ip_addr option" where
  "parse_ip s = (case read_ip s of Some (ip, []) \<Rightarrow> Some ip | _ \<Rightarrow> None)"

definition parse_ipv6 :: "string \<Rightarrow> ipv6 option" where
  "parse_ipv6 s = (case read_ipv6 s of Some (ip, []) \<Rightarrow> Some ip | _ \<Rightarrow> None)"

section \<open>Reading back what was printed\<close>

definition stops :: "nat \<Rightarrow> string \<Rightarrow> bool" where
  "stops radix s = (case s of [] \<Rightarrow> True | c # _ \<Rightarrow> digit_val radix c = None)"

lemma takeWhile_stops:
  assumes "\<And>c. c \<in> set ds \<Longrightarrow> digit_val r c \<noteq> None" and "stops r rest"
  shows "takeWhile (\<lambda>c. digit_val r c \<noteq> None) (ds @ rest) = ds"
  using assms by (cases rest) (auto simp: stops_def takeWhile_append2)

lemma fmt_nat_digit_val:
  "r = 10 \<or> r = 16 \<Longrightarrow> c \<in> set (fmt_nat r n) \<Longrightarrow> digit_val r c \<noteq> None"
proof -
  assume r: "r = 10 \<or> r = 16" and c: "c \<in> set (fmt_nat r n)"
  from c have "digit_val r c \<in> set (map (digit_val r) (fmt_nat r n))" by simp
  with r show ?thesis by (auto simp: map_digit_val_fmt)
qed

lemma fmt_nat_leading_zero:
  assumes "r = 10 \<or> r = 16" and "hd (fmt_nat r n) = CHR ''0''"
  shows "fmt_nat r n = ''0''"
proof -
  let ?d = "hd (digits_of r n)"
  have "?d < r" using assms(1) digits_of_less [of r ?d n] by auto
  moreover have "digit_char ?d = CHR ''0''"
    using assms(2) by (simp add: fmt_nat_def hd_map)
  then have "(of_char (digit_char ?d) :: nat) = 48" by simp
  ultimately have "?d = 0" using assms(1) by (auto simp: of_char_digit_char split: if_splits)
  with assms(1) have "n = 0" using hd_digits_of [of r n] by auto
  with assms show ?thesis by (auto simp: fmt_nat_def digits_of.simps digit_char_def)
qed

lemma read_number_fmt:
  assumes r: "r = 10 \<or> r = 16" and n: "n < r ^ Suc k" "n < bound" and s: "stops r rest"
  shows "read_number r (Suc k) z bound (fmt_nat r n @ rest) = Some (n, rest)"
proof -
  have tw: "takeWhile (\<lambda>c. digit_val r c \<noteq> None) (fmt_nat r n @ rest) = fmt_nat r n"
    using fmt_nat_digit_val [OF r] s by (rule takeWhile_stops)
  have "length (fmt_nat r n) \<le> Suc k"
    using r n(1) by (auto simp: fmt_nat_def intro!: length_digits_of)
  moreover have "\<not> (hd (fmt_nat r n) = CHR ''0'' \<and> 1 < length (fmt_nat r n))"
    using fmt_nat_leading_zero [OF r, of n] by auto
  ultimately show ?thesis
    using n(2) r unfolding read_number_def Let_def tw by auto
qed

lemma read_number_rest: "read_number r m z b s = Some (v, t) \<Longrightarrow> set t \<subseteq> set s"
  by (auto simp: read_number_def Let_def dest: in_set_dropD split: if_splits option.splits)

lemma four_Suc: "(4 :: nat) = Suc (Suc (Suc (Suc 0)))"
  by simp

lemmas read_ipv4_unfold = read_ipv4_def [unfolded four_Suc] read_separator_def

lemma stops_dot [simp]: "stops 10 (CHR ''.'' # s)" "stops 16 (CHR '':'' # s)" "stops r []"
  by (simp_all add: stops_def digit_val_def ascii_classes)

lemma read_ipv4_show:
  assumes "stops 10 rest"
  shows "read_ipv4 (show_ipv4 ip @ rest) = Some (ip, rest)"
proof (cases ip)
  case (Ipv4 a b c d)
  have n: "read_number 10 3 False 256 (fmt_nat 10 (unat x) @ t) = Some (unat x, t)"
    if "stops 10 t" for x :: u8 and t
    using read_number_fmt [of 10 "unat x" 2 256 t False] that unat_u8_less [of x] by simp
  show ?thesis
    using assms
    by (simp add: Ipv4 show_ipv4_def read_ipv4_unfold n)
qed

lemma read_ipv4_no_dot: "CHR ''.'' \<notin> set s \<Longrightarrow> read_ipv4 s = None"
proof -
  assume nd: "CHR ''.'' \<notin> set s"
  have "read_octets 0 (Suc (Suc (Suc (Suc 0)))) s = None"
  proof (cases "read_number 10 3 False 256 s")
    case (Some p)
    then obtain v t where p: "read_number 10 3 False 256 s = Some (v, t)" by fastforce
    with read_number_rest have "set t \<subseteq> set s" by fastforce
    with nd p show ?thesis
      by (cases t) (auto simp: read_separator_def)
  qed (simp add: read_separator_def)
  then show ?thesis by (simp add: read_ipv4_unfold)
qed

text \<open>A printed sequence of groups, each after the first (of the address) with its separator.\<close>

fun sep_groups :: "nat \<Rightarrow> u16 list \<Rightarrow> string" where
  "sep_groups i [] = []"
| "sep_groups i (g # gs) = (if i = 0 then [] else '':'') @ fmt_nat 16 (unat g) @ sep_groups (Suc i) gs"

lemma sep_groups_Suc: "gs \<noteq> [] \<Longrightarrow> sep_groups (Suc i) gs = CHR '':'' # fmt_subslice gs"
proof (induction gs arbitrary: i)
  case (Cons g gs)
  then show ?case by (cases gs) (auto simp: fmt_subslice_def)
qed simp

lemma fmt_subslice_sep: "fmt_subslice gs = sep_groups 0 gs"
proof (cases gs)
  case (Cons g hs)
  then show ?thesis
    using sep_groups_Suc [of hs 0] by (cases hs) (auto simp: fmt_subslice_def)
qed (simp add: fmt_subslice_def)

lemma stops_sep_groups: "stops 16 rest \<Longrightarrow> stops 16 (sep_groups (Suc i) gs @ rest)"
  by (cases gs) auto

lemma read_groups_stuck:
  assumes "i < limit \<Longrightarrow> read_separator CHR '':'' i (read_number 16 4 True 65536) s = None"
    and "CHR ''.'' \<notin> set s"
  shows "read_groups i limit s = ([], False, s)"
  using assms
  by (subst read_groups.simps) (auto simp: read_separator_def read_ipv4_no_dot split: list.splits)

lemma read_groups_sep:
  assumes "i + length gs \<le> limit" and "stops 16 rest" and "CHR ''.'' \<notin> set rest"
    and stuck: "read_groups (i + length gs) limit rest = ([], False, rest)"
  shows "read_groups i limit (sep_groups i gs @ rest) = (gs, False, rest)"
  using assms
proof (induction gs arbitrary: i)
  case (Cons g gs)
  let ?t = "fmt_nat 16 (unat g) @ sep_groups (Suc i) gs @ rest"
  have nd: "CHR ''.'' \<notin> set (sep_groups j hs)" for j hs
    by (induction j hs rule: sep_groups.induct)
      (auto dest!: fmt_nat_16_digits simp: ascii_classes)
  have nt: "CHR ''.'' \<notin> set ?t"
    using Cons.prems(3) nd by (auto dest!: fmt_nat_16_digits simp: ascii_classes)
  have "read_number 16 4 True 65536 ?t = Some (unat g, sep_groups (Suc i) gs @ rest)"
    using read_number_fmt [of 16 "unat g" 3 65536 _ True] stops_sep_groups [OF Cons.prems(2)]
    by simp
  moreover have "read_groups (Suc i) limit (sep_groups (Suc i) gs @ rest) = (gs, False, rest)"
    using Cons by simp
  ultimately show ?case
    using Cons.prems(1) read_ipv4_no_dot [OF nt]
    by (subst read_groups.simps) (auto simp: read_separator_def)
qed simp

section \<open>The compressed run\<close>

lemma zero_run_inv:
  assumes "zero_run i cur best ss = (st, ln)" and "length pre = i"
    and "snd cur \<le> i" "snd cur = 0 \<or> fst cur + snd cur = i"
    and "take (snd cur) (drop (fst cur) pre) = replicate (snd cur) 0"
    and "fst best + snd best \<le> i \<or> snd best = 0"
    and "take (snd best) (drop (fst best) pre) = replicate (snd best) 0"
  shows "ln = 0 \<or> st + ln \<le> length (pre @ ss) \<and> take ln (drop st (pre @ ss)) = replicate ln 0"
  using assms
proof (induction ss arbitrary: i cur best pre)
  case Nil
  then show ?case by auto
next
  case (Cons s ss)
  show ?case
  proof (cases "s = 0")
    case True
    define cur' where "cur' = (if snd cur = 0 then (i, 1) else (fst cur, snd cur + 1))"
    define best' where "best' = (if snd best < snd cur' then cur' else best)"
    have run: "zero_run (Suc i) cur' best' ss = (st, ln)"
      using Cons.prems(1) True by (auto simp: cur'_def best'_def Let_def split: if_splits)
    have c: "fst cur' + snd cur' = Suc i"
      using Cons.prems(4) by (auto simp: cur'_def)
    have z: "take (snd cur') (drop (fst cur') (pre @ [0])) = replicate (snd cur') 0"
    proof (cases "snd cur = 0")
      case True
      then show ?thesis using Cons.prems(2) by (simp add: cur'_def)
    next
      case False
      then have "drop (fst cur) pre = replicate (snd cur) 0"
        using Cons.prems(2,4,5) by (auto simp: take_all_iff)
      moreover have "fst cur \<le> length pre" using False Cons.prems(2,4) by auto
      ultimately show ?thesis using False by (simp add: cur'_def replicate_append_same)
    qed
    have b: "take (snd best) (drop (fst best) (pre @ [0])) = replicate (snd best) 0"
      using Cons.prems(2,6,7) by auto
    have "ln = 0 \<or> st + ln \<le> length ((pre @ [0]) @ ss) \<and>
        take ln (drop st ((pre @ [0]) @ ss)) = replicate ln 0"
      using run
      by (rule Cons.IH) (use Cons.prems c z b in \<open>auto simp: best'_def split: if_splits\<close>)
    with True show ?thesis by simp
  next
    case False
    have "ln = 0 \<or> st + ln \<le> length ((pre @ [s]) @ ss) \<and>
        take ln (drop st ((pre @ [s]) @ ss)) = replicate ln 0"
      by (rule Cons.IH [of "Suc i" "(0, 0)" best]) (use Cons.prems False in auto)
    then show ?thesis by simp
  qed
qed

lemma longest_zeros_split:
  assumes "longest_zeros ss = (st, ln)" and "0 < ln"
  shows "ss = take st ss @ replicate ln 0 @ drop (st + ln) ss" and "st + ln \<le> length ss"
proof -
  have *: "st + ln \<le> length ss \<and> take ln (drop st ss) = replicate ln 0"
    using zero_run_inv [of 0 "(0, 0)" "(0, 0)" ss st ln "[]"] assms
    by (simp add: longest_zeros_def)
  then show "st + ln \<le> length ss" by simp
  have "ss = take st ss @ take ln (drop st ss) @ drop ln (drop st ss)"
    by (metis append_take_drop_id)
  with * show "ss = take st ss @ replicate ln 0 @ drop (st + ln) ss"
    by (metis add.commute drop_drop)
qed

lemma length_segments [simp]: "length (segments a) = 8"
  by (cases a) simp

lemma of_segments_segments [simp]: "of_segments (segments a) = Some a"
  by (cases a) simp

section \<open>Printing then parsing\<close>

lemma u16_of_bytes [simp]: "u16_of (hi_byte s) (lo_byte s) = s"
proof -
  have "unat s div 256 < 256" using unat_u16_less [of s] by (simp add: less_mult_imp_div_less)
  then have "unat (hi_byte s) = unat s div 256" "unat (lo_byte s) = unat s mod 256"
    by (simp_all add: hi_byte_def lo_byte_def unat_of_nat)
  then show ?thesis by (simp add: u16_of_def)
qed

lemma fmt_subslice_no_dot: "CHR ''.'' \<notin> set (fmt_subslice gs)"
proof -
  have "CHR ''.'' \<notin> set (sep_groups j hs)" for j hs
    by (induction j hs rule: sep_groups.induct)
      (auto dest!: fmt_nat_16_digits simp: ascii_classes)
  then show ?thesis by (simp add: fmt_subslice_sep)
qed

lemma read_ipv6_full:
  "length gs = 8 \<Longrightarrow> read_ipv6 (fmt_subslice gs) = map_option (\<lambda>a. (a, [])) (of_segments gs)"
  using read_groups_sep [of 0 gs 8 "[]"] read_groups_stuck [of 8 8 "[]"]
  by (simp add: read_ipv6_def fmt_subslice_sep)

lemma read_number_colon: "read_number 16 4 z b (CHR '':'' # s) = None"
  by (simp add: read_number_def digit_val_def ascii_classes)

lemma read_number_empty: "read_number r m z b [] = None"
  by (simp add: read_number_def)

lemma read_ipv6_compressed:
  assumes "length hs + length ts \<le> 7"
  shows "read_ipv6 (fmt_subslice hs @ ''::'' @ fmt_subslice ts) =
    map_option (\<lambda>a. (a, [])) (of_segments (hs @ replicate (8 - length hs - length ts) 0 @ ts))"
proof -
  have "read_groups 0 8 (fmt_subslice hs @ ''::'' @ fmt_subslice ts) =
      (hs, False, ''::'' @ fmt_subslice ts)"
    unfolding fmt_subslice_sep [of hs]
    using assms fmt_subslice_no_dot [of ts]
    by (intro read_groups_sep)
      (auto intro!: read_groups_stuck simp: read_separator_def read_number_colon)
  moreover have "read_groups 0 (8 - (length hs + 1)) (fmt_subslice ts) = (ts, False, [])"
    using assms read_groups_sep [of 0 ts "8 - (length hs + 1)" "[]"]
    by (simp add: fmt_subslice_sep read_groups_stuck read_separator_def read_number_empty)
  ultimately show ?thesis using assms by (simp add: read_ipv6_def)
qed

lemma read_ipv6_mapped:
  "read_ipv6 (''::ffff:'' @ show_ipv4 (Ipv4 a b c d)) =
     Some (Ipv6 0 0 0 0 0 0xffff (u16_of a b) (u16_of c d), [])"
proof -
  have h: "fmt_nat 16 65535 = ''ffff''"
    by (simp add: fmt_nat_def digits_of.simps digit_char_def char_of_eq_iff)
  have "read_groups 0 8 (''::ffff:'' @ show_ipv4 (Ipv4 a b c d)) =
      ([], False, ''::ffff:'' @ show_ipv4 (Ipv4 a b c d))"
    by (subst read_groups.simps)
      (simp add: read_ipv4_unfold read_number_def digit_val_def ascii_classes)
  moreover have "read_number 16 4 True 65536 (''ffff:'' @ show_ipv4 (Ipv4 a b c d)) =
      Some (65535, CHR '':'' # show_ipv4 (Ipv4 a b c d))"
    using read_number_fmt [of 16 65535 3 65536 "CHR '':'' # show_ipv4 (Ipv4 a b c d)" True]
    by (simp add: h)
  moreover have "read_ipv4 (''ffff:'' @ show_ipv4 (Ipv4 a b c d)) = None"
    by (simp add: read_ipv4_unfold read_number_def digit_val_def ascii_classes)
  moreover have "read_groups 1 7 (CHR '':'' # show_ipv4 (Ipv4 a b c d)) =
      ([u16_of a b, u16_of c d], True, [])"
    using read_ipv4_show [of "[]" "Ipv4 a b c d"]
    by (subst read_groups.simps) (simp add: read_separator_def)
  moreover have "replicate 5 (0 :: u16) = [0, 0, 0, 0, 0]"
    by (simp add: numeral_eq_Suc)
  ultimately show ?thesis
    by (simp add: read_ipv6_def read_groups.simps [of 0 7] read_separator_def)
qed

lemma show_ipv6_no_v4:
  assumes "to_ipv4_mapped a = None"
  shows "read_ipv6 (show_ipv6 a) = Some (a, []) \<and> read_ipv4 (show_ipv6 a) = None"
proof -
  obtain st ln where sl: "longest_zeros (segments a) = (st, ln)" by fastforce
  show ?thesis
  proof (cases "1 < ln")
    case True
    let ?h = "take st (segments a)" and ?t = "drop (st + ln) (segments a)"
    have len: "length ?h = st" "length ?t = 8 - (st + ln)" "st + ln \<le> 8"
      using longest_zeros_split(2) [OF sl] True by auto
    then have n: "8 - length ?h - length ?t = ln" by simp
    have "?h @ replicate ln 0 @ ?t = segments a"
      using longest_zeros_split(1) [OF sl] True by simp
    with read_ipv6_compressed [of ?h ?t] len n True
    have "read_ipv6 (fmt_subslice ?h @ ''::'' @ fmt_subslice ?t) = Some (a, [])" by simp
    then show ?thesis
      using assms True sl fmt_subslice_no_dot
      by (simp add: show_ipv6_def Let_def read_ipv4_no_dot)
  next
    case False
    then show ?thesis
      using assms sl fmt_subslice_no_dot read_ipv6_full [of "segments a"]
      by (simp add: show_ipv6_def Let_def read_ipv4_no_dot)
  qed
qed

lemma show_ipv6_v4:
  assumes "to_ipv4_mapped a = Some v"
  shows "read_ipv6 (show_ipv6 a) = Some (a, []) \<and> read_ipv4 (show_ipv6 a) = None"
proof -
  have "read_ipv4 (''::ffff:'' @ show_ipv4 v) = None"
    by (simp add: read_ipv4_unfold read_number_def digit_val_def ascii_classes)
  moreover have "read_ipv6 (''::ffff:'' @ show_ipv4 v) = Some (a, [])"
    using assms read_ipv6_mapped
    by (cases a; cases v) (auto simp: to_ipv4_mapped_def split: if_splits)
  ultimately show ?thesis using assms by (simp add: show_ipv6_def)
qed

lemma parse_show_ip [simp]: "parse_ip (show_ip ip) = Some ip"
proof (cases ip)
  case (V4 a)
  then show ?thesis
    using read_ipv4_show [of "[]" a] by (simp add: parse_ip_def read_ip_def show_ip_def)
next
  case (V6 a)
  then show ?thesis
    using show_ipv6_v4 [of a] show_ipv6_no_v4 [of a]
    by (cases "to_ipv4_mapped a") (auto simp: parse_ip_def read_ip_def show_ip_def)
qed

section \<open>The characters of an address\<close>

definition ip_char :: "char \<Rightarrow> bool" where
  "ip_char c = (is_ascii_hexdigit c \<or> c = CHR ''.'' \<or> c = CHR '':'')"

lemma is_ascii_digit_hexdigit: "is_ascii_digit c \<Longrightarrow> is_ascii_hexdigit c \<and> \<not> is_ascii_uppercase c"
  by (auto simp: ascii_classes)

lemma show_ipv4_chars:
  "c \<in> set (show_ipv4 a) \<Longrightarrow> is_ascii_digit c \<or> c = CHR ''.''"
  by (cases a) (auto simp: show_ipv4_def dest: fmt_nat_10_digits)

lemma fmt_subslice_chars:
  "c \<in> set (fmt_subslice ss) \<Longrightarrow> is_ascii_hexdigit c \<and> \<not> is_ascii_uppercase c \<or> c = CHR '':''"
  using set_join [of "'':''" "map (\<lambda>s. fmt_nat 16 (unat s)) ss"]
  by (auto simp: fmt_subslice_def dest!: fmt_nat_16_digits)

lemma show_ipv6_cases:
  obtains (mapped) v where "show_ipv6 a = ''::ffff:'' @ show_ipv4 v"
  | (run) hs ts where "show_ipv6 a = fmt_subslice hs @ ''::'' @ fmt_subslice ts"
  | (full) "show_ipv6 a = fmt_subslice (segments a)"
proof (cases "to_ipv4_mapped a")
  case (Some v)
  then show ?thesis using mapped by (simp add: show_ipv6_def)
next
  case None
  obtain st ln where "longest_zeros (segments a) = (st, ln)" by fastforce
  with None show ?thesis
    using run [of "take st (segments a)" "drop (st + ln) (segments a)"] full
    by (cases "1 < ln") (simp_all add: show_ipv6_def Let_def)
qed

lemma show_ip_chars: "c \<in> set (show_ip ip) \<Longrightarrow> ip_char c \<and> \<not> is_ascii_uppercase c"
proof (cases ip)
  case (V4 a)
  moreover assume "c \<in> set (show_ip ip)"
  ultimately show ?thesis
    by (auto simp: show_ip_def ip_char_def ascii_classes dest!: show_ipv4_chars)
next
  case (V6 a)
  assume c: "c \<in> set (show_ip ip)"
  show ?thesis
  proof (cases a rule: show_ipv6_cases)
    case (mapped v)
    with V6 c show ?thesis
      by (auto simp: show_ip_def ip_char_def ascii_classes dest!: show_ipv4_chars)
  next
    case (run hs ts)
    with V6 c show ?thesis
      by (auto simp: show_ip_def ip_char_def dest!: fmt_subslice_chars)
        (simp_all add: ascii_classes)
  next
    case full
    with V6 c show ?thesis
      by (auto simp: show_ip_def ip_char_def dest!: fmt_subslice_chars)
        (simp_all add: ascii_classes)
  qed
qed

lemma show_ip_lowercase [simp]: "to_ascii_lowercase (show_ip ip) = show_ip ip"
  using show_ip_chars by (auto simp: to_ascii_lowercase_def ascii_lower_id intro!: map_idI)

lemma fmt_nat_last: "last (fmt_nat 10 n) \<noteq> CHR ''.''"
  using fmt_nat_10_digits [of "last (fmt_nat 10 n)" n] by (auto simp: ascii_classes)

lemma show_ipv4_last: "show_ipv4 a \<noteq> [] \<and> last (show_ipv4 a) \<noteq> CHR ''.''"
  by (cases a) (simp add: show_ipv4_def fmt_nat_last)

lemma show_ipv6_last: "show_ipv6 a \<noteq> [] \<and> last (show_ipv6 a) \<noteq> CHR ''.''"
proof (cases a rule: show_ipv6_cases)
  case (mapped v)
  then show ?thesis using show_ipv4_last [of v] by simp
next
  case (run hs ts)
  then show ?thesis
    using fmt_subslice_no_dot [of ts] last_in_set [of "fmt_subslice ts"]
    by (cases "fmt_subslice ts = []") (simp, metis append_is_Nil_conv last_ConsR last_appendR list.discI)
next
  case full
  have "fmt_subslice (segments a) \<noteq> []" by (cases a) (simp add: fmt_subslice_def)
  with full show ?thesis
    using fmt_subslice_no_dot [of "segments a"] last_in_set [of "fmt_subslice (segments a)"] by metis
qed

lemma show_ip_last: "show_ip ip \<noteq> [] \<and> last (show_ip ip) \<noteq> CHR ''.''"
  using show_ipv4_last show_ipv6_last by (cases ip) (simp_all add: show_ip_def)

lemma show_ip_trim [simp]: "trim_end_char CHR ''.'' (show_ip ip) = show_ip ip"
  using show_ip_last by (intro trim_end_char_id) auto

lemma show_ip_colon: "CHR '':'' \<in> set (show_ip ip) \<longleftrightarrow> is_ipv6 ip"
proof (cases ip)
  case (V4 a)
  then show ?thesis
    by (auto simp: show_ip_def is_ipv6_def ascii_classes dest!: show_ipv4_chars)
next
  case (V6 a)
  have "CHR '':'' \<in> set (show_ipv6 a)"
  proof (cases a rule: show_ipv6_cases)
    case full
    then show ?thesis by (cases a) (simp add: fmt_subslice_def)
  qed auto
  with V6 show ?thesis by (simp add: show_ip_def is_ipv6_def)
qed

text \<open>What a string that parses as an address looks like.\<close>

lemma read_number_split:
  "read_number r m z b s = Some (v, t) \<Longrightarrow> \<exists>ds. s = ds @ t \<and> ds \<noteq> [] \<and> (\<forall>c \<in> set ds. digit_val r c \<noteq> None)"
  unfolding read_number_def Let_def
  by (rule exI [of _ "takeWhile (\<lambda>c. digit_val r c \<noteq> None) s"])
    (auto simp: dropWhile_eq_drop [symmetric] dest: set_takeWhileD split: if_splits option.splits)

lemma digit_val_ip_char: "r = 10 \<or> r = 16 \<Longrightarrow> digit_val r c \<noteq> None \<Longrightarrow> is_ascii_hexdigit c"
  by (auto simp: digit_val_def ascii_classes Let_def split: if_splits)

lemma digit_val_10: "digit_val 10 c \<noteq> None \<longleftrightarrow> is_ascii_digit c"
  by (auto simp: digit_val_def ascii_classes Let_def split: if_splits)

lemma read_separator_split:
  "read_separator c i f s = Some (v, t) \<Longrightarrow>
     \<exists>q s'. s = q @ s' \<and> (q = [] \<or> q = [c]) \<and> (0 < i \<longrightarrow> q = [c]) \<and> f s' = Some (v, t)"
  by (cases s) (auto simp: read_separator_def split: if_splits)

lemma read_octets_chars:
  "read_octets i n s = Some (vs, t) \<Longrightarrow>
     \<exists>p. s = p @ t \<and> (\<forall>c \<in> set p. is_ascii_digit c \<or> c = CHR ''.'') \<and>
         (0 < n \<longrightarrow> p \<noteq> [] \<and> is_ascii_digit (last p))"
proof (induction i n s arbitrary: vs t rule: read_octets.induct)
  case (2 i n s)
  from "2.prems" obtain v r ws where
    r: "read_separator CHR ''.'' i (read_number 10 3 False 256) s = Some (v, r)"
    and o: "read_octets (Suc i) n r = Some (ws, t)"
    by (auto split: option.splits)
  from read_separator_split [OF r] obtain q s' where q: "s = q @ s'" "q = [] \<or> q = ''.''"
    and n: "read_number 10 3 False 256 s' = Some (v, r)" by blast
  from read_number_split [OF n] q(1) obtain ds where s: "s = q @ ds @ r" "ds \<noteq> []"
    and d: "\<forall>c \<in> set ds. is_ascii_digit c" unfolding digit_val_10 by blast
  from "2.IH" [OF r refl o] obtain p where
    p: "r = p @ t" "\<forall>c \<in> set p. is_ascii_digit c \<or> c = CHR ''.''"
      "0 < n \<longrightarrow> p \<noteq> [] \<and> is_ascii_digit (last p)" by blast
  have l: "is_ascii_digit (last (q @ ds @ p))"
    using s d p o by (cases n) (auto simp: last_append split: if_splits)
  show ?case
    by (rule exI [of _ "q @ ds @ p"]) (use s q(2) d p l in auto)
qed simp

lemma read_ipv4_chars:
  "read_ipv4 s = Some (a, t) \<Longrightarrow>
     \<exists>p. s = p @ t \<and> (\<forall>c \<in> set p. is_ascii_digit c \<or> c = CHR ''.'') \<and> p \<noteq> [] \<and> is_ascii_digit (last p)"
  using read_octets_chars [of 0 4 s]
  by (auto simp: read_ipv4_def split: option.splits list.splits)

lemma read_groups_chars:
  "read_groups i limit s = (gs, v4, t) \<Longrightarrow>
     \<exists>p. s = p @ t \<and> (\<forall>c \<in> set p. ip_char c) \<and>
         (p = [] \<or> is_ascii_hexdigit (last p)) \<and> (0 < i \<and> gs \<noteq> [] \<longrightarrow> CHR '':'' \<in> set p)
         \<and> (2 < length gs \<longrightarrow> CHR '':'' \<in> set p)"
proof (induction i limit s arbitrary: gs v4 t rule: read_groups.induct)
  case (1 i limit s)
  let ?v4 = "if i + 1 < limit then read_separator CHR '':'' i read_ipv4 s else None"
  let ?g = "read_separator CHR '':'' i (read_number 16 4 True 65536) s"
  consider (stop) "limit \<le> i" | (v4) at where "\<not> limit \<le> i" "?v4 = Some at"
    | (group) gr where "\<not> limit \<le> i" "?v4 = None" "?g = Some gr"
    | (stuck) "\<not> limit \<le> i" "?v4 = None" "?g = None"
    by (cases "limit \<le> i"; cases ?v4; cases ?g) blast+
  then show ?case
  proof cases
    case v4
    obtain a t' where at: "at = (a, t')" by fastforce
    with v4 have "read_separator CHR '':'' i read_ipv4 s = Some (a, t')" by (auto split: if_splits)
    from read_separator_split [OF this] obtain q s' where
      q: "s = q @ s'" "q = [] \<or> q = '':''" "0 < i \<longrightarrow> q = '':''" and r: "read_ipv4 s' = Some (a, t')"
      by blast
    from read_ipv4_chars [OF r] obtain p where
      p: "s' = p @ t'" "\<forall>c \<in> set p. is_ascii_digit c \<or> c = CHR ''.''" "p \<noteq> []" "is_ascii_digit (last p)"
      by blast
    have gs: "length gs = 2" "t = t'"
      using "1.prems" v4 at
      by (cases a; simp only: read_groups.simps [of i limit s]; force)+
    have c: "\<forall>c \<in> set (q @ p). ip_char c"
      using q(2) p(2) is_ascii_digit_hexdigit by (auto simp: ip_char_def)
    have l: "is_ascii_hexdigit (last (q @ p))"
      using p(3,4) is_ascii_digit_hexdigit by simp
    have "s = (q @ p) @ t" "0 < i \<longrightarrow> CHR '':'' \<in> set (q @ p)"
      using q p(1) gs(2) by auto
    with c l gs(1) show ?thesis by (metis less_irrefl)
  next
    case group
    obtain g r where gr: "gr = (g, r)" by fastforce
    obtain hs w t' where rec: "read_groups (i + 1) limit r = (hs, w, t')" by (metis prod_cases3)
    have gs: "gs = of_nat g # hs" "t = t'"
      using "1.prems" group gr rec by (simp_all add: read_groups.simps [of i limit s])
    from "1.IH" [OF group(1,2,3) gr [symmetric] rec] obtain p where
      p: "r = p @ t'" "\<forall>c \<in> set p. ip_char c" "p = [] \<or> is_ascii_hexdigit (last p)"
        "hs \<noteq> [] \<longrightarrow> CHR '':'' \<in> set p" by auto
    from read_separator_split [OF group(3) [unfolded gr]] obtain q s' where
      q: "s = q @ s'" "q = [] \<or> q = '':''" "0 < i \<longrightarrow> q = '':''"
      and n: "read_number 16 4 True 65536 s' = Some (g, r)" by blast
    from read_number_split [OF n] obtain ds where
      d: "s' = ds @ r" "ds \<noteq> []" "\<forall>c \<in> set ds. is_ascii_hexdigit c"
      using digit_val_ip_char [of 16] by auto
    have "is_ascii_hexdigit (last (q @ ds @ p))" using d p by (cases "p = []") auto
    moreover have "\<forall>c \<in> set (q @ ds @ p). ip_char c"
      using q(2) d(3) p(2) by (auto simp: ip_char_def)
    moreover have "s = (q @ ds @ p) @ t" using q(1) d(1) p(1) gs(2) by simp
    moreover have "0 < i \<longrightarrow> CHR '':'' \<in> set (q @ ds @ p)" using q(3) by auto
    moreover have "2 < length gs \<longrightarrow> CHR '':'' \<in> set (q @ ds @ p)" using p(4) gs(1) by auto
    ultimately show ?thesis by blast
  next
    case stop
    with "1.prems" have "gs = [] \<and> s = t" by (subst (asm) read_groups.simps) simp
    then show ?thesis by simp
  next
    case stuck
    with "1.prems" have "gs = [] \<and> s = t" by (subst (asm) read_groups.simps) simp
    then show ?thesis by simp
  qed
qed

lemma read_ipv6_chars:
  assumes "read_ipv6 s = Some (a, t)"
  shows "\<exists>p. s = p @ t \<and> (\<forall>c \<in> set p. ip_char c) \<and> CHR '':'' \<in> set p \<and> last p \<noteq> CHR ''.''"
proof -
  obtain hd v4 r where h: "read_groups 0 8 s = (hd, v4, r)" by (metis prod_cases3)
  from read_groups_chars [OF h] obtain p where
    p: "s = p @ r" "\<forall>c \<in> set p. ip_char c" "p = [] \<or> is_ascii_hexdigit (last p)"
      "2 < length hd \<longrightarrow> CHR '':'' \<in> set p" by blast
  have nd: "is_ascii_hexdigit c \<Longrightarrow> c \<noteq> CHR ''.''" for c by (auto simp: ascii_classes)
  show ?thesis
  proof (cases "length hd = 8")
    case True
    then have "r = t" using assms h by (auto simp: read_ipv6_def)
    with p True nd show ?thesis by (intro exI [of _ p]) auto
  next
    case False
    then obtain r1 where r: "r = ''::'' @ r1"
      using assms h by (auto simp: read_ipv6_def strip_prefix_Some split: if_splits option.splits)
    obtain tl w r2 where t: "read_groups 0 (8 - (length hd + 1)) r1 = (tl, w, r2)"
      by (metis prod_cases3)
    then have "r2 = t"
      using assms h False r by (auto simp: read_ipv6_def split: if_splits)
    with read_groups_chars [OF t] obtain q where
      q: "r1 = q @ t" "\<forall>c \<in> set q. ip_char c" "q = [] \<or> is_ascii_hexdigit (last q)" by blast
    then have "last (p @ ''::'' @ q) \<noteq> CHR ''.''" using nd by (cases "q = []") auto
    with p q r show ?thesis
      by (intro exI [of _ "p @ ''::'' @ q"]) (auto simp: ip_char_def)
  qed
qed

lemma parse_ip_chars:
  assumes "parse_ip s = Some ip"
  shows "s \<noteq> []" and "\<And>c. c \<in> set s \<Longrightarrow> ip_char c" and "last s \<noteq> CHR ''.''"
    and "CHR '':'' \<in> set s \<longleftrightarrow> is_ipv6 ip"
proof -
  consider a where "read_ipv4 s = Some (a, [])" "ip = V4 a"
    | a where "read_ipv6 s = Some (a, [])" "ip = V6 a"
    using assms by (auto simp: parse_ip_def read_ip_def split: option.splits list.splits)
  then have "s \<noteq> [] \<and> (\<forall>c \<in> set s. ip_char c) \<and> last s \<noteq> CHR ''.'' \<and>
      (CHR '':'' \<in> set s \<longleftrightarrow> is_ipv6 ip)"
  proof cases
    case 1
    from read_ipv4_chars [OF 1(1)] have
      "(\<forall>c \<in> set s. is_ascii_digit c \<or> c = CHR ''.'') \<and> s \<noteq> [] \<and> is_ascii_digit (last s)" by simp
    with 1(2) is_ascii_digit_hexdigit show ?thesis
      by (auto simp: ip_char_def is_ipv6_def ascii_classes)
  next
    case 2
    with read_ipv6_chars [OF 2(1)] show ?thesis by (auto simp: is_ipv6_def)
  qed
  then show "s \<noteq> []" "\<And>c. c \<in> set s \<Longrightarrow> ip_char c" "last s \<noteq> CHR ''.''"
    "CHR '':'' \<in> set s \<longleftrightarrow> is_ipv6 ip" by auto
qed

section \<open>The one spelling of an IPv4 address\<close>

lemma digits_of_digits_val:
  assumes "1 < r" and "ds \<noteq> []" and "\<And>d. d \<in> set ds \<Longrightarrow> d < r" and "hd ds \<noteq> 0 \<or> length ds = 1"
  shows "digits_of r (digits_val r ds) = ds \<and> (hd ds \<noteq> 0 \<longrightarrow> 0 < digits_val r ds)"
  using assms(2-)
proof (induction ds rule: rev_induct)
  case (snoc d ds)
  show ?case
  proof (cases "ds = []")
    case True
    then show ?thesis using snoc.prems(2) by (auto simp: digits_val_def digits_of.simps)
  next
    case False
    then have h: "hd ds \<noteq> 0" using snoc.prems(3) by (cases ds) auto
    with snoc False have ih: "digits_of r (digits_val r ds) = ds" "0 < digits_val r ds" by auto
    have d: "d < r" using snoc.prems(2) by simp
    have v: "digits_val r (ds @ [d]) = digits_val r ds * r + d" by (simp add: digits_val_def)
    have "r \<le> digits_val r ds * r" using ih(2) by (cases "digits_val r ds") auto
    then have ge: "\<not> digits_val r (ds @ [d]) < r" unfolding v by linarith
    have "digits_val r (ds @ [d]) div r = digits_val r ds" "digits_val r (ds @ [d]) mod r = d"
      using d assms(1) unfolding v by auto
    with ge ih assms(1) show ?thesis
      by (subst digits_of.simps) (simp add: v)
  qed
qed simp

lemma digit_char_digit_val:
  "digit_val 10 c = Some d \<Longrightarrow> digit_char d = c \<and> d < 10"
  by (auto simp: digit_val_def ascii_classes Let_def digit_char_def split: if_splits)

lemma map_digit_val_those:
  "those (map (digit_val 10) s) = Some ds \<Longrightarrow> map digit_char ds = s \<and> (\<forall>d \<in> set ds. d < 10)"
proof (induction s arbitrary: ds)
  case (Cons c s)
  then show ?case using digit_char_digit_val [of c]
    by (auto split: option.splits)
qed simp

lemma read_number_canonical:
  assumes "read_number 10 3 False 256 s = Some (v, r)"
  shows "s = fmt_nat 10 v @ r \<and> v < 256"
proof -
  let ?ds = "takeWhile (\<lambda>c. digit_val 10 c \<noteq> None) s"
  have ne: "?ds \<noteq> []" and z: "hd ?ds = CHR ''0'' \<Longrightarrow> length ?ds = 1" and r: "r = drop (length ?ds) s"
    and v: "parse_digits 10 ?ds = Some v" "v < 256"
    using assms by (auto simp: read_number_def Let_def not_less le_Suc_eq split: if_splits option.splits)
  then obtain ns where ns: "those (map (digit_val 10) ?ds) = Some ns" "v = digits_val 10 ns"
    by (auto simp: parse_digits_def)
  from map_digit_val_those [OF ns(1)] have m: "map digit_char ns = ?ds" "\<And>d. d \<in> set ns \<Longrightarrow> d < 10"
    by auto
  with ne have "ns \<noteq> []" by auto
  moreover have "hd ns \<noteq> 0 \<or> length ns = 1"
  proof (cases "hd ns = 0")
    case True
    have "hd ?ds = digit_char (hd ns)"
      using \<open>ns \<noteq> []\<close> m(1) hd_map [of ns digit_char] by metis
    with True have "hd ?ds = CHR ''0''" by (simp add: digit_char_def char_of_eq_iff)
    with z show ?thesis by (metis m(1) length_map)
  qed simp
  ultimately have "digits_of 10 v = ns" using digits_of_digits_val [of 10 ns] m(2) ns(2) by simp
  then have "fmt_nat 10 v = ?ds" by (simp add: fmt_nat_def m(1))
  then show ?thesis using r v(2) by (simp add: takeWhile_dropWhile_id flip: dropWhile_eq_drop)
qed

lemma read_ipv4_canonical: "read_ipv4 s = Some (a, r) \<Longrightarrow> s = show_ipv4 a @ r"
  by (auto simp: read_ipv4_unfold show_ipv4_def unat_of_nat dest!: read_number_canonical
      split: option.splits list.splits if_splits)

lemma show_parse_v4: "parse_ip s = Some (V4 a) \<Longrightarrow> show_ip (V4 a) = s"
  by (auto simp: parse_ip_def read_ip_def show_ip_def dest!: read_ipv4_canonical
      split: option.splits list.splits)

section \<open>Case does not matter to the parser\<close>

abbreviation lower :: "string \<Rightarrow> string" where
  "lower \<equiv> to_ascii_lowercase"

lemma digit_val_lower: "r = 10 \<or> r = 16 \<Longrightarrow> digit_val r (ascii_lower c) = digit_val r c"
  by (auto simp: digit_val_def ascii_classes of_char_ascii_lower Let_def)

lemma lower_eq_char [simp]:
  "ascii_lower c = CHR '':'' \<longleftrightarrow> c = CHR '':''" "ascii_lower c = CHR ''.'' \<longleftrightarrow> c = CHR ''.''"
  "CHR '':'' = ascii_lower c \<longleftrightarrow> c = CHR '':''" "CHR ''.'' = ascii_lower c \<longleftrightarrow> c = CHR ''.''"
proof -
  show 1: "ascii_lower c = CHR '':'' \<longleftrightarrow> c = CHR '':''" "ascii_lower c = CHR ''.'' \<longleftrightarrow> c = CHR ''.''"
    by (rule ascii_lower_eq_iff, simp add: ascii_classes)+
  show "CHR '':'' = ascii_lower c \<longleftrightarrow> c = CHR '':''" "CHR ''.'' = ascii_lower c \<longleftrightarrow> c = CHR ''.''"
    using 1 by metis+
qed

lemma lower_eq_zero: "ascii_lower c = CHR ''0'' \<longleftrightarrow> c = CHR ''0''"
proof -
  have "ascii_lower c = CHR ''0'' \<longleftrightarrow> (of_char (ascii_lower c) :: nat) = of_char CHR ''0''"
    by (simp only: of_char_eq_iff)
  also have "\<dots> \<longleftrightarrow> (of_char c :: nat) = of_char CHR ''0''" by (simp add: of_char_ascii_lower)
  also have "\<dots> \<longleftrightarrow> c = CHR ''0''" by (simp only: of_char_eq_iff)
  finally show ?thesis .
qed

lemma parse_digits_lower: "r = 10 \<or> r = 16 \<Longrightarrow> parse_digits r (lower s) = parse_digits r s"
  by (simp add: parse_digits_def to_ascii_lowercase_def digit_val_lower comp_def)

lemma read_number_lower:
  assumes "r = 10 \<or> r = 16"
  shows "read_number r m z b (lower s) = map_option (map_prod id lower) (read_number r m z b s)"
proof -
  let ?tw = "takeWhile (\<lambda>c. digit_val r c \<noteq> None)"
  have tw: "?tw (lower s) = lower (?tw s)"
    by (simp add: to_ascii_lowercase_def takeWhile_map comp_def digit_val_lower [OF assms])
  have hd: "?tw s \<noteq> [] \<Longrightarrow> hd (lower (?tw s)) = CHR ''0'' \<longleftrightarrow> hd (?tw s) = CHR ''0''"
    by (simp add: to_ascii_lowercase_def hd_map lower_eq_zero)
  have dr: "drop n (lower s) = lower (drop n s)" for n
    by (simp add: to_ascii_lowercase_def drop_map)
  show ?thesis
    unfolding read_number_def Let_def tw
    using hd by (auto simp: dr parse_digits_lower [OF assms] split: option.splits)
qed

lemma read_separator_lower:
  assumes "\<And>s. inner (lower s) = map_option (map_prod id lower) (inner s)"
    and "sep = CHR '':'' \<or> sep = CHR ''.''"
  shows "read_separator sep i inner (lower s) = map_option (map_prod id lower) (read_separator sep i inner s)"
proof (cases "i = 0")
  case True
  then show ?thesis using assms(1) by (simp add: read_separator_def)
next
  case False
  show ?thesis
  proof (cases s)
    case (Cons c t)
    have "lower (c # t) = ascii_lower c # lower t" by (simp add: to_ascii_lowercase_def)
    with Cons False assms show ?thesis by (auto simp: read_separator_def)
  qed (use False in \<open>simp add: read_separator_def to_ascii_lowercase_def\<close>)
qed

lemma read_sep_number_lower:
  assumes "r = 10 \<or> r = 16" and "sep = CHR '':'' \<or> sep = CHR ''.''"
  shows "read_separator sep i (read_number r m z b) (lower s) =
    map_option (map_prod id lower) (read_separator sep i (read_number r m z b) s)"
  by (rule read_separator_lower) (use assms read_number_lower in auto)

lemma read_octets_lower: "read_octets i n (lower s) = map_option (map_prod id lower) (read_octets i n s)"
proof (induction i n s rule: read_octets.induct)
  case (2 i n s)
  have sep: "read_separator CHR ''.'' i (read_number 10 3 False 256) (lower s) =
      map_option (map_prod id lower) (read_separator CHR ''.'' i (read_number 10 3 False 256) s)"
    by (rule read_sep_number_lower) auto
  show ?case
    using "2.IH" unfolding read_octets.simps sep
    by (auto split: option.splits)
qed simp

lemma read_ipv4_lower: "read_ipv4 (lower s) = map_option (map_prod id lower) (read_ipv4 s)"
  unfolding read_ipv4_def read_octets_lower by (auto split: option.splits list.splits)

lemma read_groups_lower:
  "read_groups i limit (lower s) = (case read_groups i limit s of (gs, v, t) \<Rightarrow> (gs, v, lower t))"
proof (induction i limit s rule: read_groups.induct)
  case (1 i limit s)
  have v4: "read_separator CHR '':'' i read_ipv4 (lower s) =
      map_option (map_prod id lower) (read_separator CHR '':'' i read_ipv4 s)"
    by (rule read_separator_lower) (simp_all add: read_ipv4_lower)
  have g: "read_separator CHR '':'' i (read_number 16 4 True 65536) (lower s) =
      map_option (map_prod id lower) (read_separator CHR '':'' i (read_number 16 4 True 65536) s)"
    by (rule read_sep_number_lower) auto
  show ?case
    using "1.IH"
    by (subst (1 2) read_groups.simps)
      (auto simp: v4 g split: option.splits ipv4.splits prod.splits)
qed

lemma strip_colons_lower: "strip_prefix ''::'' (lower r) = map_option lower (strip_prefix ''::'' r)"
  by (cases r; cases "tl r") (auto simp: to_ascii_lowercase_def)

lemma read_ipv6_lower: "read_ipv6 (lower s) = map_option (map_prod id lower) (read_ipv6 s)"
  unfolding read_ipv6_def read_groups_lower
  by (auto simp: strip_colons_lower read_groups_lower option.map_comp comp_def
      split: prod.splits option.splits)

lemma parse_ip_lower: "parse_ip (lower s) = parse_ip s"
proof -
  have e: "(case lower t of [] \<Rightarrow> a | _ # _ \<Rightarrow> b) = (case t of [] \<Rightarrow> a | _ # _ \<Rightarrow> b)" for t and a b :: "'x"
    by (cases t) (simp_all add: to_ascii_lowercase_def)
  show ?thesis
    unfolding parse_ip_def read_ip_def read_ipv4_lower read_ipv6_lower
    by (cases "read_ipv4 s"; cases "read_ipv6 s") (auto simp: e)
qed

end
