(* ===== verification/Allow_Rules.thy ===== *)
theory Allow_Rules
  imports Utf8 Net_Addr
begin

text \<open>
  The data model and the matcher of the egress allowlist (src/src/allowlist/mod.rs): rules, method
  and port sets, the canonicalisation of a request, and whether a rule matches one.

  The compiled regular expressions are values of a type \<open>'re\<close>, and \<open>Regex::is_match\<close> is the argument
  \<open>is_match\<close> of every definition that asks it.
\<close>

section \<open>Layers, methods and ports\<close>

datatype layer = L7 | L7Clear | L4

definition default_port :: "layer \<Rightarrow> u16" where
  "default_port l = (case l of L7 \<Rightarrow> 443 | L4 \<Rightarrow> 443 | L7Clear \<Rightarrow> 80)"

definition inspected :: "layer \<Rightarrow> bool" where
  "inspected l = (l = L7 \<or> l = L7Clear)"

datatype methods = Unspecified | AnyMethod | Only "string list"

definition admits_deny :: "methods \<Rightarrow> string \<Rightarrow> bool" where
  "admits_deny ms m =
     (case ms of
        Unspecified \<Rightarrow> True
      | AnyMethod \<Rightarrow> True
      | Only vs \<Rightarrow> list_ex (\<lambda>v. v = m \<or> v = ''*'') vs)"

definition admits :: "methods \<Rightarrow> string \<Rightarrow> bool" where
  "admits ms m =
     (if m = ''WS'' then (case ms of Only vs \<Rightarrow> list_ex (\<lambda>v. v = ''WS'') vs | _ \<Rightarrow> False)
      else admits_deny ms m)"

definition methods_prefix :: "methods \<Rightarrow> string" where
  "methods_prefix ms =
     (case ms of
        Unspecified \<Rightarrow> ''''
      | AnyMethod \<Rightarrow> ''{*} ''
      | Only vs \<Rightarrow> ''{'' @ join '','' vs @ ''} '')"

datatype ports = AnyPort | Ranges "(u16 \<times> u16) list"

definition ports_default :: ports where
  "ports_default = Ranges [(443, 443)]"

definition ports_single :: "u16 \<Rightarrow> ports" where
  "ports_single p = Ranges [(p, p)]"

definition ports_admits :: "ports \<Rightarrow> u16 \<Rightarrow> bool" where
  "ports_admits ps p =
     (case ps of AnyPort \<Rightarrow> True | Ranges rs \<Rightarrow> list_ex (\<lambda>(lo, hi). lo \<le> p \<and> p \<le> hi) rs)"

definition ports_covers :: "ports \<Rightarrow> ports \<Rightarrow> bool" where
  "ports_covers mine theirs =
     (case mine of
        AnyPort \<Rightarrow> True
      | Ranges ms \<Rightarrow>
          (case theirs of
             AnyPort \<Rightarrow> False
           | Ranges ts \<Rightarrow>
               list_all (\<lambda>(lo, hi). list_ex (\<lambda>(mlo, mhi). mlo \<le> lo \<and> hi \<le> mhi) ms) ts))"

definition ports_intersects :: "ports \<Rightarrow> ports \<Rightarrow> bool" where
  "ports_intersects a b =
     (case a of
        AnyPort \<Rightarrow> True
      | Ranges as \<Rightarrow>
          (case b of
             AnyPort \<Rightarrow> True
           | Ranges bs \<Rightarrow>
               list_ex (\<lambda>(alo, ahi). list_ex (\<lambda>(blo, bhi). alo \<le> bhi \<and> blo \<le> ahi) bs) as))"

definition fmt_u16 :: "u16 \<Rightarrow> string" where
  "fmt_u16 p = fmt_nat 10 (unat p)"

definition render_suffix :: "u16 option \<Rightarrow> ports \<Rightarrow> string" where
  "render_suffix omit_default ps =
     (case ps of
        AnyPort \<Rightarrow> '':*''
      | Ranges rs \<Rightarrow>
          if (case omit_default of Some d \<Rightarrow> rs = [(d, d)] | None \<Rightarrow> False) then ''''
          else '':'' @ join '',''
                 (map (\<lambda>(lo, hi). if lo = hi then fmt_u16 lo else fmt_u16 lo @ ''-'' @ fmt_u16 hi) rs))"

section \<open>Canonical paths\<close>

definition hex_val :: "char \<Rightarrow> nat option" where
  "hex_val c =
     (if CHR ''0'' \<le> c \<and> c \<le> CHR ''9'' then Some (byte c - byte CHR ''0'')
      else if CHR ''a'' \<le> c \<and> c \<le> CHR ''f'' then Some (byte c - byte CHR ''a'' + 10)
      else if CHR ''A'' \<le> c \<and> c \<le> CHR ''F'' then Some (byte c - byte CHR ''A'' + 10)
      else None)"

text \<open>The byte loop of \<open>percent_decode\<close>.\<close>

fun percent_bytes :: "string \<Rightarrow> string" where
  "percent_bytes [] = []"
| "percent_bytes [c] = [c]"
| "percent_bytes [c, h] = [c, h]"
| "percent_bytes (c # h # l # s) =
     (if c = CHR ''%''
      then case (hex_val h, hex_val l) of
             (Some a, Some b) \<Rightarrow> char_of (a * 16 + b) # percent_bytes s
           | _ \<Rightarrow> c # percent_bytes (h # l # s)
      else c # percent_bytes (h # l # s))"

definition percent_decode :: "string \<Rightarrow> string" where
  "percent_decode s = utf8_lossy (percent_bytes s)"

definition seg_step :: "string list \<Rightarrow> string \<Rightarrow> string list" where
  "seg_step out seg =
     (let s = before CHR '';'' seg in
      if s = '''' \<or> s = ''.'' then out
      else if s = ''..'' then butlast out
      else out @ [s])"

definition canonical_segments :: "string \<Rightarrow> string list" where
  "canonical_segments target =
     (let path = before CHR ''?'' target;
          decoded = before CHR ''#'' (percent_decode path)
      in foldl seg_step [] (split_on CHR ''/'' decoded))"

section \<open>Hosts\<close>

definition apex_or_subdomain :: "string \<Rightarrow> string \<Rightarrow> bool" where
  "apex_or_subdomain domain host =
     (host = domain \<or>
      (case strip_suffix domain host of Some rest \<Rightarrow> ends_with ''.'' rest | None \<Rightarrow> False))"

definition shared_credential_covers :: "string \<Rightarrow> string \<Rightarrow> bool" where
  "shared_credential_covers entry host =
     (case strip_prefix ''*.'' entry of
        Some domain \<Rightarrow> apex_or_subdomain domain host
      | None \<Rightarrow> entry = host)"

definition canonical_host :: "string \<Rightarrow> string" where
  "canonical_host host =
     (let lower = trim_end_char CHR ''.'' (to_ascii_lowercase host)
      in case parse_ip lower of Some ip \<Rightarrow> show_ip ip | None \<Rightarrow> lower)"

definition v4_of :: "u16 \<Rightarrow> u16 \<Rightarrow> ipv4" where
  "v4_of hi lo = Ipv4 (hi_byte hi) (lo_byte hi) (hi_byte lo) (lo_byte lo)"

definition embedded_v4 :: "ipv6 \<Rightarrow> ipv4 option" where
  "embedded_v4 v6 =
     (case to_ipv4_mapped v6 of
        Some v4 \<Rightarrow> Some v4
      | None \<Rightarrow>
          (case v6 of Ipv6 s0 s1 s2 s3 s4 s5 s6 s7 \<Rightarrow>
             if s0 = 0 \<and> s1 = 0 \<and> s2 = 0 \<and> s3 = 0 \<and> s4 = 0 \<and> s5 = 0 \<and>
                \<not> (s6 = 0 \<and> (s7 = 0 \<or> s7 = 1)) then Some (v4_of s6 s7)
             else if s0 = 0x0064 \<and> s1 = 0xff9b \<and> s2 = 0 \<and> s3 = 0 \<and> s4 = 0 \<and> s5 = 0
               then Some (v4_of s6 s7)
             else if s0 = 0x2002 then Some (v4_of s1 s2)
             else if s0 = 0x2001 \<and> s1 = 0 then Some (v4_of (not s6) (not s7))
             else None))"

definition ends_in_a_number :: "string \<Rightarrow> bool" where
  "ends_in_a_number name =
     (let l = after_last CHR ''.'' name in
      l \<noteq> '''' \<and>
      (list_all is_ascii_digit l \<or>
       (case strip_prefix ''0x'' l of Some hex \<Rightarrow> list_all is_ascii_hexdigit hex | None \<Rightarrow> False)))"

definition is_request_host :: "string \<Rightarrow> bool" where
  "is_request_host host =
     (if canonical_host host \<noteq> host then False
      else case parse_ip host of
             Some ip \<Rightarrow> (case ip of V4 _ \<Rightarrow> True | V6 v6 \<Rightarrow> embedded_v4 v6 = None)
           | None \<Rightarrow>
               host \<noteq> '''' \<and>
               list_all (\<lambda>b. is_ascii_alphanumeric b \<or> b \<in> set ''-_.'') host \<and>
               \<not> ends_in_a_number host)"

definition display_host :: "string \<Rightarrow> string" where
  "display_host host =
     (case parse_ip host of
        Some ip \<Rightarrow> if is_ipv6 ip then ''['' @ host @ '']'' else host
      | None \<Rightarrow> host)"

section \<open>Requests\<close>

record request =
  rq_host :: string
  rq_port :: u16
  rq_segs :: "string list"
  rq_url :: string
  rq_canonical_url :: string

definition Request_new :: "string \<Rightarrow> u16 \<Rightarrow> string \<Rightarrow> request" where
  "Request_new host port target =
     (let host = canonical_host host;
          segs = canonical_segments target;
          decoded = percent_decode target;
          authority = (if port = 443 then display_host host
                       else display_host host @ '':'' @ fmt_u16 port)
      in \<lparr> rq_host = host, rq_port = port, rq_segs = segs,
           rq_url = ''https://'' @ authority @ decoded,
           rq_canonical_url = ''https://'' @ authority @ ''/'' @ join ''/'' segs \<rparr>)"

section \<open>Rules\<close>

datatype 're rule_kind =
    Ip ip_addr ports
  | Host string ports
  | Subdomain string ports
  | Url string ports string bool
  | Regex string 're

record 're rule =
  kind :: "'re rule_kind"
  rmethods :: methods
  rlayer :: layer
  rgroup :: "string option"
  builtin :: bool

text \<open>Equality of kinds and rules as the sources define it: the compiled engine, the subtree flag
  and the provenance take no part in it.\<close>

definition kind_eq :: "'re rule_kind \<Rightarrow> 're rule_kind \<Rightarrow> bool" where
  "kind_eq k k' =
     (case (k, k') of
        (Ip a pa, Ip b pb) \<Rightarrow> a = b \<and> pa = pb
      | (Host a pa, Host b pb) \<Rightarrow> a = b \<and> pa = pb
      | (Subdomain a pa, Subdomain b pb) \<Rightarrow> a = b \<and> pa = pb
      | (Url h1 p1 pa1 _, Url h2 p2 pa2 _) \<Rightarrow> h1 = h2 \<and> p1 = p2 \<and> pa1 = pa2
      | (Regex a _, Regex b _) \<Rightarrow> a = b
      | _ \<Rightarrow> False)"

definition rule_eq :: "'re rule \<Rightarrow> 're rule \<Rightarrow> bool" where
  "rule_eq r r' = (kind_eq (kind r) (kind r') \<and> rmethods r = rmethods r' \<and> rlayer r = rlayer r')"

definition path_matches :: "string list \<Rightarrow> string \<Rightarrow> bool \<Rightarrow> bool" where
  "path_matches req_segs rule_path subtree =
     (let base = (if subtree then case strip_suffix ''/*'' rule_path of Some b \<Rightarrow> b | None \<Rightarrow> rule_path
                  else rule_path);
          rule_segs = canonical_segments base
      in if subtree then starts_with rule_segs req_segs else req_segs = rule_segs)"

text \<open>\<open>RuleKind::matches\<close> and its port-agnostic form.\<close>

definition kind_matches :: "('re \<Rightarrow> string \<Rightarrow> bool) \<Rightarrow> 're rule_kind \<Rightarrow> request \<Rightarrow> bool" where
  "kind_matches is_match k req =
     (case k of
        Ip ip ps \<Rightarrow> ports_admits ps (rq_port req) \<and> parse_ip (rq_host req) = Some ip
      | Host h ps \<Rightarrow> ports_admits ps (rq_port req) \<and> rq_host req = h
      | Subdomain d ps \<Rightarrow> ports_admits ps (rq_port req) \<and> apex_or_subdomain d (rq_host req)
      | Url h ps pa subtree \<Rightarrow>
          rq_host req = h \<and> ports_admits ps (rq_port req) \<and> path_matches (rq_segs req) pa subtree
      | Regex _ re \<Rightarrow> is_match re (rq_url req) \<or> is_match re (rq_canonical_url req))"

definition matches_any_port :: "('re \<Rightarrow> string \<Rightarrow> bool) \<Rightarrow> 're rule_kind \<Rightarrow> request \<Rightarrow> bool" where
  "matches_any_port is_match k req =
     (case k of
        Ip ip _ \<Rightarrow> parse_ip (rq_host req) = Some ip
      | Host h _ \<Rightarrow> rq_host req = h
      | Subdomain d _ \<Rightarrow> apex_or_subdomain d (rq_host req)
      | Url h _ pa subtree \<Rightarrow> rq_host req = h \<and> path_matches (rq_segs req) pa subtree
      | Regex _ re \<Rightarrow> is_match re (rq_url req) \<or> is_match re (rq_canonical_url req))"

text \<open>\<open>Rule::matches\<close>, \<open>Rule::matches_deny\<close>, \<open>Rule::matches_mute\<close>.\<close>

definition matches :: "('re \<Rightarrow> string \<Rightarrow> bool) \<Rightarrow> 're rule \<Rightarrow> request \<Rightarrow> string \<Rightarrow> bool" where
  "matches is_match r req m = (admits (rmethods r) m \<and> kind_matches is_match (kind r) req)"

definition matches_deny :: "('re \<Rightarrow> string \<Rightarrow> bool) \<Rightarrow> 're rule \<Rightarrow> request \<Rightarrow> string \<Rightarrow> bool" where
  "matches_deny is_match r req m = (admits_deny (rmethods r) m \<and> kind_matches is_match (kind r) req)"

definition matches_mute :: "('re \<Rightarrow> string \<Rightarrow> bool) \<Rightarrow> 're rule \<Rightarrow> request \<Rightarrow> string \<Rightarrow> bool" where
  "matches_mute is_match r req m = (admits_deny (rmethods r) m \<and> matches_any_port is_match (kind r) req)"

definition opens_every_host :: "('re \<Rightarrow> string \<Rightarrow> bool) \<Rightarrow> 're rule \<Rightarrow> bool" where
  "opens_every_host is_match r =
     (case kind r of
        Regex _ _ \<Rightarrow>
          list_all (kind_matches is_match (kind r))
            [Request_new ''a.invalid'' 443 ''/'', Request_new ''2001:db8::1'' 9 ''/x?y=1'',
             Request_new ''host.example'' 8443 ''/deep/path'']
      | _ \<Rightarrow> False)"

text \<open>What a rule names, as far as it shows: \<open>HostReach\<close>, \<open>host_reach\<close> and \<open>Rule::covers\<close>.\<close>

datatype host_reach = Exact string | Below string

definition takes_in :: "host_reach \<Rightarrow> host_reach \<Rightarrow> bool" where
  "takes_in mine theirs =
     (case (mine, theirs) of
        (Exact a, Exact b) \<Rightarrow> a = b
      | (Exact _, Below _) \<Rightarrow> False
      | (Below d, Exact h) \<Rightarrow> apex_or_subdomain d h
      | (Below d, Below b) \<Rightarrow> apex_or_subdomain d b)"

definition reach :: "'re rule_kind \<Rightarrow> (host_reach \<times> ports) option" where
  "reach k =
     (case k of
        Ip ip ps \<Rightarrow> Some (Exact (show_ip ip), ps)
      | Host h ps \<Rightarrow> Some (Exact h, ps)
      | Url h ps _ _ \<Rightarrow> Some (Exact h, ps)
      | Subdomain d ps \<Rightarrow> Some (Below d, ps)
      | Regex _ _ \<Rightarrow> None)"

definition is_url :: "'re rule_kind \<Rightarrow> bool" where
  "is_url k = (case k of Url _ _ _ _ \<Rightarrow> True | _ \<Rightarrow> False)"

definition covers :: "'re rule \<Rightarrow> 're rule \<Rightarrow> bool" where
  "covers r other =
     (if rule_eq r other then True
      else if rlayer r \<noteq> rlayer other \<or> (rmethods r \<noteq> Unspecified \<and> rmethods r \<noteq> AnyMethod) \<or>
              is_url (kind r) then False
      else case (reach (kind r), reach (kind other)) of
             (Some (mine, my_ports), Some (theirs, their_ports)) \<Rightarrow>
               takes_in mine theirs \<and> ports_covers my_ports their_ports
           | _ \<Rightarrow> False)"

definition concrete_host :: "'re rule \<Rightarrow> string option" where
  "concrete_host r = (case kind r of Host h _ \<Rightarrow> Some h | Url h _ _ _ \<Rightarrow> Some h | _ \<Rightarrow> None)"

section \<open>Display\<close>

definition render :: "u16 option \<Rightarrow> 're rule_kind \<Rightarrow> string" where
  "render omit_default k =
     (case k of
        Ip ip ps \<Rightarrow>
          (let s = render_suffix omit_default ps in
           if s \<noteq> '''' \<and> is_ipv6 ip then ''['' @ show_ip ip @ '']'' @ s else show_ip ip @ s)
      | Host h ps \<Rightarrow> h @ render_suffix omit_default ps
      | Subdomain d ps \<Rightarrow> ''*.'' @ d @ render_suffix omit_default ps
      | Url h ps pa _ \<Rightarrow> display_host h @ render_suffix omit_default ps @ pa
      | Regex pat _ \<Rightarrow> ''re:'' @ pat)"

definition show_kind :: "'re rule_kind \<Rightarrow> string" where
  "show_kind k = render (Some 443) k"

definition show_rule :: "'re rule \<Rightarrow> string" where
  "show_rule r =
     (let scheme = (case rlayer r of
                      L4 \<Rightarrow> ''tcp://''
                    | L7Clear \<Rightarrow> ''http://''
                    | L7 \<Rightarrow> (case kind r of Regex _ _ \<Rightarrow> '''' | _ \<Rightarrow> ''https://''));
          omit_default = (case rlayer r of L4 \<Rightarrow> None | l \<Rightarrow> Some (default_port l))
      in methods_prefix (rmethods r) @ scheme @ render omit_default (kind r))"

end
