(* ===== verification/Allow_Facts.thy ===== *)
theory Allow_Facts
  imports Allow_Rules
begin

text \<open>
  What the matcher of the egress allowlist guarantees: canonical paths and hosts, port and method
  sets, and when one rule covers another.
\<close>

section \<open>Percent decoding\<close>

lemma percent_bytes_Cons [simp]: "c \<noteq> CHR ''%'' \<Longrightarrow> percent_bytes (c # s) = c # percent_bytes s"
  by (cases s; cases "tl s") auto

lemma percent_bytes_cut:
  assumes "c \<noteq> CHR ''%''" and "hex_val c = None"
  shows "percent_bytes (p @ c # q) = percent_bytes p @ c # percent_bytes q"
proof (induction p rule: percent_bytes.induct)
  case (4 a h l p)
  then show ?case by (cases "hex_val h"; cases "hex_val l") auto
next
  case (2 a)
  then show ?case using assms by (cases "a = CHR ''%''"; cases q) auto
next
  case (3 a b)
  then show ?case using assms 
    by (cases "a = CHR ''%''"; cases "b = CHR ''%''"; cases "hex_val b"; cases q) auto
qed (use assms in simp)

lemma percent_decode_cut:
  assumes "c \<noteq> CHR ''%''" and "hex_val c = None" and "is_ascii c"
  shows "percent_decode (p @ c # q) = percent_decode p @ c # percent_decode q"
  by (simp add: percent_decode_def percent_bytes_cut utf8_lossy_cut assms)

lemma percent_decode_Nil [simp]: "percent_decode [] = []"
  by (simp add: percent_decode_def)

lemma percent_decode_slash:
  "percent_decode (p @ CHR ''/'' # q) = percent_decode p @ CHR ''/'' # percent_decode q"
  by (rule percent_decode_cut) (simp_all add: hex_val_def less_eq_char_def is_ascii_def)

lemma percent_decode_ascii:
  "CHR ''%'' \<notin> set s \<Longrightarrow> list_all is_ascii s \<Longrightarrow> percent_decode s = s"
proof -
  assume "CHR ''%'' \<notin> set s"
  then have "percent_bytes s = s" by (induction s) auto
  moreover assume "list_all is_ascii s"
  ultimately show ?thesis by (simp add: percent_decode_def utf8_lossy_ascii)
qed

text \<open>A spelling of a byte string: some of its bytes written as they are, the others as \<open>%XX\<close>.\<close>

definition hex2 :: "char \<Rightarrow> string" where
  "hex2 c = [digit_char (byte c div 16), digit_char (byte c mod 16)]"

definition spelled :: "(char \<times> bool) list \<Rightarrow> string" where
  "spelled xs = concat (map (\<lambda>(c, enc). if enc then CHR ''%'' # hex2 c else [c]) xs)"

lemma hex_val_digit_char: "d < 16 \<Longrightarrow> hex_val (digit_char d) = Some d"
  by (simp add: hex_val_def less_eq_char_def of_char_digit_char)

lemma byte_less: "byte c < 256"
  by (rule nat_of_char_less_256)

lemma percent_bytes_spelled:
  "\<forall>(c, enc) \<in> set xs. enc \<or> c \<noteq> CHR ''%'' \<Longrightarrow> percent_bytes (spelled xs) = map fst xs"
proof (induction xs)
  case (Cons x xs)
  obtain c enc where x: "x = (c, enc)" by fastforce
  have "byte c div 16 < 16" using byte_less [of c] by (simp add: less_mult_imp_div_less)
  then have "hex_val (digit_char (byte c div 16)) = Some (byte c div 16)"
    "hex_val (digit_char (byte c mod 16)) = Some (byte c mod 16)"
    by (simp_all add: hex_val_digit_char)
  then have "percent_bytes (CHR ''%'' # hex2 c @ s) = c # percent_bytes s" for s
    by (simp add: hex2_def)
  with Cons x show ?case by (cases enc) (auto simp: spelled_def)
qed (simp add: spelled_def)

lemma hex2_chars: "d \<in> set (hex2 c) \<Longrightarrow> is_ascii_hexdigit d"
proof -
  have "byte c div 16 < 16" using byte_less [of c] by (simp add: less_mult_imp_div_less)
  moreover have "byte c mod 16 < 16" by simp
  ultimately show "d \<in> set (hex2 c) \<Longrightarrow> ?thesis" by (auto simp: hex2_def simp del: mod_less_divisor dest: digit_char_hex)
qed

lemma spelled_question: "CHR ''?'' \<notin> fst ` set xs \<Longrightarrow> CHR ''?'' \<notin> set (spelled xs)"
  by (force simp: spelled_def ascii_classes dest!: hex2_chars split: if_splits)

section \<open>Canonical paths\<close>

lemma before_Cons: "before d (c # s) = (if c = d then [] else c # before d s)"
  by (simp add: before_def)

lemma before_append:
  "before d (a @ b) = (if d \<in> set a then before d a else a @ before d b)"
  by (induction a) (auto simp: before_def)

lemma canonical_segments_query: "canonical_segments (p @ CHR ''?'' # q) = canonical_segments p"
  by (simp add: canonical_segments_def)

lemma canonical_segments_append:
  assumes "CHR ''?'' \<notin> set p" and "CHR ''#'' \<notin> set (percent_decode p)" and "CHR ''?'' \<notin> set q"
  shows "canonical_segments (p @ CHR ''/'' # q) =
    foldl seg_step (canonical_segments p)
      (split_on CHR ''/'' (before CHR ''#'' (percent_decode q)))"
proof -
  have "before CHR ''?'' (p @ CHR ''/'' # q) = p @ CHR ''/'' # q" using assms by simp
  then show ?thesis
    using assms
    by (simp add: canonical_segments_def Let_def percent_decode_slash before_append
        split_on_append_delim) (simp add: before_def split_on_append_delim)
qed

lemma canonical_segments_hash:
  assumes "CHR ''#'' \<in> set (percent_decode p)" and "CHR ''?'' \<notin> set p"
  shows "canonical_segments (p @ CHR ''/'' # q) = canonical_segments p"
  using assms
  by (cases "CHR ''?'' \<in> set q")
    (simp_all add: canonical_segments_def Let_def before_append before_Cons percent_decode_slash)

lemma split_on_snoc: "split_on d (a @ [d]) = split_on d a @ [[]]"
  by (simp add: split_on_append_delim [of d a "[]", simplified])

lemma seg_step_skip [simp]: "seg_step out [] = out" "seg_step out ''.'' = out"
  by (simp_all add: seg_step_def before_def)

lemma seg_step_up [simp]: "seg_step out ''..'' = butlast out"
  by (simp add: seg_step_def before_def)

text \<open>A segment that resolution leaves in a path.\<close>

definition plain_segment :: "string \<Rightarrow> bool" where
  "plain_segment s =
     (s \<noteq> '''' \<and> s \<noteq> ''.'' \<and> s \<noteq> ''..'' \<and>
      list_all (\<lambda>c. c \<noteq> CHR ''/'' \<and> c \<noteq> CHR ''#'' \<and> c \<noteq> CHR '';'') s)"

lemma seg_step_plain: "plain_segment s \<Longrightarrow> seg_step out s = out @ [s]"
proof -
  assume s: "plain_segment s"
  then have "CHR '';'' \<notin> set s" by (auto simp: plain_segment_def list_all_iff)
  with s show ?thesis by (simp add: seg_step_def plain_segment_def)
qed

lemma seg_step_keeps_plain:
  assumes "list_all plain_segment out" and "CHR ''/'' \<notin> set s" "CHR ''#'' \<notin> set s"
  shows "list_all plain_segment (seg_step out s)"
proof -
  let ?b = "before CHR '';'' s"
  have "list_all (\<lambda>c. c \<noteq> CHR ''/'' \<and> c \<noteq> CHR ''#'' \<and> c \<noteq> CHR '';'') ?b"
    using assms(2,3) before_subset [of "CHR '';''" s] before_notin [of "CHR '';''" s]
    unfolding list_all_iff by blast
  then have "?b \<noteq> '''' \<Longrightarrow> ?b \<noteq> ''.'' \<Longrightarrow> ?b \<noteq> ''..'' \<Longrightarrow> plain_segment ?b"
    unfolding plain_segment_def by blast
  moreover have "list_all plain_segment (butlast out)"
    using assms(1) by (auto simp: list_all_iff dest: in_set_butlastD)
  ultimately show ?thesis using assms(1) by (simp add: seg_step_def Let_def)
qed

lemma foldl_seg_step_plain:
  assumes "list_all plain_segment out"
    and "\<And>s. s \<in> set ss \<Longrightarrow> CHR ''/'' \<notin> set s \<and> CHR ''#'' \<notin> set s"
  shows "list_all plain_segment (foldl seg_step out ss)"
  using assms by (induction ss arbitrary: out) (auto intro: seg_step_keeps_plain)

lemma canonical_segments_plain: "list_all plain_segment (canonical_segments target)"
  unfolding canonical_segments_def Let_def
proof (rule foldl_seg_step_plain)
  fix s assume s: "s \<in> set (split_on CHR ''/''
    (before CHR ''#'' (percent_decode (before CHR ''?'' target))))"
  from split_on_pieces [OF s] split_on_subset [OF s] before_notin [of "CHR ''#''"]
  show "CHR ''/'' \<notin> set s \<and> CHR ''#'' \<notin> set s" by blast
qed simp

lemma foldl_seg_step_id: "list_all plain_segment ss \<Longrightarrow> foldl seg_step out ss = out @ ss"
  by (induction ss arbitrary: out) (auto simp: seg_step_plain)

section \<open>Hosts\<close>

lemma canonical_host_cases:
  obtains (ip) ip where "parse_ip (trim_end_char CHR ''.'' (to_ascii_lowercase h)) = Some ip"
      "canonical_host h = show_ip ip"
  | (name) "parse_ip (trim_end_char CHR ''.'' (to_ascii_lowercase h)) = None"
      "canonical_host h = trim_end_char CHR ''.'' (to_ascii_lowercase h)"
  by (cases "parse_ip (trim_end_char CHR ''.'' (to_ascii_lowercase h))")
    (auto simp: canonical_host_def)

lemma to_ascii_lowercase_trim:
  "to_ascii_lowercase (trim_end_char CHR ''.'' s) = trim_end_char CHR ''.'' (to_ascii_lowercase s)"
proof -
  have "(ascii_lower c = CHR ''.'') = (c = CHR ''.'')" for c
    by (rule ascii_lower_eq_iff) (simp add: ascii_classes)
  then show ?thesis
    by (simp add: to_ascii_lowercase_def trim_end_char_def rev_map dropWhile_map comp_def)
qed

lemma canonical_host_show_ip [simp]: "canonical_host (show_ip ip) = show_ip ip"
  by (simp add: canonical_host_def)

lemma canonical_host_idem [simp]: "canonical_host (canonical_host h) = canonical_host h"
proof (cases h rule: canonical_host_cases)
  case name
  then show ?thesis by (simp add: canonical_host_def to_ascii_lowercase_trim)
qed simp

lemma parse_canonical_host:
  "parse_ip (canonical_host h) = Some ip \<Longrightarrow> canonical_host h = show_ip ip"
  by (cases h rule: canonical_host_cases) auto

lemma canonical_host_dots [simp]: "canonical_host (h @ replicate n CHR ''.'') = canonical_host h"
proof -
  have "to_ascii_lowercase (replicate n CHR ''.'') = replicate n CHR ''.''"
    by (simp add: to_ascii_lowercase_def ascii_lower_def ascii_classes)
  then show ?thesis by (simp add: canonical_host_def)
qed

lemma canonical_host_case:
  "to_ascii_lowercase h = to_ascii_lowercase h' \<Longrightarrow> canonical_host h = canonical_host h'"
  by (simp add: canonical_host_def)

lemma apex_or_subdomain_iff:
  "apex_or_subdomain d h \<longleftrightarrow> h = d \<or> (\<exists>p. h = p @ ''.'' @ d)"
  by (auto simp: apex_or_subdomain_def strip_suffix_Some ends_with_iff suffix_def
           split: option.splits)
    (metis append.assoc append_Cons append_Nil option.distinct(1) strip_suffix_Some)

lemma apex_or_subdomain_refl [simp]: "apex_or_subdomain d d"
  by (simp add: apex_or_subdomain_def)

lemma apex_or_subdomain_trans:
  "apex_or_subdomain d e \<Longrightarrow> apex_or_subdomain e h \<Longrightarrow> apex_or_subdomain d h"
  unfolding apex_or_subdomain_iff by (metis append.assoc)

section \<open>Methods and ports\<close>

lemma admits_imp_admits_deny: "admits ms m \<Longrightarrow> admits_deny ms m"
  by (auto simp: admits_def admits_deny_def list_ex_iff split: methods.splits if_splits)

lemma ports_covers_sound: "ports_covers a b \<Longrightarrow> ports_admits b p \<Longrightarrow> ports_admits a p"
proof -
  assume c: "ports_covers a b" and p: "ports_admits b p"
  show ?thesis
  proof (cases "a = AnyPort")
    case False
    with c obtain ms ts where ab: "a = Ranges ms" "b = Ranges ts"
      by (cases a; cases b) (auto simp: ports_covers_def)
    with p obtain lo hi where t: "(lo, hi) \<in> set ts" "lo \<le> p" "p \<le> hi"
      by (auto simp: ports_admits_def list_ex_iff)
    with c ab obtain mlo mhi where m: "(mlo, mhi) \<in> set ms" "mlo \<le> lo" "hi \<le> mhi"
      by (fastforce simp: ports_covers_def list_all_iff list_ex_iff)
    from order_trans [OF m(2) t(2)] order_trans [OF t(3) m(3)] m(1) ab show ?thesis
      by (auto simp: ports_admits_def list_ex_iff)
  qed (simp add: ports_admits_def)
qed

text \<open>A port set as the parser builds one: some range, and no empty range.\<close>

definition ports_wf :: "ports \<Rightarrow> bool" where
  "ports_wf ps = (case ps of AnyPort \<Rightarrow> True | Ranges rs \<Rightarrow> rs \<noteq> [] \<and> list_all (\<lambda>(lo, hi). lo \<le> hi) rs)"

lemma ports_wf_nonempty: "ports_wf ps \<Longrightarrow> \<exists>p. ports_admits ps p"
proof (cases ps)
  case (Ranges rs)
  assume "ports_wf ps"
  with Ranges obtain lo hi where "(lo, hi) \<in> set rs" "lo \<le> hi"
    by (cases rs) (auto simp: ports_wf_def)
  with Ranges show ?thesis by (force simp: ports_admits_def list_ex_iff)
qed (simp add: ports_admits_def)

lemma ranges_meet:
  fixes alo :: u16
  assumes "alo \<le> ahi" "blo \<le> bhi"
  shows "alo \<le> bhi \<and> blo \<le> ahi \<longleftrightarrow> (\<exists>p. alo \<le> p \<and> p \<le> ahi \<and> blo \<le> p \<and> p \<le> bhi)"
proof
  assume "alo \<le> bhi \<and> blo \<le> ahi"
  with assms show "\<exists>p. alo \<le> p \<and> p \<le> ahi \<and> blo \<le> p \<and> p \<le> bhi"
    by (intro exI [of _ "max alo blo"]) (auto simp: max_def)
qed force

lemma ports_intersects_iff:
  assumes "ports_wf a" "ports_wf b"
  shows "ports_intersects a b \<longleftrightarrow> (\<exists>p. ports_admits a p \<and> ports_admits b p)"
proof (cases "a = AnyPort \<or> b = AnyPort")
  case True
  with assms ports_wf_nonempty [of a] ports_wf_nonempty [of b] show ?thesis
    by (cases a; cases b) (auto simp: ports_intersects_def ports_admits_def)
next
  case False
  then obtain as bs where ab: "a = Ranges as" "b = Ranges bs" by (cases a; cases b) auto
  then have w: "\<And>lo hi. (lo, hi) \<in> set as \<Longrightarrow> lo \<le> hi" "\<And>lo hi. (lo, hi) \<in> set bs \<Longrightarrow> lo \<le> hi"
    using assms by (auto simp: ports_wf_def list_all_iff)
  have "ports_intersects a b \<longleftrightarrow>
      (\<exists>alo ahi blo bhi. (alo, ahi) \<in> set as \<and> (blo, bhi) \<in> set bs \<and> alo \<le> bhi \<and> blo \<le> ahi)"
    by (auto simp: ab ports_intersects_def list_ex_iff)
  also have "\<dots> \<longleftrightarrow>
      (\<exists>alo ahi blo bhi. (alo, ahi) \<in> set as \<and> (blo, bhi) \<in> set bs \<and>
         (\<exists>p. alo \<le> p \<and> p \<le> ahi \<and> blo \<le> p \<and> p \<le> bhi))"
    using ranges_meet [OF w(1) w(2)] by blast
  also have "\<dots> \<longleftrightarrow> (\<exists>p. ports_admits a p \<and> ports_admits b p)"
    unfolding ab ports_admits_def ports.case list_ex_iff by fast
  finally show ?thesis .
qed

section \<open>Requests and rules\<close>

lemma Request_new_simps [simp]:
  "rq_host (Request_new h p t) = canonical_host h"
  "rq_port (Request_new h p t) = p"
  "rq_segs (Request_new h p t) = canonical_segments t"
  by (simp_all add: Request_new_def Let_def)

text \<open>A rule as the grammar and the transfer build one: the subtree flag is what the path says, and
  the engine is the one its pattern compiles to.\<close>

definition rule_wf :: "(string \<Rightarrow> 're option) \<Rightarrow> 're rule \<Rightarrow> bool" where
  "rule_wf compile r =
     (case kind r of
        Url _ _ pa subtree \<Rightarrow> subtree = ends_with ''/*'' pa
      | Regex pat re \<Rightarrow> compile pat = Some re
      | _ \<Rightarrow> True)"

lemma kind_eq_wf:
  "rule_wf c r \<Longrightarrow> rule_wf c r' \<Longrightarrow> kind_eq (kind r) (kind r') \<longleftrightarrow> kind r = kind r'"
  by (cases "kind r"; cases "kind r'") (auto simp: kind_eq_def rule_wf_def)

text \<open>What a request to a kind with a reach has: its host is in the reach, its port in the set.\<close>

definition in_reach :: "host_reach \<Rightarrow> string \<Rightarrow> bool" where
  "in_reach hr h = (case hr of Exact e \<Rightarrow> h = e | Below d \<Rightarrow> apex_or_subdomain d h)"

lemma takes_in_sound: "takes_in a b \<Longrightarrow> in_reach b h \<Longrightarrow> in_reach a h"
  by (auto simp: takes_in_def in_reach_def split: host_reach.splits intro: apex_or_subdomain_trans)

lemma kind_matches_reach:
  "reach k = Some (hr, ps) \<Longrightarrow> kind_matches im k (Request_new h p t) \<Longrightarrow>
     in_reach hr (canonical_host h) \<and> ports_admits ps p"
  by (auto simp: reach_def kind_matches_def in_reach_def parse_canonical_host
           split: rule_kind.splits)

lemma reach_kind_matches:
  "reach k = Some (hr, ps) \<Longrightarrow> \<not> is_url k \<Longrightarrow> in_reach hr (canonical_host h) \<Longrightarrow>
     ports_admits ps p \<Longrightarrow> kind_matches im k (Request_new h p t)"
  by (auto simp: reach_def kind_matches_def in_reach_def is_url_def split: rule_kind.splits)

lemma covers_kind:
  assumes "covers r other" "rule_wf c r" "rule_wf c other"
    and "kind_matches im (kind other) (Request_new h p t)"
  shows "kind_matches im (kind r) (Request_new h p t)"
proof (cases "rule_eq r other")
  case True
  with assms show ?thesis using kind_eq_wf [of c r other] by (simp add: rule_eq_def)
next
  case False
  with assms(1) obtain mine mp theirs tp where
    r: "reach (kind r) = Some (mine, mp)" "reach (kind other) = Some (theirs, tp)"
    and c: "takes_in mine theirs" "ports_covers mp tp" "\<not> is_url (kind r)"
    by (auto simp: covers_def split: if_splits option.splits)
  from kind_matches_reach [OF r(2) assms(4)] c show ?thesis
    by (auto intro: reach_kind_matches [OF r(1)] takes_in_sound ports_covers_sound)
qed

lemma covers_methods:
  "covers r other \<Longrightarrow> admits_deny (rmethods other) m \<Longrightarrow> admits_deny (rmethods r) m"
  by (auto simp: covers_def rule_eq_def admits_deny_def split: if_splits methods.splits)

section \<open>Spellings of one resource\<close>

lemma split_on_append_last:
  "d \<notin> set b \<Longrightarrow> split_on d (a @ b) = butlast (split_on d a) @ [last (split_on d a) @ b]"
proof (induction a)
  case (Cons c a)
  then show ?case by (cases "split_on d a") auto
qed simp

lemma seg_step_params: "seg_step out (s @ CHR '';'' # y) = seg_step out s"
  by (simp add: seg_step_def)

lemma foldl_params:
  assumes "CHR ''/'' \<notin> set y"
  shows "foldl seg_step out (split_on CHR ''/'' (a @ CHR '';'' # y)) =
    foldl seg_step out (split_on CHR ''/'' a)"
proof -
  have "CHR ''/'' \<notin> set (CHR '';'' # y)" using assms by simp
  then have "split_on CHR ''/'' (a @ CHR '';'' # y) =
      butlast (split_on CHR ''/'' a) @ [last (split_on CHR ''/'' a) @ CHR '';'' # y]"
    by (rule split_on_append_last)
  then have "foldl seg_step out (split_on CHR ''/'' (a @ CHR '';'' # y)) =
      foldl seg_step out (butlast (split_on CHR ''/'' a) @ [last (split_on CHR ''/'' a)])"
    by (simp add: seg_step_params del: append_butlast_last_id)
  then show ?thesis by simp
qed

lemma percent_decode_delims:
  "percent_decode (p @ CHR ''#'' # q) = percent_decode p @ CHR ''#'' # percent_decode q"
  "percent_decode (p @ CHR '';'' # q) = percent_decode p @ CHR '';'' # percent_decode q"
  by (rule percent_decode_cut; simp add: hex_val_def less_eq_char_def is_ascii_def)+

lemma canonical_segments_fragment: "canonical_segments (p @ CHR ''#'' # q) = canonical_segments p"
  by (simp add: canonical_segments_def before_append before_Cons percent_decode_delims)

lemma canonical_segments_slash:
  "canonical_segments (p @ ''/'') = canonical_segments p"
proof (cases "CHR ''?'' \<in> set p \<or> CHR ''#'' \<in> set (percent_decode p)")
  case True
  then show ?thesis
    using canonical_segments_hash [of p "[]"] by (auto simp: canonical_segments_def before_append)
next
  case False
  then show ?thesis using canonical_segments_append [of p "[]"] by simp
qed

lemma canonical_segments_params:
  assumes "CHR ''?'' \<notin> set p" "CHR ''?'' \<notin> set y" "CHR ''/'' \<notin> set (percent_decode y)"
    "CHR ''#'' \<notin> set (percent_decode y)"
  shows "canonical_segments (p @ CHR '';'' # y) = canonical_segments p"
proof (cases "CHR ''#'' \<in> set (percent_decode p)")
  case True
  then show ?thesis using assms
    by (simp add: canonical_segments_def before_append percent_decode_delims)
next
  case False
  then show ?thesis using assms
    by (simp add: canonical_segments_def before_append percent_decode_delims foldl_params)
qed

lemma before_hash_slash:
  "CHR ''#'' \<notin> set a \<Longrightarrow> before CHR ''#'' (a @ CHR ''/'' # b) = a @ CHR ''/'' # before CHR ''#'' b"
  by (simp add: before_append before_Cons)

lemma canonical_segments_detour:
  assumes "CHR ''?'' \<notin> set p" "CHR ''#'' \<notin> set (percent_decode p)" "CHR ''?'' \<notin> set q"
    and d: "CHR ''?'' \<notin> set d" "CHR ''#'' \<notin> set (percent_decode d)"
    and step: "\<And>out. foldl seg_step out (split_on CHR ''/'' (percent_decode d)) = out"
  shows "canonical_segments (p @ ''/'' @ d @ ''/'' @ q) = canonical_segments (p @ ''/'' @ q)"
proof -
  have "split_on CHR ''/'' (before CHR ''#'' (percent_decode (d @ CHR ''/'' # q))) =
      split_on CHR ''/'' (percent_decode d) @
      split_on CHR ''/'' (before CHR ''#'' (percent_decode q))"
    using d by (simp add: percent_decode_slash before_hash_slash split_on_append_delim)
  then show ?thesis
    using assms by (simp add: canonical_segments_append)
qed

lemma percent_decode_dots: "percent_decode ''.'' = ''.''" "percent_decode ''..'' = ''..''"
  by (simp_all add: percent_decode_ascii is_ascii_def)

lemma canonical_segments_up:
  assumes p: "CHR ''?'' \<notin> set p" "CHR ''#'' \<notin> set (percent_decode p)" and q: "CHR ''?'' \<notin> set q"
    and x: "CHR ''?'' \<notin> set x" "plain_segment (percent_decode x)"
  shows "canonical_segments (p @ ''/'' @ x @ ''/../'' @ q) = canonical_segments (p @ ''/'' @ q)"
proof -
  have nx: "CHR ''/'' \<notin> set (percent_decode x)" "CHR ''#'' \<notin> set (percent_decode x)"
    using x(2) by (auto simp: plain_segment_def list_all_iff)
  have "foldl seg_step out (split_on CHR ''/'' (percent_decode (x @ CHR ''/'' # ''..''))) = out" for out
    using nx x(2)
    by (simp add: percent_decode_slash percent_decode_dots split_on_append_delim seg_step_plain)
  then show ?thesis
    using canonical_segments_detour [OF p q, of "x @ CHR ''/'' # ''..''"] x(1) nx
    by (simp add: percent_decode_slash percent_decode_dots)
qed

text \<open>However a path is spelled, its canonical segments are the same: a query, a fragment, a
  trailing slash, path parameters, an empty or \<open>.\<close> segment and a segment undone by \<open>..\<close> all vanish.\<close>

theorem canonical_segments_respelled:
  assumes p: "CHR ''?'' \<notin> set p" "CHR ''#'' \<notin> set (percent_decode p)"
    and q: "CHR ''?'' \<notin> set q"
    and x: "CHR ''?'' \<notin> set x" "plain_segment (percent_decode x)"
    and y: "CHR ''?'' \<notin> set y" "CHR ''/'' \<notin> set (percent_decode y)" "CHR ''#'' \<notin> set (percent_decode y)"
  shows "canonical_segments (p @ ''?'' @ z) = canonical_segments p \<and>
    canonical_segments (p @ ''#'' @ z) = canonical_segments p \<and>
    canonical_segments (p @ ''/'') = canonical_segments p \<and>
    canonical_segments (p @ '';'' @ y) = canonical_segments p \<and>
    canonical_segments (p @ ''//'' @ q) = canonical_segments (p @ ''/'' @ q) \<and>
    canonical_segments (p @ ''/./'' @ q) = canonical_segments (p @ ''/'' @ q) \<and>
    canonical_segments (p @ ''/'' @ x @ ''/../'' @ q) = canonical_segments (p @ ''/'' @ q)"
proof -
  have "canonical_segments (p @ ''?'' @ z) = canonical_segments p"
    by (simp add: canonical_segments_query)
  moreover have "canonical_segments (p @ ''#'' @ z) = canonical_segments p"
    by (simp add: canonical_segments_fragment)
  moreover have "canonical_segments (p @ ''/'') = canonical_segments p"
    by (rule canonical_segments_slash)
  moreover have "canonical_segments (p @ '';'' @ y) = canonical_segments p"
    using canonical_segments_params [OF p(1) y] by simp
  moreover have "canonical_segments (p @ ''//'' @ q) = canonical_segments (p @ ''/'' @ q)"
    using canonical_segments_detour [OF p q, of "[]"] by simp
  moreover have "canonical_segments (p @ ''/./'' @ q) = canonical_segments (p @ ''/'' @ q)"
    using canonical_segments_detour [OF p q, of "''.''"] by (simp add: percent_decode_dots)
  moreover note canonical_segments_up [OF p q x]
  ultimately show ?thesis by blast
qed

theorem canonical_segments_respelled_witness:
  "canonical_segments (''/a'' @ ''/'' @ ''%62'' @ ''/../'' @ ''c'') = canonical_segments (''/a'' @ ''/'' @ ''c'')"
proof -
  have e: "percent_decode ''/a'' = ''/a''" "percent_decode ''%62'' = ''b''"
    by (simp_all add: percent_decode_def hex_val_def less_eq_char_def is_ascii_def char_of_eq_iff)
  have "plain_segment ''b''" by (simp add: plain_segment_def)
  with e show ?thesis
    using canonical_segments_respelled [of "''/a''" "''c''" "''%62''" "[]" "[]"] by simp
qed

text \<open>Percent-encoding any of a path's bytes changes nothing: every spelling of the same bytes,
  with no \<open>?\<close> and no bare \<open>%\<close>, has the same canonical segments.\<close>

theorem canonical_segments_spelled:
  assumes "\<forall>(c, enc) \<in> set xs. c \<noteq> CHR ''%'' \<and> c \<noteq> CHR ''?''"
  shows "canonical_segments (spelled xs) = canonical_segments (map fst xs)"
proof -
  have q: "CHR ''?'' \<notin> fst ` set xs" using assms by force
  have plain: "\<forall>(c, enc) \<in> set xs. enc \<or> c \<noteq> CHR ''%''"
    and raw: "\<forall>(c, enc) \<in> set (map (\<lambda>x. (fst x, False)) xs). enc \<or> c \<noteq> CHR ''%''"
    using assms by auto
  have "spelled (map (\<lambda>x. (fst x, False)) xs) = map fst xs"
    by (induction xs) (auto simp: spelled_def)
  with percent_bytes_spelled [OF plain] percent_bytes_spelled [OF raw]
  have "percent_decode (spelled xs) = percent_decode (map fst xs)"
    by (simp add: percent_decode_def comp_def)
  moreover have "CHR ''?'' \<notin> set (map fst xs)" using q by auto
  ultimately show ?thesis
    using spelled_question [OF q] by (simp add: canonical_segments_def)
qed

theorem canonical_segments_spelled_witness:
  "canonical_segments (spelled [(CHR ''/'', False), (CHR ''a'', True), (CHR ''/'', True), (CHR ''b'', False)])
     = canonical_segments ''/a/b''"
  using canonical_segments_spelled
    [of "[(CHR ''/'', False), (CHR ''a'', True), (CHR ''/'', True), (CHR ''b'', False)]"]
  by simp

text \<open>Canonical segments are clean: none is empty, \<open>.\<close> or \<open>..\<close>, and none holds a separator the
  canonicaliser cuts at; rebuilt into a path they read as themselves.\<close>

theorem canonical_segments_clean:
  "list_all plain_segment (canonical_segments target) \<and>
   foldl seg_step [] (split_on CHR ''/'' (''/'' @ join ''/'' (canonical_segments target))) =
     canonical_segments target"
proof -
  let ?ss = "canonical_segments target"
  have plain: "list_all plain_segment ?ss" by (rule canonical_segments_plain)
  then have ns: "\<And>s. s \<in> set ?ss \<Longrightarrow> CHR ''/'' \<notin> set s"
    by (auto simp: plain_segment_def list_all_iff)
  have "foldl seg_step [] (split_on CHR ''/'' (join ''/'' ?ss)) = ?ss"
  proof (cases "?ss = []")
    case False
    then show ?thesis using split_on_join [OF False ns] foldl_seg_step_id [OF plain] by simp
  qed simp
  with plain show ?thesis by simp
qed

text \<open>C4. \<open>canonical_host\<close> gives one form per host: case and trailing root dots do not matter, the
  form is its own canonical form, and an address is printed the one way \<open>IpAddr\<close> prints it.\<close>

theorem canonical_host_normal_form:
  "canonical_host (canonical_host h) = canonical_host h \<and>
   canonical_host (h @ replicate n CHR ''.'') = canonical_host h \<and>
   canonical_host (to_ascii_lowercase h) = canonical_host h \<and>
   canonical_host (show_ip ip) = show_ip ip \<and>
   (parse_ip (canonical_host h) = Some ip \<longleftrightarrow> canonical_host h = show_ip ip)"
proof -
  have "canonical_host (to_ascii_lowercase h) = canonical_host h"
    by (rule canonical_host_case) simp
  moreover have "parse_ip (canonical_host h) = Some ip \<longleftrightarrow> canonical_host h = show_ip ip"
    using parse_canonical_host by auto
  ultimately show ?thesis by simp
qed

text \<open>A rule that covers another matches, as a deny rule, every request the other matches; as an
  allow rule, every request but a WebSocket upgrade.\<close>

theorem covers_sound:
  assumes "covers r other" and "rule_wf compile r" and "rule_wf compile other"
  shows "(matches_deny im other (Request_new h p t) m \<longrightarrow> matches_deny im r (Request_new h p t) m) \<and>
    (m \<noteq> ''WS'' \<longrightarrow> matches im other (Request_new h p t) m \<longrightarrow> matches im r (Request_new h p t) m)"
  using covers_kind [OF assms] covers_methods [OF assms(1)]
  by (auto simp: matches_deny_def matches_def admits_def)

theorem covers_sound_witness:
  "matches_deny (\<lambda>re :: unit. \<lambda>s. False)
     \<lparr> kind = Subdomain ''t.io'' AnyPort, rmethods = Unspecified, rlayer = L7, rgroup = None, builtin = False \<rparr>
     (Request_new ''a.T.io.'' 443 ''/x'') ''GET''"
proof -
  let ?r = "\<lparr> kind = Subdomain ''t.io'' AnyPort, rmethods = Unspecified, rlayer = L7, rgroup = None,
    builtin = False \<rparr> :: unit rule"
  let ?o = "?r \<lparr> kind := Host ''a.t.io'' ports_default \<rparr>"
  have "covers ?r ?o"
    by (simp add: covers_def rule_eq_def kind_eq_def is_url_def reach_def takes_in_def ports_covers_def
        apex_or_subdomain_def strip_suffix_def ends_with_def)
  moreover have "canonical_host ''a.T.io.'' = ''a.t.io''" by code_simp
  then have "matches_deny (\<lambda>re s. False) ?o (Request_new ''a.T.io.'' 443 ''/x'') ''GET''"
    by (simp add: matches_deny_def admits_deny_def kind_matches_def ports_default_def ports_admits_def)
  ultimately show ?thesis
    using covers_sound [of ?r ?o Map.empty "\<lambda>re s. False" "''a.T.io.''" 443 "''/x''" "''GET''"]
    by (simp add: rule_wf_def)
qed

text \<open>The WebSocket exception is real: a bare rule is said to cover a \<open>{WS}\<close> rule for the same
  host, and does not match the upgrade the \<open>{WS}\<close> rule admits.\<close>

theorem covers_not_websocket:
  assumes "ports_admits ps p" and "canonical_host h = h"
  shows "\<exists>r other. covers r other \<and> matches im other (Request_new h p t) ''WS'' \<and>
    \<not> matches im r (Request_new h p t) ''WS''"
proof -
  let ?r = "\<lparr> kind = Host h ps, rmethods = Unspecified, rlayer = L7, rgroup = None, builtin = False \<rparr>"
  have "ports_covers ps ps"
    by (cases ps) (auto simp: ports_covers_def list_all_iff list_ex_iff)
  then have "covers ?r (?r \<lparr> rmethods := Only [''WS''] \<rparr>)"
    by (simp add: covers_def rule_eq_def kind_eq_def is_url_def reach_def takes_in_def)
  moreover have "matches im (?r \<lparr> rmethods := Only [''WS''] \<rparr>) (Request_new h p t) ''WS''"
    using assms by (simp add: matches_def admits_def kind_matches_def)
  moreover have "\<not> matches im ?r (Request_new h p t) ''WS''"
    by (simp add: matches_def admits_def)
  ultimately show ?thesis by blast
qed

theorem covers_not_websocket_witness:
  "\<exists>r other. covers r other \<and>
     matches (\<lambda>re :: unit. \<lambda>s. False) other (Request_new (show_ip (V4 (Ipv4 10 0 0 1))) 443 ''/'') ''WS'' \<and>
     \<not> matches (\<lambda>re s. False) r (Request_new (show_ip (V4 (Ipv4 10 0 0 1))) 443 ''/'') ''WS''"
  by (rule covers_not_websocket [of ports_default])
    (simp_all add: ports_default_def ports_admits_def)

end
