(* ===== verification/Egress_Policy.thy ===== *)
theory Egress_Policy
  imports Precedence Allow_Facts
begin

text \<open>
  The egress policy of src/src/allowlist/mod.rs: its rule lists and settings as a record, every
  operation that builds or amends one, and the verdicts of the three planes (inspected over TLS,
  inspected in the clear, raw splice) with what they guarantee.

  A \<open>Duration\<close> is its number of nanoseconds, a \<open>Box<[T]>\<close> a list.
\<close>

section \<open>HTTP/2 hosts and reservations\<close>

datatype default_action = Deny | Allow | Ask

datatype websocket_secret = Warn | Block

definition WebsocketSecret_parse :: "string \<Rightarrow> websocket_secret option" where
  "WebsocketSecret_parse raw =
     (if raw = ''warn'' then Some Warn else if raw = ''block'' then Some Block else None)"

datatype capture_level = Off | Headers | Bodies

record http2_host =
  h2_host :: string
  h2_subdomain :: bool
  h2_port :: "u16 option"

text \<open>The \<open>host[:port]\<close> split of \<open>Http2Host::parse\<close>; \<open>Inl\<close> is its early return on a port out of range.\<close>

definition h2_split :: "string \<Rightarrow> unit + (string \<times> u16 option)" where
  "h2_split entry =
     (case rsplit_once CHR '':'' entry of
        Some (h, p) \<Rightarrow>
          if h \<noteq> '''' \<and> p \<noteq> '''' \<and> list_all is_ascii_digit p
          then (case parse_u16 p of Some n \<Rightarrow> Inr (h, Some n) | None \<Rightarrow> Inl ())
          else Inr (entry, None)
      | None \<Rightarrow> Inr (entry, None))"

definition Http2Host_parse :: "string \<Rightarrow> http2_host option" where
  "Http2Host_parse entry0 =
     (let entry = trim entry0 in
      if entry = '''' then None
      else case h2_split entry of
        Inl _ \<Rightarrow> None
      | Inr (hostpart, port) \<Rightarrow>
          if CHR '':'' \<in> set hostpart then None
          else case (case strip_prefix ''*.'' hostpart of
                       Some d \<Rightarrow> if d = '''' then None else Some (d, True)
                     | None \<Rightarrow> Some (hostpart, False)) of
                 None \<Rightarrow> None
               | Some (domain, subdomain) \<Rightarrow>
                   (let host = canonical_host domain in
                    if \<not> is_request_host host then None
                    else Some \<lparr> h2_host = host, h2_subdomain = subdomain, h2_port = port \<rparr>))"

definition Http2Host_display :: "http2_host \<Rightarrow> string" where
  "Http2Host_display h =
     (let host = (if h2_subdomain h then ''*.'' @ h2_host h else h2_host h)
      in case h2_port h of Some p \<Rightarrow> host @ '':'' @ fmt_u16 p | None \<Rightarrow> host)"

definition Http2Host_matches :: "http2_host \<Rightarrow> string \<Rightarrow> u16 \<Rightarrow> bool" where
  "Http2Host_matches h host port =
     ((if h2_subdomain h then apex_or_subdomain (h2_host h) host else host = h2_host h) \<and>
      (case h2_port h of Some p \<Rightarrow> p = port | None \<Rightarrow> True))"

text \<open>\<open>rule_matches\<close>, the method-blind match of one rule, and the reservations that use it.\<close>

definition rule_matches :: "('re \<Rightarrow> string \<Rightarrow> bool) \<Rightarrow> 're rule \<Rightarrow> string \<Rightarrow> u16 \<Rightarrow> string \<Rightarrow> bool" where
  "rule_matches is_match r host port target = kind_matches is_match (kind r) (Request_new host port target)"

definition names_destination :: "('re \<Rightarrow> string \<Rightarrow> bool) \<Rightarrow> 're rule \<Rightarrow> string \<Rightarrow> u16 \<Rightarrow> bool" where
  "names_destination is_match r host port =
     (case kind r of
        Url named ps _ _ \<Rightarrow> named = canonical_host host \<and> ports_admits ps port
      | Regex _ _ \<Rightarrow> True
      | _ \<Rightarrow> rule_matches is_match r host port ''/'')"

definition host_port_rule :: "string \<Rightarrow> u16 \<Rightarrow> 're rule" where
  "host_port_rule host port =
     \<lparr> kind = Host (canonical_host host) (Ranges [(port, port)]), rmethods = Unspecified,
       rlayer = L7, rgroup = None, builtin = False \<rparr>"

record 're reservation =
  rs_rule :: "'re rule"
  rs_by :: "string list"

datatype reservation_error = NamesAPathOrPattern

definition Reservation_new :: "'re rule \<Rightarrow> string list \<Rightarrow> reservation_error + 're reservation" where
  "Reservation_new r by_progs =
     (case kind r of
        Url _ _ _ _ \<Rightarrow> Inl NamesAPathOrPattern
      | Regex _ _ \<Rightarrow> Inl NamesAPathOrPattern
      | _ \<Rightarrow> Inr \<lparr> rs_rule = r, rs_by = by_progs \<rparr>)"

definition Reservation_covers :: "('re \<Rightarrow> string \<Rightarrow> bool) \<Rightarrow> 're reservation \<Rightarrow> string \<Rightarrow> u16 \<Rightarrow> bool" where
  "Reservation_covers is_match rs host port = rule_matches is_match (rs_rule rs) host port ''/''"

section \<open>The policy and its settings\<close>

record 're egress_policy =
  ep_allow :: "'re rule list"
  ep_deny :: "'re rule list"
  ep_mute :: "'re rule list"
  ep_default_action :: default_action
  ep_ask_timeout :: "nat option"
  ep_suppress_ask_notice :: bool
  ep_dns_cache_ttl :: "nat option"
  ep_http2 :: "http2_host list"
  ep_capture :: capture_level
  ep_capture_body_kb :: "u64 option"
  ep_websocket_secret :: websocket_secret
  ep_pool :: bool
  ep_ca_roots :: bool
  ep_idle_timeout :: "nat option"
  ep_max_connections :: "nat option"
  ep_body_max :: "u64 option"
  ep_shared_credential :: "string list list option"
  ep_reserved :: "'re reservation list option"

definition EgressPolicy_new :: "'re rule list \<Rightarrow> 're rule list \<Rightarrow> 're egress_policy" where
  "EgressPolicy_new allow deny =
     \<lparr> ep_allow = allow, ep_deny = deny, ep_mute = [], ep_default_action = Deny,
       ep_ask_timeout = None, ep_suppress_ask_notice = False, ep_dns_cache_ttl = None,
       ep_http2 = [], ep_capture = Off, ep_capture_body_kb = None, ep_websocket_secret = Warn,
       ep_pool = True, ep_ca_roots = True, ep_idle_timeout = None, ep_max_connections = None,
       ep_body_max = None, ep_shared_credential = None, ep_reserved = None \<rparr>"

definition EgressPolicy_default :: "'re egress_policy" where
  "EgressPolicy_default = EgressPolicy_new [] []"

definition with_rules :: "'re rule list \<Rightarrow> 're rule list \<Rightarrow> 're egress_policy \<Rightarrow> 're egress_policy" where
  "with_rules allow deny pol = pol \<lparr> ep_allow := allow, ep_deny := deny \<rparr>"

definition deny_also :: "'re rule list \<Rightarrow> 're egress_policy \<Rightarrow> 're egress_policy" where
  "deny_also rs pol = pol \<lparr> ep_deny := ep_deny pol @ rs \<rparr>"

definition with_mute :: "'re rule list \<Rightarrow> 're egress_policy \<Rightarrow> 're egress_policy" where
  "with_mute rs pol = pol \<lparr> ep_mute := rs \<rparr>"

definition with_default :: "default_action \<Rightarrow> 're egress_policy \<Rightarrow> 're egress_policy" where
  "with_default a pol = pol \<lparr> ep_default_action := a \<rparr>"

definition with_ask_timeout :: "nat option \<Rightarrow> 're egress_policy \<Rightarrow> 're egress_policy" where
  "with_ask_timeout d pol = pol \<lparr> ep_ask_timeout := d \<rparr>"

definition with_ask_notice :: "bool \<Rightarrow> 're egress_policy \<Rightarrow> 're egress_policy" where
  "with_ask_notice b pol = pol \<lparr> ep_suppress_ask_notice := \<not> b \<rparr>"

definition ask_notice :: "'re egress_policy \<Rightarrow> bool" where
  "ask_notice pol = (\<not> ep_suppress_ask_notice pol)"

definition with_dns_cache_ttl :: "nat option \<Rightarrow> 're egress_policy \<Rightarrow> 're egress_policy" where
  "with_dns_cache_ttl d pol = pol \<lparr> ep_dns_cache_ttl := d \<rparr>"

definition with_pool :: "bool \<Rightarrow> 're egress_policy \<Rightarrow> 're egress_policy" where
  "with_pool b pol = pol \<lparr> ep_pool := b \<rparr>"

definition with_idle_timeout :: "nat option \<Rightarrow> 're egress_policy \<Rightarrow> 're egress_policy" where
  "with_idle_timeout d pol = pol \<lparr> ep_idle_timeout := d \<rparr>"

definition with_max_connections :: "nat option \<Rightarrow> 're egress_policy \<Rightarrow> 're egress_policy" where
  "with_max_connections n pol = pol \<lparr> ep_max_connections := n \<rparr>"

definition with_shared_credential :: "string list list \<Rightarrow> 're egress_policy \<Rightarrow> 're egress_policy" where
  "with_shared_credential groups pol =
     pol \<lparr> ep_shared_credential := (if groups \<noteq> [] then Some groups else None) \<rparr>"

definition shared_credential :: "'re egress_policy \<Rightarrow> string list list" where
  "shared_credential pol = (case ep_shared_credential pol of Some gs \<Rightarrow> gs | None \<Rightarrow> [])"

definition reserve_step :: "'re reservation list \<Rightarrow> 're reservation \<Rightarrow> 're reservation list" where
  "reserve_step all incoming =
     filter (\<lambda>standing. \<not> kind_eq (kind (rs_rule standing)) (kind (rs_rule incoming))) all @ [incoming]"

definition with_reserved :: "'re reservation list \<Rightarrow> 're egress_policy \<Rightarrow> 're egress_policy" where
  "with_reserved res pol =
     (if res = [] then pol
      else pol \<lparr> ep_reserved := Some (foldl reserve_step
                   (case ep_reserved pol of Some rs \<Rightarrow> rs | None \<Rightarrow> []) res) \<rparr>)"

definition reserved :: "'re egress_policy \<Rightarrow> 're reservation list" where
  "reserved pol = (case ep_reserved pol of Some rs \<Rightarrow> rs | None \<Rightarrow> [])"

definition reserved_for ::
    "('re \<Rightarrow> string \<Rightarrow> bool) \<Rightarrow> 're egress_policy \<Rightarrow> string \<Rightarrow> u16 \<Rightarrow> 're reservation list" where
  "reserved_for is_match pol host port =
     filter (\<lambda>r. Reservation_covers is_match r host port) (reserved pol)"

definition with_body_max :: "u64 option \<Rightarrow> 're egress_policy \<Rightarrow> 're egress_policy" where
  "with_body_max b pol = pol \<lparr> ep_body_max := b \<rparr>"

definition with_ca_roots :: "bool \<Rightarrow> 're egress_policy \<Rightarrow> 're egress_policy" where
  "with_ca_roots b pol = pol \<lparr> ep_ca_roots := b \<rparr>"

definition with_capture :: "capture_level \<Rightarrow> u64 option \<Rightarrow> 're egress_policy \<Rightarrow> 're egress_policy" where
  "with_capture l kb pol = pol \<lparr> ep_capture := l, ep_capture_body_kb := kb \<rparr>"

definition with_websocket_secret :: "websocket_secret \<Rightarrow> 're egress_policy \<Rightarrow> 're egress_policy" where
  "with_websocket_secret a pol = pol \<lparr> ep_websocket_secret := a \<rparr>"

definition capture_body_kb :: "'re egress_policy \<Rightarrow> u64" where
  "capture_body_kb pol = (case ep_capture_body_kb pol of Some kb \<Rightarrow> kb | None \<Rightarrow> 8)"

definition with_http2 :: "http2_host list \<Rightarrow> 're egress_policy \<Rightarrow> 're egress_policy" where
  "with_http2 hs pol = pol \<lparr> ep_http2 := hs \<rparr>"

definition speaks_http2 :: "'re egress_policy \<Rightarrow> string \<Rightarrow> u16 \<Rightarrow> bool" where
  "speaks_http2 pol host port = list_ex (\<lambda>h. Http2Host_matches h host port) (ep_http2 pol)"

definition amended_with ::
    "'re rule list \<Rightarrow> 're rule list \<Rightarrow> 're rule list \<Rightarrow> 're egress_policy \<Rightarrow> 're egress_policy" where
  "amended_with allow deny mute pol =
     pol \<lparr> ep_allow := ep_allow pol @ allow, ep_deny := ep_deny pol @ deny,
           ep_mute := ep_mute pol @ mute \<rparr>"

definition lost :: "string \<Rightarrow> bool \<Rightarrow> bool \<Rightarrow> string list" where
  "lost key parent_carries mine_is_neutral = (if parent_carries \<and> mine_is_neutral then [key] else [])"

definition settings_dropped_from :: "'re egress_policy \<Rightarrow> 're egress_policy \<Rightarrow> string list" where
  "settings_dropped_from self parent =
     (let neutral = EgressPolicy_new [] [] :: 're egress_policy in
      lost ''mute'' (ep_mute parent \<noteq> []) (ep_mute self = []) @
      lost ''shared_credential'' (ep_shared_credential parent \<noteq> None) (ep_shared_credential self = None) @
      lost ''http2'' (ep_http2 parent \<noteq> ep_http2 neutral) (ep_http2 self = ep_http2 neutral) @
      lost ''dns_cache_ttl'' (ep_dns_cache_ttl parent \<noteq> ep_dns_cache_ttl neutral)
        (ep_dns_cache_ttl self = ep_dns_cache_ttl neutral) @
      lost ''pool'' (ep_pool parent \<noteq> ep_pool neutral) (ep_pool self = ep_pool neutral) @
      lost ''idle_timeout'' (ep_idle_timeout parent \<noteq> ep_idle_timeout neutral)
        (ep_idle_timeout self = ep_idle_timeout neutral) @
      lost ''max_connections'' (ep_max_connections parent \<noteq> ep_max_connections neutral)
        (ep_max_connections self = ep_max_connections neutral) @
      lost ''body_max_mb'' (ep_body_max parent \<noteq> ep_body_max neutral)
        (ep_body_max self = ep_body_max neutral) @
      lost ''ca_roots'' (ep_ca_roots parent \<noteq> ep_ca_roots neutral) (ep_ca_roots self = ep_ca_roots neutral) @
      lost ''capture'' (ep_capture parent \<noteq> ep_capture neutral) (ep_capture self = ep_capture neutral) @
      lost ''websocket_secret'' (ep_websocket_secret parent \<noteq> ep_websocket_secret neutral)
        (ep_websocket_secret self = ep_websocket_secret neutral) @
      (if ep_default_action self = Ask then
         lost ''ask_timeout'' (ep_ask_timeout parent \<noteq> ep_ask_timeout neutral)
           (ep_ask_timeout self = ep_ask_timeout neutral) @
         lost ''ask_notice'' (ep_suppress_ask_notice parent \<noteq> ep_suppress_ask_notice neutral)
           (ep_suppress_ask_notice self = ep_suppress_ask_notice neutral)
       else []))"

section \<open>Verdicts\<close>

datatype 're decision =
    DeniedBy "'re rule"
  | AllowedBy "'re rule"
  | DeniedDefault
  | AllowedDefault
  | AskUser

datatype 're l4_decision = Splice "'re rule" | Suppressed "'re rule" | NoMatch

definition muted ::
    "('re \<Rightarrow> string \<Rightarrow> bool) \<Rightarrow> 're egress_policy \<Rightarrow> string \<Rightarrow> u16 \<Rightarrow> string option \<Rightarrow> string option \<Rightarrow> bool" where
  "muted is_match pol host port path method =
     (if ep_mute pol = [] then False
      else
        let req = Request_new host port (case path of Some p \<Rightarrow> p | None \<Rightarrow> ''/'');
            m = to_ascii_uppercase (case method of Some x \<Rightarrow> x | None \<Rightarrow> '''')
        in list_ex (\<lambda>r. matches_mute is_match r req m) (ep_mute pol))"

definition explain ::
    "('re \<Rightarrow> string \<Rightarrow> bool) \<Rightarrow> 're egress_policy \<Rightarrow> string \<Rightarrow> u16 \<Rightarrow> string \<Rightarrow> string \<Rightarrow> 're decision" where
  "explain is_match pol host port path method =
     (let req = Request_new host port path; m = to_ascii_uppercase method in
      case List.find (\<lambda>r. rlayer r = L7 \<and> matches_deny is_match r req m) (ep_deny pol) of
        Some r \<Rightarrow> DeniedBy r
      | None \<Rightarrow>
          (case List.find (\<lambda>r. rlayer r = L7 \<and> matches is_match r req m) (ep_allow pol) of
             Some r \<Rightarrow> AllowedBy r
           | None \<Rightarrow>
               if m = ''WS'' then DeniedDefault
               else (case ep_default_action pol of
                       Deny \<Rightarrow> DeniedDefault | Allow \<Rightarrow> AllowedDefault | Ask \<Rightarrow> AskUser)))"

definition permits :: "('re \<Rightarrow> string \<Rightarrow> bool) \<Rightarrow> 're egress_policy \<Rightarrow> string \<Rightarrow> u16 \<Rightarrow> string \<Rightarrow> bool" where
  "permits is_match pol host port path =
     (case explain is_match pol host port path ''GET'' of
        AllowedBy _ \<Rightarrow> True | AllowedDefault \<Rightarrow> True | _ \<Rightarrow> False)"

definition method_denied ::
    "('re \<Rightarrow> string \<Rightarrow> bool) \<Rightarrow> 're egress_policy \<Rightarrow> string \<Rightarrow> u16 \<Rightarrow> string \<Rightarrow> string \<Rightarrow> bool" where
  "method_denied is_match pol host port path method =
     (let req = Request_new host port path; m = to_ascii_uppercase method in
      list_ex (\<lambda>r. kind_matches is_match (kind r) req \<and> \<not> admits (rmethods r) m)
        (filter (\<lambda>r. rlayer r = L7) (ep_allow pol)))"

definition explain_clear ::
    "('re \<Rightarrow> string \<Rightarrow> bool) \<Rightarrow> 're egress_policy \<Rightarrow> string \<Rightarrow> u16 \<Rightarrow> string \<Rightarrow> string \<Rightarrow> 're decision" where
  "explain_clear is_match pol host port path method =
     (let req = Request_new host port path; m = to_ascii_uppercase method in
      case List.find (\<lambda>r. matches_deny is_match r req m) (ep_deny pol) of
        Some r \<Rightarrow> DeniedBy r
      | None \<Rightarrow>
          (case List.find (\<lambda>r. rlayer r = L7Clear \<and> matches is_match r req m) (ep_allow pol) of
             Some r \<Rightarrow> AllowedBy r
           | None \<Rightarrow> DeniedDefault))"

definition method_denied_clear ::
    "('re \<Rightarrow> string \<Rightarrow> bool) \<Rightarrow> 're egress_policy \<Rightarrow> string \<Rightarrow> u16 \<Rightarrow> string \<Rightarrow> string \<Rightarrow> bool" where
  "method_denied_clear is_match pol host port path method =
     (let req = Request_new host port path; m = to_ascii_uppercase method in
      list_ex (\<lambda>r. kind_matches is_match (kind r) req \<and> \<not> admits (rmethods r) m)
        (filter (\<lambda>r. rlayer r = L7Clear) (ep_allow pol)))"

definition l4_decision ::
    "('re \<Rightarrow> string \<Rightarrow> bool) \<Rightarrow> 're egress_policy \<Rightarrow> string \<Rightarrow> u16 \<Rightarrow> 're l4_decision" where
  "l4_decision is_match pol host port =
     (let req = Request_new host port ''/'' in
      case List.find (\<lambda>r. rlayer r = L4 \<and> kind_matches is_match (kind r) req) (ep_allow pol) of
        None \<Rightarrow> NoMatch
      | Some allow \<Rightarrow>
          (case List.find (\<lambda>r. kind_matches is_match (kind r) req) (ep_deny pol) of
             Some deny \<Rightarrow> Suppressed deny
           | None \<Rightarrow> Splice allow))"

definition splices_any :: "'re egress_policy \<Rightarrow> bool" where
  "splices_any pol = list_ex (\<lambda>r. rlayer r = L4) (ep_allow pol)"

definition apply_default_methods :: "methods \<Rightarrow> 're egress_policy \<Rightarrow> 're egress_policy" where
  "apply_default_methods dm pol =
     (case dm of
        Only vs \<Rightarrow>
          if vs = [] then pol
          else pol \<lparr> ep_allow := map (\<lambda>r. if inspected (rlayer r) \<and> rmethods r = Unspecified
                                          then r \<lparr> rmethods := dm \<rparr> else r) (ep_allow pol) \<rparr>
      | _ \<Rightarrow> pol)"

definition exact_host_ports :: "'re rule_kind \<Rightarrow> (string \<times> ports) option" where
  "exact_host_ports k =
     (case k of
        Ip ip ps \<Rightarrow> Some (show_ip ip, ps)
      | Host h ps \<Rightarrow> Some (h, ps)
      | Url h ps _ _ \<Rightarrow> Some (h, ps)
      | _ \<Rightarrow> None)"

definition l4_l7_conflicts :: "'re egress_policy \<Rightarrow> string list" where
  "l4_l7_conflicts pol =
     (let l7 = List.map_filter (\<lambda>r. exact_host_ports (kind r))
                 (filter (\<lambda>r. inspected (rlayer r)) (ep_allow pol @ ep_deny pol))
      in foldl (\<lambda>hosts r.
           case exact_host_ports (kind r) of
             None \<Rightarrow> hosts
           | Some (h4, p4) \<Rightarrow>
               if h4 \<notin> set hosts \<and> list_ex (\<lambda>(h7, p7). h7 = h4 \<and> ports_intersects p4 p7) l7
               then hosts @ [h4] else hosts)
         [] (filter (\<lambda>r. rlayer r = L4) (ep_allow pol)))"

section \<open>The planes keep the deny-wins contract\<close>

text \<open>A request to a plane, as its verdict function takes it.\<close>

type_synonym plane_request = "string \<times> u16 \<times> string \<times> string"

definition plane_req :: "plane_request \<Rightarrow> request \<times> string" where
  "plane_req q = (case q of (host, port, path, method) \<Rightarrow>
     (Request_new host port path, to_ascii_uppercase method))"

definition opened :: "'re decision \<Rightarrow> bool" where
  "opened d = (case d of AllowedBy _ \<Rightarrow> True | AllowedDefault \<Rightarrow> True | _ \<Rightarrow> False)"

lemma opened_simps [simp]:
  "\<not> opened (DeniedBy r)" "opened (AllowedBy r)" "\<not> opened DeniedDefault" "opened AllowedDefault"
  "\<not> opened AskUser"
  by (simp_all add: opened_def)

lemma find_ex: "(\<exists>x. List.find P xs = Some x) \<longleftrightarrow> (\<exists>x \<in> set xs. P x)"
  using find_None_iff [of P xs] by (cases "List.find P xs") (auto dest: find_SomeD)

definition tls_hits_deny :: "('re \<Rightarrow> string \<Rightarrow> bool) \<Rightarrow> 're rule \<Rightarrow> plane_request \<Rightarrow> bool" where
  "tls_hits_deny im r q = (rlayer r = L7 \<and> (case plane_req q of (req, m) \<Rightarrow> matches_deny im r req m))"

definition tls_hits_allow :: "('re \<Rightarrow> string \<Rightarrow> bool) \<Rightarrow> 're rule \<Rightarrow> plane_request \<Rightarrow> bool" where
  "tls_hits_allow im r q = (rlayer r = L7 \<and> (case plane_req q of (req, m) \<Rightarrow> matches im r req m))"

definition tls_default :: "'re egress_policy \<Rightarrow> plane_request \<Rightarrow> bool" where
  "tls_default pol q = (ep_default_action pol = Allow \<and> snd (plane_req q) \<noteq> ''WS'')"

definition tls_opens :: "('re \<Rightarrow> string \<Rightarrow> bool) \<Rightarrow> 're egress_policy \<Rightarrow> plane_request \<Rightarrow> bool" where
  "tls_opens im pol q = (case q of (host, port, path, method) \<Rightarrow>
     opened (explain im pol host port path method))"

interpretation tls: deny_wins ep_deny ep_allow "tls_hits_deny im" "tls_hits_allow im" tls_default
    "tls_opens im" for im
proof
  fix pol :: "'a egress_policy" and q :: plane_request
  obtain host port path verb where q: "q = (host, port, path, verb)" by (cases q)
  show "tls_opens im pol q \<longleftrightarrow>
      \<not> (\<exists>r \<in> set (ep_deny pol). tls_hits_deny im r q) \<and>
      ((\<exists>r \<in> set (ep_allow pol). tls_hits_allow im r q) \<or> tls_default pol q)"
    by (auto simp: q tls_opens_def explain_def Let_def tls_hits_deny_def tls_hits_allow_def
          tls_default_def plane_req_def find_None_iff dest!: find_SomeD
        split: option.splits default_action.splits)
qed

definition clear_hits_deny :: "('re \<Rightarrow> string \<Rightarrow> bool) \<Rightarrow> 're rule \<Rightarrow> plane_request \<Rightarrow> bool" where
  "clear_hits_deny im r q = (case plane_req q of (req, m) \<Rightarrow> matches_deny im r req m)"

definition clear_hits_allow :: "('re \<Rightarrow> string \<Rightarrow> bool) \<Rightarrow> 're rule \<Rightarrow> plane_request \<Rightarrow> bool" where
  "clear_hits_allow im r q = (rlayer r = L7Clear \<and> (case plane_req q of (req, m) \<Rightarrow> matches im r req m))"

definition clear_opens :: "('re \<Rightarrow> string \<Rightarrow> bool) \<Rightarrow> 're egress_policy \<Rightarrow> plane_request \<Rightarrow> bool" where
  "clear_opens im pol q = (case q of (host, port, path, method) \<Rightarrow>
     opened (explain_clear im pol host port path method))"

interpretation clear: deny_wins ep_deny ep_allow "clear_hits_deny im" "clear_hits_allow im"
    "\<lambda>_ _. False" "clear_opens im" for im
proof
  fix pol :: "'a egress_policy" and q :: plane_request
  obtain host port path verb where q: "q = (host, port, path, verb)" by (cases q)
  show "clear_opens im pol q \<longleftrightarrow>
      \<not> (\<exists>r \<in> set (ep_deny pol). clear_hits_deny im r q) \<and>
      ((\<exists>r \<in> set (ep_allow pol). clear_hits_allow im r q) \<or> False)"
    by (auto simp: q clear_opens_def explain_clear_def Let_def clear_hits_deny_def
          clear_hits_allow_def plane_req_def find_None_iff dest!: find_SomeD
        split: option.splits)
qed

definition l4_hits :: "('re \<Rightarrow> string \<Rightarrow> bool) \<Rightarrow> 're rule \<Rightarrow> string \<times> u16 \<Rightarrow> bool" where
  "l4_hits im r q = kind_matches im (kind r) (Request_new (fst q) (snd q) ''/'')"

definition l4_hits_allow :: "('re \<Rightarrow> string \<Rightarrow> bool) \<Rightarrow> 're rule \<Rightarrow> string \<times> u16 \<Rightarrow> bool" where
  "l4_hits_allow im r q = (rlayer r = L4 \<and> l4_hits im r q)"

definition l4_opens :: "('re \<Rightarrow> string \<Rightarrow> bool) \<Rightarrow> 're egress_policy \<Rightarrow> string \<times> u16 \<Rightarrow> bool" where
  "l4_opens im pol q = (case l4_decision im pol (fst q) (snd q) of Splice _ \<Rightarrow> True | _ \<Rightarrow> False)"

interpretation l4: deny_wins ep_deny ep_allow "l4_hits im" "l4_hits_allow im"
    "\<lambda>_ _. False" "l4_opens im" for im
proof
  fix pol :: "'a egress_policy" and q
  show "l4_opens im pol q \<longleftrightarrow>
      \<not> (\<exists>r \<in> set (ep_deny pol). l4_hits im r q) \<and>
      ((\<exists>r \<in> set (ep_allow pol). l4_hits_allow im r q) \<or> False)"
    by (auto simp: l4_opens_def l4_decision_def Let_def l4_hits_def l4_hits_allow_def
          find_None_iff dest!: find_SomeD split: option.splits)
qed

section \<open>Properties\<close>

text \<open>C1. A request over TLS is let through exactly when no inspected deny rule matches it and either
  an inspected allow rule matches it, method included, or the default action is \<open>allow\<close> and it is no
  WebSocket; in particular the order of the rules never matters.\<close>

theorem explain_opens_iff:
  "opened (explain im pol h p t m) \<longleftrightarrow>
     \<not> (\<exists>r. r \<in> set (ep_deny pol) \<and> rlayer r = L7 \<and>
           admits_deny (rmethods r) (to_ascii_uppercase m) \<and> kind_matches im (kind r) (Request_new h p t)) \<and>
     ((\<exists>r. r \<in> set (ep_allow pol) \<and> rlayer r = L7 \<and>
         admits (rmethods r) (to_ascii_uppercase m) \<and> kind_matches im (kind r) (Request_new h p t)) \<or>
      ep_default_action pol = Allow \<and> to_ascii_uppercase m \<noteq> ''WS'')"
  using tls.opens_iff [of im pol "(h, p, t, m)"]
  by (auto simp: tls_opens_def tls_hits_deny_def tls_hits_allow_def tls_default_def plane_req_def
      matches_def matches_deny_def)

text \<open>Which rule a verdict over TLS names: a denial names the first deny rule of the plane that
  matches, an allowance the first allow rule that matches, once no deny rule does.\<close>

theorem explain_names_first_match:
  "(explain im pol h p t m = DeniedBy r \<longleftrightarrow>
      (\<exists>pre suf. ep_deny pol = pre @ r # suf \<and> tls_hits_deny im r (h, p, t, m) \<and>
         \<not> list_ex (\<lambda>r'. tls_hits_deny im r' (h, p, t, m)) pre)) \<and>
   (explain im pol h p t m = AllowedBy r \<longleftrightarrow>
      \<not> list_ex (\<lambda>r'. tls_hits_deny im r' (h, p, t, m)) (ep_deny pol) \<and>
      (\<exists>pre suf. ep_allow pol = pre @ r # suf \<and> tls_hits_allow im r (h, p, t, m) \<and>
         \<not> list_ex (\<lambda>r'. tls_hits_allow im r' (h, p, t, m)) pre))"
proof -
  let ?d = "List.find (\<lambda>r'. tls_hits_deny im r' (h, p, t, m)) (ep_deny pol)"
  let ?a = "List.find (\<lambda>r'. tls_hits_allow im r' (h, p, t, m)) (ep_allow pol)"
  have e: "explain im pol h p t m =
      (case ?d of Some r \<Rightarrow> DeniedBy r | None \<Rightarrow> (case ?a of Some r \<Rightarrow> AllowedBy r | None \<Rightarrow>
         if to_ascii_uppercase m = ''WS'' then DeniedDefault
         else (case ep_default_action pol of
                 Deny \<Rightarrow> DeniedDefault | Allow \<Rightarrow> AllowedDefault | Ask \<Rightarrow> AskUser)))"
    by (simp only: explain_def Let_def tls_hits_deny_def tls_hits_allow_def plane_req_def prod.case)
  have "explain im pol h p t m = DeniedBy r \<longleftrightarrow> ?d = Some r"
    "explain im pol h p t m = AllowedBy r \<longleftrightarrow> ?d = None \<and> ?a = Some r"
    by (auto simp: e split: option.splits default_action.splits)
  then show ?thesis by (simp add: find_Some_split find_None_iff2 list_all_iff list_ex_iff)
qed

text \<open>C3. The cleartext plane and the raw splice are opt-in: each opens only through an allow rule of
  its own layer that matches, with no deny rule of any layer matching, and the default action has no
  say in either.\<close>

theorem opt_in_planes:
  "(opened (explain_clear im pol h p t m) \<longleftrightarrow>
      \<not> (\<exists>r. r \<in> set (ep_deny pol) \<and> matches_deny im r (Request_new h p t) (to_ascii_uppercase m)) \<and>
      (\<exists>r. r \<in> set (ep_allow pol) \<and> rlayer r = L7Clear \<and>
         matches im r (Request_new h p t) (to_ascii_uppercase m))) \<and>
   ((\<exists>r. l4_decision im pol h p = Splice r) \<longleftrightarrow>
      \<not> (\<exists>r. r \<in> set (ep_deny pol) \<and> kind_matches im (kind r) (Request_new h p ''/'')) \<and>
      (\<exists>r. r \<in> set (ep_allow pol) \<and> rlayer r = L4 \<and> kind_matches im (kind r) (Request_new h p ''/'')))"
  using clear.opens_iff [of im pol "(h, p, t, m)"] l4.opens_iff [of im pol "(h, p)"]
  by (auto simp: clear_opens_def clear_hits_deny_def clear_hits_allow_def plane_req_def
      l4_opens_def l4_hits_def l4_hits_allow_def split: l4_decision.splits)

text \<open>A WebSocket upgrade over TLS is let through only by an allow rule that names \<open>WS\<close> itself.\<close>

theorem websocket_needs_ws_rule:
  assumes "opened (explain im pol h p t ''ws'')"
  shows "\<exists>r vs. r \<in> set (ep_allow pol) \<and> rlayer r = L7 \<and> rmethods r = Only vs \<and> ''WS'' \<in> set vs \<and>
    kind_matches im (kind r) (Request_new h p t)"
proof -
  have "to_ascii_uppercase ''ws'' = ''WS''" by code_simp
  then show ?thesis
    using assms tls.opens_iff [of im pol "(h, p, t, ''ws'')"]
    by (fastforce simp: tls_opens_def tls_hits_allow_def tls_default_def plane_req_def
        matches_def admits_def list_ex_iff split: methods.splits)
qed

definition ws_policy :: "unit egress_policy" where
  "ws_policy = EgressPolicy_new
     [\<lparr> kind = Host ''t.io'' ports_default, rmethods = Only [''*'', ''WS''], rlayer = L7, rgroup = None,
        builtin = False \<rparr>] []"

theorem websocket_needs_ws_rule_witness:
  "\<exists>r vs. r \<in> set (ep_allow ws_policy) \<and> rlayer r = L7 \<and> rmethods r = Only vs \<and> ''WS'' \<in> set vs \<and>
     kind_matches (\<lambda>_ _. False) (kind r) (Request_new ''t.io'' 443 ''/'')"
proof (rule websocket_needs_ws_rule)
  show "opened (explain (\<lambda>_ _. False) ws_policy ''t.io'' 443 ''/'' ''ws'')" by code_simp
qed

text \<open>Denying more only closes: after \<open>deny_also\<close> each plane lets through exactly what it let
  through before and the added rules do not match.\<close>

theorem deny_also_only_closes:
  "(tls_opens im (deny_also rs pol) (h, p, t, m) \<longleftrightarrow>
      tls_opens im pol (h, p, t, m) \<and> \<not> (\<exists>r. r \<in> set rs \<and> tls_hits_deny im r (h, p, t, m))) \<and>
   (clear_opens im (deny_also rs pol) (h, p, t, m) \<longleftrightarrow>
      clear_opens im pol (h, p, t, m) \<and> \<not> (\<exists>r. r \<in> set rs \<and> clear_hits_deny im r (h, p, t, m))) \<and>
   (l4_opens im (deny_also rs pol) (h, p) \<longleftrightarrow>
      l4_opens im pol (h, p) \<and> \<not> (\<exists>r. r \<in> set rs \<and> l4_hits im r (h, p)))"
proof -
  have "ep_deny (deny_also rs pol) = ep_deny pol @ rs" "ep_allow (deny_also rs pol) = ep_allow pol"
    "tls_default (deny_also rs pol) q = tls_default pol q" for q
    by (simp_all add: deny_also_def tls_default_def)
  then show ?thesis
    unfolding tls.opens_iff clear.opens_iff l4.opens_iff by auto
qed

text \<open>Appending rules to a policy: what an amended policy lets through over TLS is what neither it
  nor the addition denies and either of them, or the default action, allows.\<close>

theorem amended_with_opens:
  "tls_opens im (amended_with allow deny mute pol) (h, p, t, m) \<longleftrightarrow>
     \<not> (\<exists>r. r \<in> set (ep_deny pol) \<union> set deny \<and> tls_hits_deny im r (h, p, t, m)) \<and>
     ((\<exists>r. r \<in> set (ep_allow pol) \<union> set allow \<and> tls_hits_allow im r (h, p, t, m)) \<or>
      tls_default pol (h, p, t, m))"
proof -
  have "tls_default (amended_with allow deny mute pol) q = tls_default pol q" for q
    by (simp add: amended_with_def tls_default_def)
  then show ?thesis
    unfolding tls.opens_iff by (auto simp: amended_with_def)
qed

definition default_rule :: "methods \<Rightarrow> 're rule \<Rightarrow> 're rule" where
  "default_rule ms r =
     (if inspected (rlayer r) \<and> rmethods r = Unspecified then r \<lparr> rmethods := ms \<rparr> else r)"

lemma default_rule_simps [simp]:
  "kind (default_rule ms r) = kind r" "rlayer (default_rule ms r) = rlayer r"
  by (simp_all add: default_rule_def)

lemma default_rule_admits:
  "m \<noteq> ''WS'' \<Longrightarrow> admits (rmethods (default_rule ms r)) m \<Longrightarrow> admits (rmethods r) m"
  by (auto simp: default_rule_def admits_def admits_deny_def split: if_splits)

lemma apply_default_methods_cases:
  obtains "apply_default_methods ms pol = pol"
  | vs where "ms = Only vs" "vs \<noteq> []"
      "apply_default_methods ms pol = pol \<lparr> ep_allow := map (default_rule ms) (ep_allow pol) \<rparr>"
proof (cases "\<exists>vs. ms = Only vs \<and> vs \<noteq> []")
  case True
  then show ?thesis
    using that(2) by (auto simp: apply_default_methods_def default_rule_def [abs_def])
next
  case False
  then show ?thesis
    using that(1) by (cases ms) (auto simp: apply_default_methods_def)
qed

lemma apply_default_methods_idem:
  "apply_default_methods ms (apply_default_methods ms pol) = apply_default_methods ms pol"
  by (cases ms) (auto simp: apply_default_methods_def)

text \<open>A per-app \<open>default_methods\<close> narrows: no request but a WebSocket opens on the inspected planes
  that did not open before, the deny side is untouched, and applying it again changes nothing.\<close>

theorem apply_default_methods_narrows:
  assumes "to_ascii_uppercase m \<noteq> ''WS''"
  shows "(tls_opens im (apply_default_methods ms pol) (h, p, t, m) \<longrightarrow> tls_opens im pol (h, p, t, m)) \<and>
    (clear_opens im (apply_default_methods ms pol) (h, p, t, m) \<longrightarrow> clear_opens im pol (h, p, t, m)) \<and>
    l4_opens im (apply_default_methods ms pol) (h, p) = l4_opens im pol (h, p) \<and>
    apply_default_methods ms (apply_default_methods ms pol) = apply_default_methods ms pol"
proof (cases ms pol rule: apply_default_methods_cases)
  case 1
  then show ?thesis by simp
next
  case (2 vs)
  let ?pol = "pol \<lparr> ep_allow := map (default_rule ms) (ep_allow pol) \<rparr>"
  have tls: "tls_hits_allow im (default_rule ms r) (h, p, t, m) \<Longrightarrow> tls_hits_allow im r (h, p, t, m)" for r
    using default_rule_admits [OF assms, of ms r]
    by (auto simp: tls_hits_allow_def plane_req_def matches_def)
  have clear: "clear_hits_allow im (default_rule ms r) (h, p, t, m) \<Longrightarrow> clear_hits_allow im r (h, p, t, m)" for r
    using default_rule_admits [OF assms, of ms r]
    by (auto simp: clear_hits_allow_def plane_req_def matches_def)
  have "tls_opens im ?pol (h, p, t, m) \<longrightarrow> tls_opens im pol (h, p, t, m)"
    unfolding tls.opens_iff using tls by (auto simp: tls_default_def)
  moreover have "clear_opens im ?pol (h, p, t, m) \<longrightarrow> clear_opens im pol (h, p, t, m)"
    unfolding clear.opens_iff using clear by auto
  moreover have "l4_opens im ?pol (h, p) = l4_opens im pol (h, p)"
    unfolding l4.opens_iff by (auto simp: l4_hits_allow_def l4_hits_def)
  ultimately show ?thesis using 2 apply_default_methods_idem [of ms pol] by simp
qed

definition one_host :: "unit egress_policy" where
  "one_host = EgressPolicy_new [host_port_rule ''t.io'' 443] []"

theorem apply_default_methods_narrows_witness:
  "tls_opens (\<lambda>_ _. False) (apply_default_methods (Only [''GET'', ''HEAD'']) one_host)
     (''t.io'', 443, ''/'', ''get'') \<and>
   tls_opens (\<lambda>_ _. False) one_host (''t.io'', 443, ''/'', ''get'')"
proof -
  have "tls_opens (\<lambda>_ _. False) (apply_default_methods (Only [''GET'', ''HEAD'']) one_host)
     (''t.io'', 443, ''/'', ''get'')" by code_simp
  moreover have "to_ascii_uppercase ''get'' \<noteq> ''WS''" by code_simp
  ultimately show ?thesis
    using apply_default_methods_narrows [of "''get''" "\<lambda>_ _. False" "Only [''GET'', ''HEAD'']"
        one_host "''t.io''" 443 "''/''"] by blast
qed

definition is_regex :: "'re rule_kind \<Rightarrow> bool" where
  "is_regex k = (case k of Regex _ _ \<Rightarrow> True | _ \<Rightarrow> False)"

lemma kind_matches_spelling:
  assumes "canonical_host h' = canonical_host h" and "canonical_segments t' = canonical_segments t"
    and "\<not> is_regex k"
  shows "kind_matches im k (Request_new h' p t') = kind_matches im k (Request_new h p t)"
  using assms by (cases k) (simp_all add: kind_matches_def is_regex_def)


definition secret_rule :: "unit rule" where
  "secret_rule = \<lparr> kind = Url ''t.io'' ports_default ''/secret/*'' True, rmethods = Unspecified,
     rlayer = L7, rgroup = None, builtin = False \<rparr>"


text \<open>The rule an answered \<open>ask\<close> remembers opens exactly the \<open>host:port\<close> of the answered request,
  in every spelling of the host and on every path.\<close>

theorem host_port_rule_exact:
  "rule_matches im (host_port_rule h p) h' p' t \<longleftrightarrow> canonical_host h' = canonical_host h \<and> p' = p"
  by (auto simp: rule_matches_def host_port_rule_def kind_matches_def ports_admits_def)

section \<open>Reservations and layer conflicts\<close>

fun one_per_kind :: "'re reservation list \<Rightarrow> bool" where
  "one_per_kind [] = True"
| "one_per_kind (r # rs) =
     (list_all (\<lambda>s. \<not> kind_eq (kind (rs_rule r)) (kind (rs_rule s))) rs \<and> one_per_kind rs)"

lemma one_per_kind_snoc:
  "one_per_kind (rs @ [x]) \<longleftrightarrow>
     one_per_kind rs \<and> list_all (\<lambda>s. \<not> kind_eq (kind (rs_rule s)) (kind (rs_rule x))) rs"
  by (induction rs) auto

lemma one_per_kind_filter: "one_per_kind rs \<Longrightarrow> one_per_kind (filter P rs)"
  by (induction rs) (auto simp: list_all_iff)

lemma reserve_step_one_per_kind: "one_per_kind all \<Longrightarrow> one_per_kind (reserve_step all x)"
  by (simp add: reserve_step_def one_per_kind_snoc one_per_kind_filter list_all_iff)

lemma foldl_reserve_one_per_kind: "one_per_kind all \<Longrightarrow> one_per_kind (foldl reserve_step all rs)"
  by (induction rs arbitrary: all) (auto simp: reserve_step_one_per_kind)

definition same_destination :: "'re reservation \<Rightarrow> 're reservation \<Rightarrow> bool" where
  "same_destination a b = kind_eq (kind (rs_rule a)) (kind (rs_rule b))"

lemma last_of_kind_snoc:
  "(\<exists>pre suf. rs @ [x] = pre @ y # suf \<and> \<not> list_ex (same_destination y) suf) \<longleftrightarrow>
     y = x \<or> \<not> same_destination y x \<and> (\<exists>pre suf. rs = pre @ y # suf \<and> \<not> list_ex (same_destination y) suf)"
proof
  assume "\<exists>pre suf. rs @ [x] = pre @ y # suf \<and> \<not> list_ex (same_destination y) suf"
  then obtain pre suf where s: "rs @ [x] = pre @ y # suf" "\<not> list_ex (same_destination y) suf" by blast
  show "y = x \<or> \<not> same_destination y x \<and>
      (\<exists>pre suf. rs = pre @ y # suf \<and> \<not> list_ex (same_destination y) suf)"
    using s by (cases suf rule: rev_cases) (auto simp flip: append_assoc)
next
  assume "y = x \<or> \<not> same_destination y x \<and>
      (\<exists>pre suf. rs = pre @ y # suf \<and> \<not> list_ex (same_destination y) suf)"
  then consider "y = x" | pre suf where "\<not> same_destination y x" "rs = pre @ y # suf"
      "\<not> list_ex (same_destination y) suf" by blast
  then show "\<exists>pre suf. rs @ [x] = pre @ y # suf \<and> \<not> list_ex (same_destination y) suf"
  proof cases
    case 2
    then have "rs @ [x] = pre @ y # (suf @ [x]) \<and> \<not> list_ex (same_destination y) (suf @ [x])" by simp
    then show ?thesis by blast
  qed force
qed

lemma set_foldl_reserve:
  "y \<in> set (foldl reserve_step all rs) \<longleftrightarrow>
     y \<in> set all \<and> \<not> list_ex (same_destination y) rs \<or>
     (\<exists>pre suf. rs = pre @ y # suf \<and> \<not> list_ex (same_destination y) suf)"
proof (induction rs rule: rev_induct)
  case (snoc x rs)
  have "y \<in> set (foldl reserve_step all (rs @ [x])) \<longleftrightarrow>
      y = x \<or> \<not> same_destination y x \<and> y \<in> set (foldl reserve_step all rs)"
    by (auto simp: reserve_step_def same_destination_def)
  then show ?case unfolding snoc.IH last_of_kind_snoc by auto
qed simp

text \<open>A policy holds one reservation per destination: \<open>with_reserved\<close> keeps the destinations
  distinct, the last reservation given for one is the one that stands, and a standing one goes only
  when its destination is reserved again.\<close>

theorem with_reserved_last_wins:
  assumes "one_per_kind (reserved pol)"
  shows "one_per_kind (reserved (with_reserved rs pol)) \<and>
    (y \<in> set (reserved (with_reserved rs pol)) \<longleftrightarrow>
       y \<in> set (reserved pol) \<and> \<not> list_ex (same_destination y) rs \<or>
       (\<exists>pre suf. rs = pre @ y # suf \<and> \<not> list_ex (same_destination y) suf))"
proof (cases "rs = []")
  case False
  then have "reserved (with_reserved rs pol) = foldl reserve_step (reserved pol) rs"
    by (simp add: reserved_def with_reserved_def)
  then show ?thesis using foldl_reserve_one_per_kind [OF assms] set_foldl_reserve by metis
qed (use assms in \<open>simp add: with_reserved_def\<close>)

definition reserve_api :: "string list \<Rightarrow> unit reservation" where
  "reserve_api by_progs = \<lparr> rs_rule = host_port_rule ''api.t.io'' 443, rs_by = by_progs \<rparr>"

theorem with_reserved_last_wins_witness:
  "one_per_kind (reserved (with_reserved [reserve_api [''a''], reserve_api [''b'']] EgressPolicy_default)) \<and>
   reserve_api [''b''] \<in>
     set (reserved (with_reserved [reserve_api [''a''], reserve_api [''b'']] EgressPolicy_default))"
proof -
  have "one_per_kind (reserved (EgressPolicy_default :: unit egress_policy))"
    by (simp add: reserved_def EgressPolicy_default_def EgressPolicy_new_def)
  moreover have "[reserve_api [''a''], reserve_api [''b'']] = [reserve_api [''a'']] @ reserve_api [''b''] # [] \<and>
      \<not> list_ex (same_destination (reserve_api [''b''])) []" by simp
  ultimately show ?thesis
    using with_reserved_last_wins [of EgressPolicy_default "[reserve_api [''a''], reserve_api [''b'']]"
      "reserve_api [''b'']"] by blast
qed

lemma set_map_filter_iff: "set (List.map_filter f xs) = {y. \<exists>x \<in> set xs. f x = Some y}"
  by (induction xs) (auto simp: List.map_filter_def)

lemma conflicts_fold:
  fixes cond :: "string \<Rightarrow> ports \<Rightarrow> bool"
  defines "step \<equiv> \<lambda>hosts r. case exact_host_ports (kind r) of None \<Rightarrow> hosts
      | Some (h4, p4) \<Rightarrow> if h4 \<notin> set hosts \<and> cond h4 p4 then hosts @ [h4] else hosts"
  shows "(distinct acc \<longrightarrow> distinct (foldl step acc rs)) \<and>
    (h \<in> set (foldl step acc rs) \<longleftrightarrow>
       h \<in> set acc \<or> (\<exists>r \<in> set rs. \<exists>p4. exact_host_ports (kind r) = Some (h, p4) \<and> cond h p4))"
proof (induction rs arbitrary: acc)
  case (Cons r rs)
  show ?case
    using Cons.IH [of "step acc r"]
    by (auto simp: step_def split: option.splits prod.splits if_splits)
qed simp

text \<open>\<open>l4_l7_conflicts\<close> names, each once, exactly the hosts a raw-splice allow rule shares with an
  inspected rule on some common port, for rules whose port sets are well formed.\<close>

theorem l4_l7_conflicts_exact:
  assumes "list_all (\<lambda>r. case exact_host_ports (kind r) of Some (_, ps) \<Rightarrow> ports_wf ps | None \<Rightarrow> True)
    (ep_allow pol @ ep_deny pol)"
  shows "distinct (l4_l7_conflicts pol) \<and>
    (h \<in> set (l4_l7_conflicts pol) \<longleftrightarrow>
       (\<exists>r r' p4 p7 port. r \<in> set (ep_allow pol) \<and> rlayer r = L4 \<and> exact_host_ports (kind r) = Some (h, p4) \<and>
          r' \<in> set (ep_allow pol @ ep_deny pol) \<and> inspected (rlayer r') \<and>
          exact_host_ports (kind r') = Some (h, p7) \<and> ports_admits p4 port \<and> ports_admits p7 port))"
proof -
  let ?l7 = "List.map_filter (\<lambda>r. exact_host_ports (kind r))
      (filter (\<lambda>r. inspected (rlayer r)) (ep_allow pol @ ep_deny pol))"
  let ?cond = "\<lambda>h4 p4. list_ex (\<lambda>(h7, p7). h7 = h4 \<and> ports_intersects p4 p7) ?l7"
  have wf: "ports_wf ps" if "r \<in> set (ep_allow pol @ ep_deny pol)" "exact_host_ports (kind r) = Some (x, ps)"
    for r x ps using bspec [OF assms [unfolded list_all_iff] that(1)] that(2) by simp
  have cond: "?cond h p4 \<longleftrightarrow> (\<exists>r' p7. r' \<in> set (ep_allow pol @ ep_deny pol) \<and> inspected (rlayer r') \<and>
      exact_host_ports (kind r') = Some (h, p7) \<and> ports_intersects p4 p7)" for p4
    by (auto simp: list_ex_iff set_map_filter_iff)
  have "h \<in> set (l4_l7_conflicts pol) \<longleftrightarrow>
      (\<exists>r \<in> set (filter (\<lambda>r. rlayer r = L4) (ep_allow pol)).
         \<exists>p4. exact_host_ports (kind r) = Some (h, p4) \<and> ?cond h p4)"
    unfolding l4_l7_conflicts_def Let_def
    using conflicts_fold [of "[]" ?cond "filter (\<lambda>r. rlayer r = L4) (ep_allow pol)" h]
    by (simp only: list.set empty_iff simp_thms)
  also have "\<dots> \<longleftrightarrow> (\<exists>r r' p4 p7. r \<in> set (ep_allow pol) \<and> rlayer r = L4 \<and>
      exact_host_ports (kind r) = Some (h, p4) \<and> r' \<in> set (ep_allow pol @ ep_deny pol) \<and>
      inspected (rlayer r') \<and> exact_host_ports (kind r') = Some (h, p7) \<and> ports_intersects p4 p7)"
    unfolding cond by auto
  also have "\<dots> \<longleftrightarrow> (\<exists>r r' p4 p7 port. r \<in> set (ep_allow pol) \<and> rlayer r = L4 \<and>
      exact_host_ports (kind r) = Some (h, p4) \<and> r' \<in> set (ep_allow pol @ ep_deny pol) \<and>
      inspected (rlayer r') \<and> exact_host_ports (kind r') = Some (h, p7) \<and>
      ports_admits p4 port \<and> ports_admits p7 port)"
  proof (intro ex_cong1)
    fix r r' p4 p7
    show "(r \<in> set (ep_allow pol) \<and> rlayer r = L4 \<and> exact_host_ports (kind r) = Some (h, p4) \<and>
        r' \<in> set (ep_allow pol @ ep_deny pol) \<and> inspected (rlayer r') \<and>
        exact_host_ports (kind r') = Some (h, p7) \<and> ports_intersects p4 p7) =
      (\<exists>port. r \<in> set (ep_allow pol) \<and> rlayer r = L4 \<and> exact_host_ports (kind r) = Some (h, p4) \<and>
        r' \<in> set (ep_allow pol @ ep_deny pol) \<and> inspected (rlayer r') \<and>
        exact_host_ports (kind r') = Some (h, p7) \<and> ports_admits p4 port \<and> ports_admits p7 port)"
      using ports_intersects_iff [OF wf [of r h p4] wf [of r' h p7]] by auto
  qed
  moreover have "distinct (l4_l7_conflicts pol)"
    unfolding l4_l7_conflicts_def Let_def
    using conflicts_fold [of "[]" ?cond "filter (\<lambda>r. rlayer r = L4) (ep_allow pol)" h]
    by (simp only: distinct.simps simp_thms)
  ultimately show ?thesis by blast
qed

definition mixed_policy :: "unit egress_policy" where
  "mixed_policy = EgressPolicy_new
     [host_port_rule ''t.io'' 443,
      (host_port_rule ''t.io'' 443) \<lparr> kind := Host ''t.io'' (Ranges [(22, 22), (400, 500)]), rlayer := L4 \<rparr>] []"

theorem l4_l7_conflicts_exact_witness:
  "distinct (l4_l7_conflicts mixed_policy) \<and> ''t.io'' \<in> set (l4_l7_conflicts mixed_policy) \<and>
   (\<exists>r r' p4 p7 port. r \<in> set (ep_allow mixed_policy) \<and> rlayer r = L4 \<and>
      exact_host_ports (kind r) = Some (''t.io'', p4) \<and>
      r' \<in> set (ep_allow mixed_policy @ ep_deny mixed_policy) \<and> inspected (rlayer r') \<and>
      exact_host_ports (kind r') = Some (''t.io'', p7) \<and> ports_admits p4 port \<and> ports_admits p7 port)"
proof -
  have "''t.io'' \<in> set (l4_l7_conflicts mixed_policy)" by code_simp
  moreover have "list_all (\<lambda>r. case exact_host_ports (kind r) of Some (_, ps) \<Rightarrow> ports_wf ps | None \<Rightarrow> True)
    (ep_allow mixed_policy @ ep_deny mixed_policy)" by code_simp
  ultimately show ?thesis using l4_l7_conflicts_exact [of mixed_policy "''t.io''"] by blast
qed

end
