(* ===== verification/Allow_Grammar.thy ===== *)
theory Allow_Grammar
  imports Egress_Policy
begin

text \<open>
  The egress-rule grammar (src/src/allowlist/grammar.rs): the classifier that turns an entry into a
  rule, and the parsers of a request's target. Every error of the sources is a constructor, with the
  text it quotes where that is computed.

  \<open>Regex::new\<close> is the argument \<open>compile\<close>: the engine a pattern compiles to, or \<open>None\<close>.
\<close>

section \<open>Slots and errors\<close>

datatype slot = SlotAllow | SlotDeny | SlotMute | SlotReserve | SlotTarget

definition slot_label :: "slot \<Rightarrow> string" where
  "slot_label s =
     (case s of SlotAllow \<Rightarrow> ''allow'' | SlotDeny \<Rightarrow> ''deny'' | SlotMute \<Rightarrow> ''mute''
      | SlotReserve \<Rightarrow> ''reserve'' | SlotTarget \<Rightarrow> ''target'')"

definition slot_consequence :: "slot \<Rightarrow> string" where
  "slot_consequence s =
     (case s of SlotDeny \<Rightarrow> ''denied'' | SlotMute \<Rightarrow> ''muted'' | SlotReserve \<Rightarrow> ''reserved''
      | SlotAllow \<Rightarrow> ''allowed'' | SlotTarget \<Rightarrow> ''allowed'')"

datatype grammar_error =
    ControlCharacters slot
  | InvalidRegex string
  | AnchoredElsewhere string
  | UnterminatedBrace
  | EmptyMethod
  | BadMethod string
  | StarWithVerbs
  | NoDefaultMethods
  | UnsupportedScheme string
  | EmptyEntry
  | InvalidSubdomain string
  | Unrecognized string
  | CatchAll slot
  | UnterminatedBracket string
  | InvalidIpLiteral string
  | ExpectedPort string
  | EmptyPorts
  | InvalidRange string
  | InvalidPort string
  | PortZero
  | NoHostBeforePath string
  | InvalidPathHost string
  | QueryInPath string
  | FragmentInPath string
  | ParamsInPath string
  | EncodedSlash string
  | EncodedDelimiter char string
  | EncodedDots string
  | StarInPath
  | TcpMethods
  | TcpPath
  | TcpNoPort
  | EndsInNumber string
  | CarriesIpv4 ipv6 ipv4

section \<open>The head of an anchored pattern\<close>

text \<open>The flags of a \<open>(?flags)\<close> group: the case-insensitivity after them, or \<open>None\<close> for a flag this
  reading does not follow.\<close>

fun read_flags :: "bool \<Rightarrow> bool \<Rightarrow> string \<Rightarrow> bool option" where
  "read_flags on ins [] = Some ins"
| "read_flags on ins (f # fs) =
     (if f = CHR ''-'' then read_flags False ins fs
      else if f = CHR ''i'' then read_flags on on fs
      else if f \<in> set ''msUuR'' then read_flags on ins fs
      else None)"

lemma strip_prefix_length: "strip_prefix p s = Some r \<Longrightarrow> length s = length p + length r"
  by (auto simp: strip_prefix_Some)

lemma split_once_length: "split_once d s = Some (a, b) \<Longrightarrow> length b < length s"
  by (auto simp: split_once_Some)

lemma dropWhile_rest_length: "dropWhile P s = c # r \<Longrightarrow> length r < length s"
  using length_dropWhile_le [of P s] by simp

text \<open>Anchors, flag groups and group openers before the first literal: what is left of the pattern,
  and whether it is anchored, case-insensitive and inside a group.\<close>

function head_prefix :: "string \<Rightarrow> bool \<Rightarrow> bool \<Rightarrow> bool \<Rightarrow> (string \<times> bool \<times> bool \<times> bool) option" where
  "head_prefix rest anchored ins grouped =
     (case (case strip_prefix ''^'' rest of Some r \<Rightarrow> Some r | None \<Rightarrow> strip_prefix [CHR 0x5C, CHR ''A''] rest) of
        Some r \<Rightarrow> head_prefix r True ins grouped
      | None \<Rightarrow>
     (case strip_prefix ''(?'' rest of
        Some r \<Rightarrow>
          (case (case strip_prefix ''P<'' r of Some r' \<Rightarrow> Some r' | None \<Rightarrow> strip_prefix ''<'' r) of
             Some r' \<Rightarrow>
               (case split_once CHR ''>'' r' of
                  None \<Rightarrow> None
                | Some (_, r'') \<Rightarrow> head_prefix r'' anchored ins True)
           | None \<Rightarrow>
               (let flags = takeWhile (\<lambda>c. c \<noteq> CHR '')'' \<and> c \<noteq> CHR '':'') r in
                case drop (length flags) r of
                  [] \<Rightarrow> None
                | c # r' \<Rightarrow>
                    (case read_flags True ins flags of
                       None \<Rightarrow> None
                     | Some ins' \<Rightarrow> head_prefix r' anchored ins' (grouped \<or> c = CHR '':''))))
      | None \<Rightarrow>
     (case strip_prefix ''('' rest of
        Some r \<Rightarrow> head_prefix r anchored ins True
      | None \<Rightarrow> Some (rest, anchored, ins, grouped))))"
  by pat_completeness auto
termination
  by (relation "measure (\<lambda>(rest, _). length rest)")
    (auto dest!: strip_prefix_length split_once_length dropWhile_rest_length
      simp: dropWhile_eq_drop [symmetric] split: option.splits)

declare head_prefix.simps [simp del]

text \<open>The literal characters the rest must begin with.\<close>

definition is_meta :: "string \<Rightarrow> bool" where
  "is_meta c = (c \<in> set (map (\<lambda>x. [x]) ''.[](){}$^*+?''))"

definition next_literal :: "string list \<Rightarrow> (string \<times> string list) option" where
  "next_literal cs =
     (case cs of
        [] \<Rightarrow> None
      | c # rest \<Rightarrow>
          if c = [CHR 0x5C]
          then (case rest of
                  [e] # rest' \<Rightarrow> if is_ascii_punctuation e then Some ([e], rest') else None
                | _ \<Rightarrow> None)
          else if is_meta c then None else Some (c, rest))"

lemma next_literal_shorter: "next_literal cs = Some (l, rest) \<Longrightarrow> length rest < length cs"
  by (auto simp: next_literal_def split: list.splits if_splits)

function head_literals :: "string list \<Rightarrow> string" where
  "head_literals cs =
     (case next_literal cs of
        None \<Rightarrow> []
      | Some (l, rest) \<Rightarrow>
          (case rest of
             p # _ \<Rightarrow> if p = ''?'' \<or> p = ''*'' \<or> p = ''{'' then []
                      else if p = ''+'' then l else l @ head_literals rest
           | [] \<Rightarrow> l))"
  by pat_completeness auto
termination by (relation "measure length") (auto dest: next_literal_shorter)

declare head_literals.simps [simp del]

definition anchored_head :: "string \<Rightarrow> (string \<times> bool) option" where
  "anchored_head pattern =
     (if CHR ''|'' \<in> set pattern then None
      else case head_prefix pattern False False False of
        None \<Rightarrow> None
      | Some (rest, anchored, ins, grouped) \<Rightarrow>
          if \<not> anchored then None
          else if grouped \<and> list_ex (\<lambda>skip. contains_str skip pattern) ['')?'', '')*'', ''){'']
          then None
          else let head = head_literals (chars rest) in
               if ins \<and> \<not> list_all is_ascii head then None else Some (head, ins))"

section \<open>Methods, schemes and ports\<close>

definition reject_control_bytes :: "string \<Rightarrow> slot \<Rightarrow> grammar_error + unit" where
  "reject_control_bytes entry sl = (if has_control entry then Inl (ControlCharacters sl) else Inr ())"

fun parse_verbs :: "string list \<Rightarrow> grammar_error + string list" where
  "parse_verbs [] = Inr []"
| "parse_verbs (part # parts) =
     (let v = trim part in
      if v = '''' then Inl EmptyMethod
      else if v \<noteq> ''*'' \<and> \<not> list_all is_ascii_uppercase v then Inl (BadMethod v)
      else case parse_verbs parts of Inl e \<Rightarrow> Inl e | Inr vs \<Rightarrow> Inr (v # vs))"

definition parse_methods :: "string \<Rightarrow> grammar_error + methods" where
  "parse_methods spec =
     (case parse_verbs (split_on CHR '','' spec) of
        Inl e \<Rightarrow> Inl e
      | Inr verbs \<Rightarrow> Inr (Only (remdups_adj (sort verbs))))"

definition parse_default_methods :: "string list \<Rightarrow> grammar_error + methods" where
  "parse_default_methods verbs =
     (if list_ex (\<lambda>v. trim v = ''*'') verbs
      then if length verbs = 1 then Inr AnyMethod else Inl StarWithVerbs
      else if verbs = [] then Inl NoDefaultMethods
      else parse_methods (join '','' verbs))"

definition split_method_prefix :: "string \<Rightarrow> grammar_error + (methods \<times> string)" where
  "split_method_prefix s =
     (case strip_prefix ''{'' s of
        None \<Rightarrow> Inr (Unspecified, s)
      | Some after \<Rightarrow>
          (case split_once CHR ''}'' after of
             None \<Rightarrow> Inl UnterminatedBrace
           | Some (inside, rest) \<Rightarrow>
               (let spec = trim inside in
                if spec = ''*'' then Inr (AnyMethod, rest)
                else case parse_methods spec of Inl e \<Rightarrow> Inl e | Inr ms \<Rightarrow> Inr (ms, rest))))"

definition split_scheme :: "string \<Rightarrow> grammar_error + (layer \<times> string)" where
  "split_scheme s =
     (case strip_prefix ''tcp://'' s of Some rest \<Rightarrow> Inr (L4, rest) | None \<Rightarrow>
     (case strip_prefix ''http://'' s of Some rest \<Rightarrow> Inr (L7Clear, rest) | None \<Rightarrow>
     (case strip_prefix ''https://'' s of Some rest \<Rightarrow> Inr (L7, rest) | None \<Rightarrow>
     (case split_once_str ''://'' s of
        Some (scheme, _) \<Rightarrow> Inl (UnsupportedScheme scheme)
      | None \<Rightarrow> Inr (L7, s)))))"

definition parse_port :: "string \<Rightarrow> grammar_error + u16" where
  "parse_port s =
     (let digits = trim s in
      if digits = '''' \<or> \<not> list_all is_ascii_digit digits then Inl (InvalidPort s)
      else case parse_u16 digits of
             None \<Rightarrow> Inl (InvalidPort s)
           | Some port \<Rightarrow> if port = 0 then Inl PortZero else Inr port)"

definition parse_range :: "string \<Rightarrow> grammar_error + (u16 \<times> u16)" where
  "parse_range part =
     (case split_once CHR ''-'' part of
        Some (lo, hi) \<Rightarrow>
          (case parse_port lo of Inl e \<Rightarrow> Inl e | Inr l \<Rightarrow>
          (case parse_port hi of Inl e \<Rightarrow> Inl e | Inr h \<Rightarrow>
             if h < l then Inl (InvalidRange part) else Inr (l, h)))
      | None \<Rightarrow> (case parse_port part of Inl e \<Rightarrow> Inl e | Inr p \<Rightarrow> Inr (p, p)))"

fun parse_ranges :: "string list \<Rightarrow> grammar_error + (u16 \<times> u16) list" where
  "parse_ranges [] = Inr []"
| "parse_ranges (part # parts) =
     (case parse_range (trim part) of
        Inl e \<Rightarrow> Inl e
      | Inr r \<Rightarrow> (case parse_ranges parts of Inl e \<Rightarrow> Inl e | Inr rs \<Rightarrow> Inr (r # rs)))"

definition parse_ports :: "string \<Rightarrow> grammar_error + ports" where
  "parse_ports spec0 =
     (let spec = trim spec0 in
      if spec = ''*'' then Inr AnyPort
      else if spec = '''' then Inl EmptyPorts
      else case parse_ranges (split_on CHR '','' spec) of
             Inl e \<Rightarrow> Inl e
           | Inr rs \<Rightarrow> Inr (Ranges (remdups_adj (sort rs))))"

definition has_explicit_port :: "string \<Rightarrow> bool" where
  "has_explicit_port body =
     (case strip_prefix ''['' body of
        Some rest \<Rightarrow> (case split_once CHR '']'' rest of Some (_, after) \<Rightarrow> after \<noteq> '''' | None \<Rightarrow> False)
      | None \<Rightarrow> if parse_ip body \<noteq> None then False else CHR '':'' \<in> set body)"

definition split_host_ports :: "string \<Rightarrow> u16 \<Rightarrow> grammar_error + (string \<times> ports)" where
  "split_host_ports s dport =
     (case strip_prefix ''['' s of
        Some rest \<Rightarrow>
          (case split_once CHR '']'' rest of
             None \<Rightarrow> Inl (UnterminatedBracket s)
           | Some (addr, after) \<Rightarrow>
               if parse_ip addr = None then Inl (InvalidIpLiteral addr)
               else if after = '''' then Inr (addr, ports_single dport)
               else (case strip_prefix '':'' after of
                       Some spec \<Rightarrow> (case parse_ports spec of Inl e \<Rightarrow> Inl e | Inr ps \<Rightarrow> Inr (addr, ps))
                     | None \<Rightarrow> Inl (ExpectedPort s)))
      | None \<Rightarrow>
          if parse_ip s \<noteq> None then Inr (s, ports_single dport)
          else case rsplit_once CHR '':'' s of
                 Some (host, spec) \<Rightarrow> (case parse_ports spec of Inl e \<Rightarrow> Inl e | Inr ps \<Rightarrow> Inr (host, ps))
               | None \<Rightarrow> Inr (s, ports_single dport))"

section \<open>Names\<close>

definition is_name_of :: "string \<Rightarrow> bool \<Rightarrow> bool" where
  "is_name_of h underscore =
     (h \<noteq> '''' \<and> length h \<le> 253 \<and> \<not> starts_with ''.'' h \<and> \<not> ends_with ''.'' h \<and>
      \<not> contains_str ''..'' h \<and>
      list_all (\<lambda>label.
          label \<noteq> '''' \<and> length label \<le> 63 \<and>
          list_all (\<lambda>c. is_ascii_alphanumeric c \<or> c = CHR ''-'' \<or> underscore \<and> c = CHR ''_'') label \<and>
          \<not> starts_with ''-'' label \<and> \<not> ends_with ''-'' label)
        (split_on CHR ''.'' h))"

definition is_valid_hostname :: "string \<Rightarrow> bool" where
  "is_valid_hostname h = is_name_of h False"

definition is_valid_target_name :: "string \<Rightarrow> bool" where
  "is_valid_target_name h = is_name_of h True"

definition reject_catch_all :: "string \<Rightarrow> slot \<Rightarrow> grammar_error + unit" where
  "reject_catch_all host sl = (if host \<noteq> ''*'' then Inr () else Inl (CatchAll sl))"

definition reject_an_address_carrying_an_ipv4 :: "ip_addr \<Rightarrow> grammar_error + unit" where
  "reject_an_address_carrying_an_ipv4 ip =
     (case ip of
        V4 _ \<Rightarrow> Inr ()
      | V6 v6 \<Rightarrow> (case embedded_v4 v6 of Some v4 \<Rightarrow> Inl (CarriesIpv4 v6 v4) | None \<Rightarrow> Inr ()))"

definition reject_host :: "string \<Rightarrow> grammar_error + unit" where
  "reject_host host =
     (case parse_ip host of
        Some ip \<Rightarrow> reject_an_address_carrying_an_ipv4 ip
      | None \<Rightarrow> if ends_in_a_number host then Inl (EndsInNumber host) else Inr ())"

definition reject_a_host_no_request_names :: "'re rule_kind \<Rightarrow> grammar_error + unit" where
  "reject_a_host_no_request_names k =
     (case k of
        Ip ip _ \<Rightarrow> reject_an_address_carrying_an_ipv4 ip
      | Host h _ \<Rightarrow> reject_host h
      | Subdomain h _ \<Rightarrow> reject_host h
      | Url h _ _ _ \<Rightarrow> reject_host h
      | Regex _ _ \<Rightarrow> Inr ())"

section \<open>Kinds\<close>

definition opened_path :: "string \<Rightarrow> string" where
  "opened_path path = ''/'' @ join ''/'' (canonical_segments path)"

definition encoded_dots :: "string \<Rightarrow> bool" where
  "encoded_dots seg =
     (let decoded = percent_decode seg in (decoded = ''.'' \<or> decoded = ''..'') \<and> decoded \<noteq> seg)"

definition path_fault :: "string \<Rightarrow> grammar_error option" where
  "path_fault path =
     (let opened = opened_path path; lower = to_ascii_lowercase path in
      if CHR ''?'' \<in> set path then Some (QueryInPath opened)
      else if CHR ''#'' \<in> set path then Some (FragmentInPath opened)
      else if CHR '';'' \<in> set path then Some (ParamsInPath opened)
      else if contains_str ''%2f'' lower then Some (EncodedSlash opened)
      else if contains_str ''%23'' lower then Some (EncodedDelimiter CHR ''#'' opened)
      else if contains_str ''%3b'' lower then Some (EncodedDelimiter CHR '';'' opened)
      else if list_ex encoded_dots (split_on CHR ''/'' path) then Some (EncodedDots opened)
      else if CHR ''*'' \<in> set (if ends_with ''/*'' path then take (length path - 2) path else path)
        then Some StarInPath
      else None)"

definition parse_path_rule :: "string \<Rightarrow> string \<Rightarrow> u16 \<Rightarrow> slot \<Rightarrow> grammar_error + 're rule_kind" where
  "parse_path_rule authority path dport sl =
     (if authority = '''' then Inl (NoHostBeforePath (authority @ path))
      else case split_host_ports authority dport of
        Inl e \<Rightarrow> Inl e
      | Inr (host, ps) \<Rightarrow>
          (case reject_catch_all host sl of Inl e \<Rightarrow> Inl e | Inr _ \<Rightarrow>
             if \<not> (is_valid_hostname host \<or> parse_ip host \<noteq> None) then Inl (InvalidPathHost host)
             else case path_fault path of
               Some e \<Rightarrow> Inl e
             | None \<Rightarrow> Inr (Url (canonical_host host) ps path (ends_with ''/*'' path))))"

definition classify_kind :: "string \<Rightarrow> u16 \<Rightarrow> slot \<Rightarrow> grammar_error + 're rule_kind" where
  "classify_kind s dport sl =
     (if s = '''' then Inl EmptyEntry
      else case split_once CHR ''/'' s of
        Some (authority, tail) \<Rightarrow> parse_path_rule authority (CHR ''/'' # tail) dport sl
      | None \<Rightarrow>
          (case split_host_ports s dport of
             Inl e \<Rightarrow> Inl e
           | Inr (host, ps) \<Rightarrow>
               (case reject_catch_all host sl of Inl e \<Rightarrow> Inl e | Inr _ \<Rightarrow>
                  (case strip_prefix ''*.'' host of
                     Some domain \<Rightarrow>
                       if is_valid_hostname domain then Inr (Subdomain (to_ascii_lowercase domain) ps)
                       else Inl (InvalidSubdomain s)
                   | None \<Rightarrow>
                       (case parse_ip host of
                          Some ip \<Rightarrow> Inr (Ip ip ps)
                        | None \<Rightarrow>
                            if is_valid_hostname host then Inr (Host (to_ascii_lowercase host) ps)
                            else Inl (Unrecognized s))))))"

section \<open>Entries\<close>

definition URL_START :: string where
  "URL_START = ''https://''"

definition anchored_fault :: "string \<Rightarrow> grammar_error option" where
  "anchored_fault pattern =
     (case anchored_head pattern of
        None \<Rightarrow> None
      | Some (head0, ins) \<Rightarrow>
          let head = (if ins then to_ascii_lowercase head0 else head0) in
          if starts_with head URL_START \<or> starts_with URL_START head then None
          else Some (AnchoredElsewhere head))"

definition l4_fault :: "layer \<Rightarrow> methods \<Rightarrow> 're rule_kind \<Rightarrow> string \<Rightarrow> grammar_error option" where
  "l4_fault l ms k body =
     (if l \<noteq> L4 then None
      else if ms \<noteq> Unspecified then Some TcpMethods
      else if is_url k then Some TcpPath
      else if \<not> has_explicit_port (trim body) then Some TcpNoPort
      else None)"

definition classify_in :: "(string \<Rightarrow> 're option) \<Rightarrow> string \<Rightarrow> slot \<Rightarrow> grammar_error + 're rule" where
  "classify_in compile entry sl =
     (case reject_control_bytes entry sl of Inl e \<Rightarrow> Inl e | Inr _ \<Rightarrow>
     (case split_method_prefix (trim entry) of Inl e \<Rightarrow> Inl e | Inr (ms, rest0) \<Rightarrow>
        let rest = trim rest0 in
        (case strip_prefix ''re:'' rest of
           Some pattern \<Rightarrow>
             (case compile pattern of
                None \<Rightarrow> Inl (InvalidRegex pattern)
              | Some re \<Rightarrow>
                  (case anchored_fault pattern of
                     Some e \<Rightarrow> Inl e
                   | None \<Rightarrow> Inr \<lparr> kind = Regex pattern re, rmethods = ms, rlayer = L7, rgroup = None,
                                   builtin = False \<rparr>))
         | None \<Rightarrow>
             (case split_scheme rest of Inl e \<Rightarrow> Inl e | Inr (l, body) \<Rightarrow>
             (case classify_kind (trim body) (default_port l) sl of Inl e \<Rightarrow> Inl e | Inr k \<Rightarrow>
             (case reject_a_host_no_request_names k of Inl e \<Rightarrow> Inl e | Inr _ \<Rightarrow>
             (case l4_fault l ms k body of
                Some e \<Rightarrow> Inl e
              | None \<Rightarrow> Inr \<lparr> kind = k, rmethods = ms, rlayer = l, rgroup = None,
                              builtin = False \<rparr>)))))))"

definition classify :: "(string \<Rightarrow> 're option) \<Rightarrow> string \<Rightarrow> grammar_error + 're rule" where
  "classify compile entry = classify_in compile entry SlotAllow"

section \<open>Request targets\<close>

datatype authority_fault = Unterminated | NotIpv6 | AfterBracket | BareColon | BadPort

definition fault_describe :: "authority_fault \<Rightarrow> string" where
  "fault_describe f =
     (case f of
        Unterminated \<Rightarrow> ''has an unterminated `[`''
      | NotIpv6 \<Rightarrow> ''has brackets around something other than an IPv6 address''
      | AfterBracket \<Rightarrow> ''has text after `]` that is not `:port`''
      | BareColon \<Rightarrow> ''has a second `:` outside brackets (an IPv6 address is written `[addr]:port`)''
      | BadPort \<Rightarrow> ''has a port that is not 1 to 65535 written in digits'')"

definition request_port :: "string \<Rightarrow> u16 option" where
  "request_port digits =
     (if digits \<noteq> '''' \<and> list_all is_ascii_digit digits
      then (case parse_u16 digits of Some p \<Rightarrow> if p \<noteq> 0 then Some p else None | None \<Rightarrow> None)
      else None)"

definition split_authority :: "string \<Rightarrow> authority_fault + (string \<times> string option)" where
  "split_authority authority =
     (case strip_prefix ''['' authority of
        Some rest \<Rightarrow>
          (case split_once CHR '']'' rest of
             None \<Rightarrow> Inl Unterminated
           | Some (literal, tail) \<Rightarrow>
               if parse_ipv6 literal = None then Inl NotIpv6
               else if tail = '''' then Inr (literal, None)
               else (case strip_prefix '':'' tail of
                       None \<Rightarrow> Inl AfterBracket
                     | Some p \<Rightarrow> Inr (literal, Some p)))
      | None \<Rightarrow>
          (case split_once CHR '':'' authority of
             Some (host, port) \<Rightarrow> if CHR '':'' \<in> set port then Inl BareColon else Inr (host, Some port)
           | None \<Rightarrow> Inr (authority, None)))"

definition split_request_authority :: "string \<Rightarrow> authority_fault + (string \<times> u16 option)" where
  "split_request_authority authority =
     (case split_authority authority of
        Inl f \<Rightarrow> Inl f
      | Inr (host, None) \<Rightarrow> Inr (host, None)
      | Inr (host, Some digits) \<Rightarrow>
          (case request_port digits of Some p \<Rightarrow> Inr (host, Some p) | None \<Rightarrow> Inl BadPort))"

datatype target_error =
    NotAnUrl
  | NoHost
  | BadAuthority authority_fault
  | TargetCatchAll
  | InvalidTargetHost string
  | NotTcp
  | TargetPath
  | NeedsPort

definition scheme_of :: "string \<Rightarrow> (nat \<times> u16) option" where
  "scheme_of s =
     (if starts_with ''https://'' s then Some (8, 443)
      else if starts_with ''http://'' s then Some (7, 80) else None)"

definition canonical_target_host :: "string \<Rightarrow> string option" where
  "canonical_target_host host =
     (let c = canonical_host host in
      if (is_valid_target_name c \<or> parse_ip c \<noteq> None) \<and> is_request_host c then Some c else None)"

definition parse_url_target :: "string \<Rightarrow> target_error + (string \<times> u16 \<times> string)" where
  "parse_url_target url =
     (case scheme_of url of
        None \<Rightarrow> Inl NotAnUrl
      | Some (scheme_len, dport) \<Rightarrow>
          (let after = drop scheme_len url;
               authority = takeWhile (\<lambda>c. c \<notin> set ''/?#'') after;
               tail = drop (length authority) after;
               path = (case tail of [] \<Rightarrow> ''/'' | c # _ \<Rightarrow> if c = CHR ''/'' then tail else CHR ''/'' # tail)
           in if authority = '''' then Inl NoHost
              else case split_request_authority authority of
                Inl f \<Rightarrow> Inl (BadAuthority f)
              | Inr (host, port) \<Rightarrow>
                  if host = ''*'' then Inl TargetCatchAll
                  else case canonical_target_host host of
                    None \<Rightarrow> Inl (InvalidTargetHost host)
                  | Some c \<Rightarrow> Inr (c, (case port of Some p \<Rightarrow> p | None \<Rightarrow> dport), path)))"

definition parse_tcp_target :: "string \<Rightarrow> target_error + (string \<times> u16)" where
  "parse_tcp_target target =
     (case strip_prefix ''tcp://'' target of
        None \<Rightarrow> Inl NotTcp
      | Some authority \<Rightarrow>
          if CHR ''/'' \<in> set authority then Inl TargetPath
          else if authority = '''' then Inl NoHost
          else case split_request_authority authority of
            Inl f \<Rightarrow> Inl (BadAuthority f)
          | Inr (host, port) \<Rightarrow>
              if host = ''*'' then Inl TargetCatchAll
              else case port of
                None \<Rightarrow> Inl NeedsPort
              | Some p \<Rightarrow>
                  (case canonical_target_host host of
                     None \<Rightarrow> Inl (InvalidTargetHost host)
                   | Some c \<Rightarrow> Inr (c, p)))"

section \<open>What the parsers return\<close>

lemma sorted_remdups_adj_strict: "sorted xs \<Longrightarrow> sorted_wrt (<) (remdups_adj xs)"
proof (induction xs rule: remdups_adj.induct)
  case (3 x y xs)
  then show ?case by (cases "x = y") (auto simp: less_le)
qed auto

lemma sort_Nil_iff [simp]: "sort xs = [] \<longleftrightarrow> xs = []"
  by (metis length_0_conv length_sort)

definition verb_ok :: "string \<Rightarrow> bool" where
  "verb_ok v = (v \<noteq> '''' \<and> (v = ''*'' \<or> list_all is_ascii_uppercase v))"

text \<open>A method set as the grammar builds one: verbs well formed, sorted, without repetition.\<close>

definition methods_wf :: "methods \<Rightarrow> bool" where
  "methods_wf ms =
     (case ms of Only vs \<Rightarrow> vs \<noteq> [] \<and> sorted_wrt (<) vs \<and> list_all verb_ok vs | _ \<Rightarrow> True)"

text \<open>A port set as the grammar builds one: ranges from 1 up, sorted, without repetition.\<close>

definition ports_ok :: "ports \<Rightarrow> bool" where
  "ports_ok ps =
     (case ps of
        AnyPort \<Rightarrow> True
      | Ranges rs \<Rightarrow> rs \<noteq> [] \<and> sorted_wrt (<) rs \<and> list_all (\<lambda>(lo, hi). lo \<noteq> 0 \<and> lo \<le> hi) rs)"

lemma ports_ok_wf: "ports_ok ps \<Longrightarrow> ports_wf ps"
  by (cases ps) (auto simp: ports_ok_def ports_wf_def list_all_iff)

lemma parse_verbs_ok: "parse_verbs parts = Inr vs \<Longrightarrow> length vs = length parts \<and> list_all verb_ok vs"
  by (induction parts arbitrary: vs) (auto simp: Let_def verb_ok_def split: if_splits sum.splits)

lemma parse_methods_wf: "parse_methods spec = Inr ms \<Longrightarrow> methods_wf ms"
  using split_on_nonempty [of "CHR '',''" spec]
  by (auto simp: parse_methods_def methods_wf_def list_all_iff sorted_remdups_adj_strict
      dest!: parse_verbs_ok split: sum.splits)

lemma split_method_prefix_wf: "split_method_prefix s = Inr (ms, rest) \<Longrightarrow> methods_wf ms"
  by (auto simp: split_method_prefix_def Let_def methods_wf_def [of Unspecified]
        methods_wf_def [of AnyMethod] dest: parse_methods_wf
      split: option.splits if_splits sum.splits)

lemma parse_port_nonzero: "parse_port s = Inr p \<Longrightarrow> p \<noteq> 0"
  by (auto simp: parse_port_def Let_def split: if_splits option.splits)

lemma parse_range_ok: "parse_range part = Inr (lo, hi) \<Longrightarrow> lo \<noteq> 0 \<and> lo \<le> hi"
  by (auto simp: parse_range_def dest: parse_port_nonzero
      split: option.splits sum.splits if_splits)

lemma parse_ranges_ok:
  "parse_ranges parts = Inr rs \<Longrightarrow>
     length rs = length parts \<and> list_all (\<lambda>(lo, hi). lo \<noteq> 0 \<and> lo \<le> hi) rs"
proof (induction parts arbitrary: rs)
  case (Cons part parts)
  then obtain lo hi ts where "parse_range (trim part) = Inr (lo, hi)"
      "parse_ranges parts = Inr ts" "rs = (lo, hi) # ts"
    by (auto split: sum.splits)
  with Cons.IH parse_range_ok show ?case by fastforce
qed simp

lemma parse_ports_ok: "parse_ports spec = Inr ps \<Longrightarrow> ports_ok ps"
  using split_on_nonempty [of "CHR '',''" "trim spec"]
  by (auto simp: parse_ports_def Let_def ports_ok_def list_all_iff sorted_remdups_adj_strict
      dest!: parse_ranges_ok split: if_splits sum.splits)

lemma default_port_nonzero: "default_port l \<noteq> 0"
  by (cases l) (simp_all add: default_port_def)

lemma ports_single_ok: "p \<noteq> 0 \<Longrightarrow> ports_ok (ports_single p)"
  by (simp add: ports_ok_def ports_single_def)

lemma split_host_ports_ok:
  "split_host_ports s d = Inr (host, ps) \<Longrightarrow> d \<noteq> 0 \<Longrightarrow> ports_ok ps"
  by (auto simp: split_host_ports_def ports_single_ok dest: parse_ports_ok
      split: option.splits if_splits sum.splits)

section \<open>Hosts a rule may name\<close>

lemma is_name_of_chars:
  assumes "is_name_of h u"
  shows "h \<noteq> []" and "last h \<noteq> CHR ''.''"
    and "c \<in> set h \<Longrightarrow> is_ascii_alphanumeric c \<or> c = CHR ''-'' \<or> u \<and> c = CHR ''_'' \<or> c = CHR ''.''"
proof -
  show "h \<noteq> []" using assms by (simp add: is_name_of_def)
  then show "last h \<noteq> CHR ''.''"
    using assms by (cases h rule: rev_cases) (auto simp: is_name_of_def ends_with_iff suffix_def)
  assume c: "c \<in> set h"
  have "c = CHR ''.'' \<or> (\<exists>label \<in> set (split_on CHR ''.'' h). c \<in> set label)"
    using c set_join [of "''.''" "split_on CHR ''.'' h"] by auto
  then show "is_ascii_alphanumeric c \<or> c = CHR ''-'' \<or> u \<and> c = CHR ''_'' \<or> c = CHR ''.''"
    using assms by (auto simp: is_name_of_def list_all_iff)
qed

lemma name_no_colon: "is_name_of h u \<Longrightarrow> CHR '':'' \<notin> set h"
  using is_name_of_chars(3) [of h u "CHR '':''"] by (auto simp: ascii_classes)

lemma to_ascii_lowercase_trim_id:
  assumes "last h \<noteq> CHR ''.''"
  shows "trim_end_char CHR ''.'' (to_ascii_lowercase h) = to_ascii_lowercase h"
  using assms trim_end_char_id [of h "CHR ''.''"] to_ascii_lowercase_trim [of h] by simp

lemma canonical_host_name:
  assumes "is_name_of h u" and "parse_ip h = None"
  shows "canonical_host h = to_ascii_lowercase h"
  using assms to_ascii_lowercase_trim_id [OF is_name_of_chars(2) [OF assms(1)]]
  by (simp add: canonical_host_def parse_ip_lower)

lemma canonical_host_lowercase: "canonical_host (to_ascii_lowercase h) = canonical_host h"
  by (rule canonical_host_case) simp

lemma is_request_host_name:
  assumes n: "is_name_of h u" and nip: "parse_ip h = None"
    and e: "\<not> ends_in_a_number (to_ascii_lowercase h)"
  shows "is_request_host (to_ascii_lowercase h)"
proof -
  let ?l = "to_ascii_lowercase h"
  have "list_all (\<lambda>b. is_ascii_alphanumeric b \<or> b \<in> set ''-_.'') ?l"
    using is_name_of_chars(3) [OF n]
    by (auto simp: list_all_iff to_ascii_lowercase_def ascii_lower_def ascii_classes)
  moreover have "?l \<noteq> []" using is_name_of_chars(1) [OF n] by (simp add: to_ascii_lowercase_def)
  moreover have "parse_ip ?l = None" using nip by (simp add: parse_ip_lower)
  moreover have "canonical_host ?l = ?l"
    using canonical_host_name [OF n nip] canonical_host_lowercase by simp
  ultimately show ?thesis using e by (simp add: is_request_host_def)
qed

lemma is_request_host_ip:
  "reject_an_address_carrying_an_ipv4 ip = Inr () \<Longrightarrow> is_request_host (show_ip ip)"
  by (auto simp: reject_an_address_carrying_an_ipv4_def is_request_host_def
      split: ip_addr.splits option.splits)

section \<open>Classified rules\<close>

lemma is_request_host_v4: "parse_ip h = Some (V4 a) \<Longrightarrow> is_request_host h"
  using show_parse_v4 [of h a] is_request_host_ip [of "V4 a"]
  by (simp add: reject_an_address_carrying_an_ipv4_def)

lemma reject_host_name:
  assumes "is_valid_hostname h" and "reject_host (lower h) = Inr ()"
  shows "is_request_host (lower h)"
proof -
  have n: "is_name_of h False" using assms(1) by (simp add: is_valid_hostname_def)
  show ?thesis
  proof (cases "parse_ip h")
    case None
    with assms(2) is_request_host_name [OF n None] show ?thesis
      by (auto simp: reject_host_def parse_ip_lower split: if_splits)
  next
    case (Some ip)
    then obtain a where "ip = V4 a"
      using parse_ip_chars(4) [OF Some] name_no_colon [OF n] by (cases ip) (auto simp: is_ipv6_def)
    with Some show ?thesis by (simp add: is_request_host_v4 parse_ip_lower)
  qed
qed

lemma canonical_host_ip:
  assumes "parse_ip h = Some ip" shows "canonical_host h = show_ip ip"
  using assms parse_ip_chars(3) [OF assms] to_ascii_lowercase_trim_id [of h]
  by (simp add: canonical_host_def parse_ip_lower)

lemma reject_host_canonical:
  assumes "is_valid_hostname h \<or> parse_ip h \<noteq> None" and "reject_host (canonical_host h) = Inr ()"
  shows "is_request_host (canonical_host h)"
proof (cases "parse_ip h")
  case None
  with assms(1) have n: "is_valid_hostname h" by simp
  then have "canonical_host h = lower h"
    using canonical_host_name [of h False] None by (simp add: is_valid_hostname_def)
  with reject_host_name [OF n] assms(2) show ?thesis by simp
next
  case (Some ip)
  with assms(2) show ?thesis
    by (simp add: canonical_host_ip is_request_host_ip reject_host_def)
qed

text \<open>What a rule from the grammar looks like: its parts are well formed, and the host it names is one
  a request can name.\<close>

definition rule_ok :: "(string \<Rightarrow> 're option) \<Rightarrow> 're rule \<Rightarrow> bool" where
  "rule_ok compile r =
     (rule_wf compile r \<and> methods_wf (rmethods r) \<and> \<not> builtin r \<and> rgroup r = None \<and>
      (rlayer r = L4 \<longrightarrow> rmethods r = Unspecified \<and> \<not> is_url (kind r)) \<and>
      (case kind r of
         Ip ip ps \<Rightarrow> ports_ok ps \<and> is_request_host (show_ip ip)
       | Host h ps \<Rightarrow> ports_ok ps \<and> is_request_host h \<and> parse_ip h = None
       | Subdomain d ps \<Rightarrow> ports_ok ps \<and> is_request_host d
       | Url h ps pa _ \<Rightarrow> ports_ok ps \<and> is_request_host h \<and> path_fault pa = None \<and> starts_with ''/'' pa
       | Regex pat _ \<Rightarrow> rlayer r = L7 \<and> anchored_fault pat = None))"

lemma parse_path_rule_ok:
  assumes "parse_path_rule authority path d sl = Inr k" and "d \<noteq> 0"
    and "reject_a_host_no_request_names k = Inr ()"
  obtains h ps where "k = Url h ps path (ends_with ''/*'' path)" "ports_ok ps" "is_request_host h"
    "path_fault path = None"
proof -
  from assms(1) obtain host ps where
    s: "split_host_ports authority d = Inr (host, ps)" and k: "k = Url (canonical_host host) ps path (ends_with ''/*'' path)"
    and h: "is_valid_hostname host \<or> parse_ip host \<noteq> None" and f: "path_fault path = None"
    by (auto simp: parse_path_rule_def split: if_splits sum.splits option.splits)
  from assms(3) k have "is_request_host (canonical_host host)"
    by (auto simp: reject_a_host_no_request_names_def intro: reject_host_canonical [OF h])
  with that k f split_host_ports_ok [OF s assms(2)] show ?thesis by blast
qed

lemma classify_kind_ok:
  fixes k :: "'re rule_kind"
  assumes "classify_kind s d sl = Inr k" and "d \<noteq> 0" and "reject_a_host_no_request_names k = Inr ()"
  shows "case k of
       Ip ip ps \<Rightarrow> ports_ok ps \<and> is_request_host (show_ip ip)
     | Host h ps \<Rightarrow> ports_ok ps \<and> is_request_host h \<and> parse_ip h = None
     | Subdomain dm ps \<Rightarrow> ports_ok ps \<and> is_request_host dm
     | Url h ps pa sub \<Rightarrow> ports_ok ps \<and> is_request_host h \<and> path_fault pa = None \<and>
         starts_with ''/'' pa \<and> sub = ends_with ''/*'' pa
     | Regex pat _ \<Rightarrow> False"
proof (cases "split_once CHR ''/'' s")
  case (Some at)
  then obtain authority tl where at: "split_once CHR ''/'' s = Some (authority, tl)" by (cases at) auto
  with assms(1) have "parse_path_rule authority (CHR ''/'' # tl) d sl = Inr k"
    by (auto simp: classify_kind_def split: if_splits)
  from parse_path_rule_ok [OF this assms(2,3)] obtain h ps where
    "k = Url h ps (CHR ''/'' # tl) (ends_with ''/*'' (CHR ''/'' # tl))" "ports_ok ps" "is_request_host h"
    "path_fault (CHR ''/'' # tl) = None" by blast
  then show ?thesis by (simp add: starts_with_def)
next
  case None
  then obtain host ps where s: "split_host_ports s d = Inr (host, ps)"
    using assms(1) by (auto simp: classify_kind_def split: if_splits sum.splits)
  note ps = split_host_ports_ok [OF s assms(2)]
  consider (sub) dm where "is_valid_hostname dm" "k = Subdomain (lower dm) ps"
    | (ip) ip where "k = Ip ip ps"
    | (name) "parse_ip host = None" "is_valid_hostname host" "k = Host (lower host) ps"
  proof (cases "strip_prefix ''*.'' host")
    case (Some dm)
    with that(1) [of dm] show ?thesis
      using assms(1) None s by (auto simp: classify_kind_def split: if_splits sum.splits)
  next
    case None2: None
    show ?thesis
      using assms(1) None None2 s that(2,3)
      by (cases "parse_ip host") (auto simp: classify_kind_def split: if_splits sum.splits)
  qed
  then show ?thesis
  proof cases
    case sub
    with assms(3) ps show ?thesis
      by (simp add: reject_a_host_no_request_names_def reject_host_name)
  next
    case ip
    with assms(3) ps show ?thesis
      by (simp add: reject_a_host_no_request_names_def is_request_host_ip)
  next
    case name
    with assms(3) ps show ?thesis
      by (simp add: reject_a_host_no_request_names_def reject_host_name parse_ip_lower)
  qed
qed

lemma classify_in_ok:
  assumes "classify_in compile entry sl = Inr r"
  shows "rule_ok compile r"
proof -
  from assms obtain ms rest0 where
    m: "split_method_prefix (trim entry) = Inr (ms, rest0)" and
    c: "(case strip_prefix ''re:'' (trim rest0) of
           Some pattern \<Rightarrow>
             (case compile pattern of
                None \<Rightarrow> Inl (InvalidRegex pattern)
              | Some re \<Rightarrow>
                  (case anchored_fault pattern of
                     Some e \<Rightarrow> Inl e
                   | None \<Rightarrow> Inr \<lparr> kind = Regex pattern re, rmethods = ms, rlayer = L7, rgroup = None,
                                   builtin = False \<rparr>))
         | None \<Rightarrow>
             (case split_scheme (trim rest0) of Inl e \<Rightarrow> Inl e | Inr (l, body) \<Rightarrow>
             (case classify_kind (trim body) (default_port l) sl of Inl e \<Rightarrow> Inl e | Inr k \<Rightarrow>
             (case reject_a_host_no_request_names k of Inl e \<Rightarrow> Inl e | Inr _ \<Rightarrow>
             (case l4_fault l ms k body of
                Some e \<Rightarrow> Inl e
              | None \<Rightarrow> Inr \<lparr> kind = k, rmethods = ms, rlayer = l, rgroup = None,
                              builtin = False \<rparr>))))) = Inr r"
    by (auto simp: classify_in_def Let_def split: sum.splits)
  note ms = split_method_prefix_wf [OF m]
  show ?thesis
  proof (cases "strip_prefix ''re:'' (trim rest0)")
    case (Some pattern)
    with c ms show ?thesis
      by (auto simp: rule_ok_def rule_wf_def split: option.splits)
  next
    case None
    with c obtain l body k where
      k: "classify_kind (trim body) (default_port l) sl = Inr k"
        "reject_a_host_no_request_names k = Inr ()" "l4_fault l ms k body = None"
      and r: "r = \<lparr> kind = k, rmethods = ms, rlayer = l, rgroup = None, builtin = False \<rparr>"
      by (auto split: sum.splits option.splits)
    from k(3) have "l = L4 \<longrightarrow> ms = Unspecified \<and> \<not> is_url k"
      by (auto simp: l4_fault_def split: if_splits)
    with classify_kind_ok [OF k(1) default_port_nonzero k(2)] ms r show ?thesis
      by (cases k) (auto simp: rule_ok_def rule_wf_def)
  qed
qed

text \<open>C5. An accepted entry is well formed: verbs and ports are sorted and without repetition, ports are
  from 1 up, the host is one a request can name, a raw-splice rule has neither methods nor a path.\<close>

theorem classify_well_formed:
  assumes "classify_in compile entry sl = Inr r"
  shows "rule_ok compile r"
  using assms by (rule classify_in_ok)

definition no_regex :: "string \<Rightarrow> unit option" where
  "no_regex p = None"

definition sample_rule :: "unit rule" where
  "sample_rule = \<lparr> kind = Subdomain ''t.io'' (Ranges [(443, 443)]),
     rmethods = Only [''GET'', ''WS''], rlayer = L7, rgroup = None, builtin = False \<rparr>"

lemma classify_sample:
  "classify_in no_regex ''{WS,GET} *.T.io'' SlotAllow = Inr sample_rule"
  by code_simp

theorem classify_well_formed_witness: "rule_ok no_regex sample_rule"
  using classify_sample by (rule classify_well_formed)

lemma is_request_host_canonical: "is_request_host h \<Longrightarrow> canonical_host h = h"
  by (auto simp: is_request_host_def split: if_splits)

lemma ports_ok_port: "ports_ok ps \<Longrightarrow> \<exists>p. p \<noteq> 0 \<and> ports_admits ps p"
proof (cases ps)
  case AnyPort
  then show ?thesis by (intro exI [of _ 1]) (simp add: ports_admits_def)
next
  case (Ranges rs)
  moreover assume "ports_ok ps"
  ultimately obtain lo hi where "(lo, hi) \<in> set rs" "lo \<noteq> 0" "lo \<le> hi"
    by (cases rs) (auto simp: ports_ok_def)
  with Ranges show ?thesis by (intro exI [of _ lo]) (auto simp: ports_admits_def list_ex_iff)
qed

lemma path_matches_self: "\<exists>t. path_matches (canonical_segments t) pa sub"
  by (rule exI [of _ "if sub then case strip_suffix ''/*'' pa of Some b \<Rightarrow> b | None \<Rightarrow> pa else pa"])
    (auto simp: path_matches_def starts_with_iff Let_def)

text \<open>C6. No accepted rule is inert: unless it is a pattern, some request with a host the planes take,
  on some port, matches it.\<close>

theorem classify_never_inert:
  assumes "classify_in compile entry sl = Inr r" and "\<not> is_regex (kind r)"
  shows "\<exists>h p t. is_request_host h \<and> p \<noteq> 0 \<and> rule_matches im r h p t"
proof -
  note ok = classify_in_ok [OF assms(1)]
  have *: "\<exists>h p t. is_request_host h \<and> p \<noteq> 0 \<and> rule_matches im r h p t"
    if ps: "ports_ok ps" and h: "is_request_host h"
      and m: "\<And>p t. ports_admits ps p \<Longrightarrow> path_ok t \<Longrightarrow> kind_matches im (kind r) (Request_new h p t)"
      and t: "\<exists>t. path_ok t" for ps h path_ok
    using ports_ok_port [OF ps] h m t unfolding rule_matches_def by metis
  show ?thesis
  proof (cases "kind r")
    case (Ip ip ps)
    with ok show ?thesis
      by (intro * [of ps "show_ip ip" "\<lambda>_. True"]) (auto simp: rule_ok_def kind_matches_def)
  next
    case (Host h ps)
    with ok show ?thesis
      by (intro * [of ps h "\<lambda>_. True"])
        (auto simp: rule_ok_def kind_matches_def is_request_host_canonical)
  next
    case (Subdomain d ps)
    with ok show ?thesis
      by (intro * [of ps d "\<lambda>_. True"])
        (auto simp: rule_ok_def kind_matches_def is_request_host_canonical)
  next
    case (Url h ps pa sub)
    with ok show ?thesis
      by (intro * [of ps h "\<lambda>t. path_matches (canonical_segments t) pa sub"])
        (auto simp: rule_ok_def kind_matches_def is_request_host_canonical path_matches_self)
  next
    case (Regex pat re)
    with assms(2) show ?thesis by (simp add: is_regex_def)
  qed
qed

theorem classify_never_inert_witness:
  "\<exists>h p t. is_request_host h \<and> p \<noteq> 0 \<and> rule_matches (\<lambda>_ _. False) sample_rule h p t"
  using classify_sample by (rule classify_never_inert) (simp add: sample_rule_def is_regex_def)

section \<open>Authorities and targets\<close>

lemma request_port_iff:
  "request_port ds = Some p \<longleftrightarrow> ds \<noteq> [] \<and> list_all is_ascii_digit ds \<and> parse_u16 ds = Some p \<and> p \<noteq> 0"
  by (auto simp: request_port_def split: option.splits)

lemma request_port_no_colon: "request_port ds = Some p \<Longrightarrow> CHR '':'' \<notin> set ds"
  by (auto simp: request_port_iff list_all_iff ascii_classes)

lemma request_port_fmt: "p \<noteq> 0 \<Longrightarrow> request_port (fmt_u16 p) = Some p"
  by (auto simp: request_port_iff fmt_u16_def list_all_iff dest: fmt_nat_10_digits)

lemma parse_ipv6_chars: "parse_ipv6 h = Some a \<Longrightarrow> c \<in> set h \<Longrightarrow> ip_char c"
  using read_ipv6_chars [of h a "[]"]
  by (auto simp: parse_ipv6_def split: option.splits list.splits)

lemma parse_ipv6_no_bracket: "parse_ipv6 h = Some a \<Longrightarrow> CHR '']'' \<notin> set h"
  using parse_ipv6_chars [of h a "CHR '']''"] by (auto simp: ip_char_def ascii_classes)

text \<open>The suffix of an authority that carries a port, or none.\<close>

definition port_suffix :: "u16 option \<Rightarrow> string \<Rightarrow> bool" where
  "port_suffix po s =
     (case po of
        None \<Rightarrow> s = []
      | Some p \<Rightarrow> (\<exists>ds. s = CHR '':'' # ds \<and> ds \<noteq> [] \<and> list_all is_ascii_digit ds \<and>
                     parse_u16 ds = Some p \<and> p \<noteq> 0))"

lemma port_suffix_request_port:
  "port_suffix po s \<longleftrightarrow>
     (case po of None \<Rightarrow> s = [] | Some p \<Rightarrow> (\<exists>ds. s = CHR '':'' # ds \<and> request_port ds = Some p))"
  by (auto simp: port_suffix_def request_port_iff split: option.splits)

lemma split_authority_bracket:
  assumes "parse_ipv6 h = Some a" and "port_suffix po s"
  shows "split_request_authority (CHR ''['' # h @ CHR '']'' # s) = Inr (h, po)"
proof -
  have "split_once CHR '']'' (h @ CHR '']'' # s) = Some (h, s)"
    using parse_ipv6_no_bracket [OF assms(1)] by (simp add: split_once_Some)
  with assms show ?thesis
    by (auto simp: split_request_authority_def split_authority_def port_suffix_request_port
        split: option.splits)
qed

lemma split_authority_plain:
  assumes "CHR '':'' \<notin> set h" and "\<not> starts_with ''['' (h @ s)" and "port_suffix po s"
  shows "split_request_authority (h @ s) = Inr (h, po)"
proof -
  have b: "strip_prefix ''['' (h @ s) = None" using assms(2) by (simp add: starts_with_def)
  show ?thesis
  proof (cases po)
    case None
    with assms have "s = []" by (simp add: port_suffix_def)
    moreover have "split_once CHR '':'' h = None" using assms(1) by (simp add: split_once_None)
    ultimately show ?thesis
      using b None by (simp add: split_request_authority_def split_authority_def)
  next
    case (Some p)
    with assms(3) obtain ds where s: "s = CHR '':'' # ds" and d: "request_port ds = Some p"
      by (auto simp: port_suffix_request_port)
    have "split_once CHR '':'' (h @ s) = Some (h, ds)"
      using assms(1) s by (simp add: split_once_Some)
    with b d request_port_no_colon [OF d] Some show ?thesis
      by (simp add: split_request_authority_def split_authority_def)
  qed
qed

text \<open>\<open>split_request_authority\<close> accepts exactly \<open>host [":" port]\<close>, one way: a bracketed IPv6 address
  or a host with no colon, then nothing or a port from 1 to 65535 in digits.\<close>

theorem split_request_authority_iff:
  "split_request_authority a = Inr (h, po) \<longleftrightarrow>
     (\<exists>s. port_suffix po s \<and>
        ((\<exists>v6. parse_ipv6 h = Some v6) \<and> a = ''['' @ h @ '']'' @ s \<or>
         CHR '':'' \<notin> set h \<and> \<not> starts_with ''['' a \<and> a = h @ s))"
proof
  assume "\<exists>s. port_suffix po s \<and>
        ((\<exists>v6. parse_ipv6 h = Some v6) \<and> a = ''['' @ h @ '']'' @ s \<or>
         CHR '':'' \<notin> set h \<and> \<not> starts_with ''['' a \<and> a = h @ s)"
  then show "split_request_authority a = Inr (h, po)"
    using split_authority_bracket split_authority_plain by auto
next
  assume a: "split_request_authority a = Inr (h, po)"
  then obtain d where sa: "split_authority a = Inr (h, d)"
    and d: "case d of None \<Rightarrow> po = None | Some ds \<Rightarrow> po = request_port ds \<and> po \<noteq> None"
    by (auto simp: split_request_authority_def dest!: sym [of "Some _"] split: sum.splits option.splits)
  let ?s = "case d of None \<Rightarrow> [] | Some ds \<Rightarrow> CHR '':'' # ds"
  have "port_suffix po ?s" using d by (auto simp: port_suffix_request_port split: option.splits)
  moreover have "(\<exists>v6. parse_ipv6 h = Some v6) \<and> a = ''['' @ h @ '']'' @ ?s \<or>
      CHR '':'' \<notin> set h \<and> \<not> starts_with ''['' a \<and> a = h @ ?s"
    using sa
    by (auto simp: split_authority_def starts_with_def split_once_Some split_once_None strip_prefix_Some
        split: option.splits if_splits)
  ultimately show "\<exists>s. port_suffix po s \<and>
        ((\<exists>v6. parse_ipv6 h = Some v6) \<and> a = ''['' @ h @ '']'' @ s \<or>
         CHR '':'' \<notin> set h \<and> \<not> starts_with ''['' a \<and> a = h @ s)" by blast
qed

lemma canonical_target_host_ok: "canonical_target_host h = Some c \<Longrightarrow> is_request_host c"
  by (auto simp: canonical_target_host_def Let_def split: if_splits)

lemma split_request_authority_port: "split_request_authority a = Inr (h, Some p) \<Longrightarrow> p \<noteq> 0"
  by (auto simp: split_request_authority_def request_port_iff split: sum.splits option.splits)

lemma scheme_of_port: "scheme_of s = Some (n, d) \<Longrightarrow> d \<noteq> 0"
  by (auto simp: scheme_of_def split: if_splits)

text \<open>The texts that name one request: host as the planes spell it, port, path.\<close>

definition target_url :: "string \<Rightarrow> u16 \<Rightarrow> string \<Rightarrow> string" where
  "target_url h p t = ''https://'' @ display_host h @ '':'' @ fmt_u16 p @ t"

lemma display_host_authority:
  assumes "is_request_host h" and "p \<noteq> 0"
  shows "split_request_authority (display_host h @ CHR '':'' # fmt_u16 p) = Inr (h, Some p)"
proof -
  have s: "port_suffix (Some p) (CHR '':'' # fmt_u16 p)"
    using request_port_fmt [OF assms(2)] by (simp add: port_suffix_request_port)
  show ?thesis
  proof (cases "\<exists>a. parse_ip h = Some (V6 a)")
    case True
    then obtain a where a: "parse_ip h = Some (V6 a)" by blast
    then have "parse_ipv6 h = Some a"
      by (auto simp: parse_ip_def read_ip_def parse_ipv6_def split: option.splits list.splits)
    with a split_authority_bracket [OF _ s, of h a] show ?thesis
      by (simp add: display_host_def is_ipv6_def)
  next
    case False
    have d: "display_host h = h"
      using False by (auto simp: display_host_def is_ipv6_def split: option.splits ip_addr.splits)
    have c: "list_all (\<lambda>c. is_ascii_alphanumeric c \<or> c \<in> set ''-_.'') h \<and> h \<noteq> []"
    proof (cases "parse_ip h")
      case None
      with assms(1) show ?thesis by (auto simp: is_request_host_def split: if_splits)
    next
      case (Some ip)
      with False have "\<not> is_ipv6 ip" by (cases ip) (auto simp: is_ipv6_def)
      with parse_ip_chars [OF Some] show ?thesis
        by (auto simp: list_all_iff ip_char_def is_ascii_hexdigit_def is_ascii_alphanumeric_def
            ascii_classes) force+
    qed
    then have "CHR '':'' \<notin> set h" by (auto simp: list_all_iff ascii_classes)
    moreover from c have "\<not> starts_with ''['' (h @ CHR '':'' # fmt_u16 p)"
      by (cases h) (auto simp: starts_with_def ascii_classes)
    ultimately show ?thesis using split_authority_plain [OF _ _ s] d by simp
  qed
qed

lemma drop_length_append: "drop (length xs) (xs @ ys) = ys"
  by simp

lemma display_host_delims: "is_request_host h \<Longrightarrow> c \<in> set (display_host h) \<Longrightarrow> c \<notin> set ''/?#''"
proof -
  assume h: "is_request_host h" and c: "c \<in> set (display_host h)"
  have "c = CHR ''['' \<or> c = CHR '']'' \<or> c \<in> set h"
    using c by (auto simp: display_host_def split: option.splits if_splits)
  moreover have "c \<in> set h \<Longrightarrow> is_ascii_alphanumeric c \<or> c \<in> set ''-_.:''"
  proof (cases "parse_ip h")
    case None
    with h show "c \<in> set h \<Longrightarrow> ?thesis"
      by (auto simp: is_request_host_def list_all_iff split: if_splits)
  next
    case (Some ip)
    show "c \<in> set h \<Longrightarrow> ?thesis"
      using parse_ip_chars(2) [OF Some, of c]
      by (auto simp: ip_char_def is_ascii_hexdigit_def is_ascii_alphanumeric_def ascii_classes)
  qed
  ultimately show ?thesis by (auto simp: ascii_classes)
qed

lemma takeWhile_authority:
  assumes "is_request_host h" and "starts_with ''/'' t"
  shows "takeWhile (\<lambda>c. c \<notin> set ''/?#'') (display_host h @ CHR '':'' # fmt_u16 p @ t) =
    display_host h @ CHR '':'' # fmt_u16 p"
proof -
  have "\<And>c. c \<in> set (display_host h @ CHR '':'' # fmt_u16 p) \<Longrightarrow> c \<notin> set ''/?#''"
    using display_host_delims [OF assms(1)]
    by (auto simp: fmt_u16_def ascii_classes dest!: fmt_nat_10_digits)
  moreover have "takeWhile (\<lambda>c. c \<notin> set ''/?#'') t = []"
    using assms(2) by (cases t) (auto simp: starts_with_def split: if_splits)
  ultimately show ?thesis
    using takeWhile_append2 [of "display_host h @ CHR '':'' # fmt_u16 p" "\<lambda>c. c \<notin> set ''/?#''" t]
    by simp
qed



end
