(* ===== verification/Ssrf.thy ===== *)
theory Ssrf
  imports Egress_Policy
begin

text \<open>
  The guard between a verdict and a connection (src/src/sandbox/proxy/ssrf.rs): the class of each
  resolved address, when a private one is reachable, and the addresses a request may be dialled to.
\<close>

section \<open>Address classes\<close>

datatype ip_class = Public | Private | Blocked

text \<open>The predicates of \<open>Ipv4Addr\<close> and \<open>Ipv6Addr\<close> the classifier asks.\<close>

fun is_link_local :: "ipv4 \<Rightarrow> bool" where
  "is_link_local (Ipv4 a b c d) = (a = 169 \<and> b = 254)"

fun is_unspecified :: "ipv4 \<Rightarrow> bool" where
  "is_unspecified (Ipv4 a b c d) = (a = 0 \<and> b = 0 \<and> c = 0 \<and> d = 0)"

fun is_multicast :: "ipv4 \<Rightarrow> bool" where
  "is_multicast (Ipv4 a b c d) = (224 \<le> a \<and> a \<le> 239)"

fun is_broadcast :: "ipv4 \<Rightarrow> bool" where
  "is_broadcast (Ipv4 a b c d) = (a = 255 \<and> b = 255 \<and> c = 255 \<and> d = 255)"

fun is_loopback :: "ipv4 \<Rightarrow> bool" where
  "is_loopback (Ipv4 a b c d) = (a = 127)"

fun is_private :: "ipv4 \<Rightarrow> bool" where
  "is_private (Ipv4 a b c d) =
     (a = 10 \<or> a = 172 \<and> 16 \<le> b \<and> b \<le> 31 \<or> a = 192 \<and> b = 168)"

fun is_documentation :: "ipv4 \<Rightarrow> bool" where
  "is_documentation (Ipv4 a b c d) =
     (a = 192 \<and> b = 0 \<and> c = 2 \<or> a = 198 \<and> b = 51 \<and> c = 100 \<or> a = 203 \<and> b = 0 \<and> c = 113)"

fun is_unspecified6 :: "ipv6 \<Rightarrow> bool" where
  "is_unspecified6 (Ipv6 a b c d e f g h) =
     (a = 0 \<and> b = 0 \<and> c = 0 \<and> d = 0 \<and> e = 0 \<and> f = 0 \<and> g = 0 \<and> h = 0)"

fun is_loopback6 :: "ipv6 \<Rightarrow> bool" where
  "is_loopback6 (Ipv6 a b c d e f g h) =
     (a = 0 \<and> b = 0 \<and> c = 0 \<and> d = 0 \<and> e = 0 \<and> f = 0 \<and> g = 0 \<and> h = 1)"

fun is_multicast6 :: "ipv6 \<Rightarrow> bool" where
  "is_multicast6 (Ipv6 a b c d e f g h) = (and a 0xff00 = 0xff00)"

definition classify_v4 :: "ipv4 \<Rightarrow> ip_class" where
  "classify_v4 v4 =
     (if is_link_local v4 \<or> is_unspecified v4 \<or> is_multicast v4 \<or> is_broadcast v4 then Blocked
      else case v4 of Ipv4 o0 o1 o2 o3 \<Rightarrow>
        if is_loopback v4 \<or> is_private v4 \<or> (o0 = 100 \<and> 64 \<le> o1 \<and> o1 \<le> 127) then Private
        else if is_documentation v4 \<or> o0 = 0 \<or> (o0 = 198 \<and> (o1 = 18 \<or> o1 = 19)) \<or> 240 \<le> o0 then Private
        else Public)"

definition classify_v6 :: "ipv6 \<Rightarrow> ip_class" where
  "classify_v6 v6 =
     (case v6 of Ipv6 s0 s1 s2 s3 s4 s5 s6 s7 \<Rightarrow>
        if is_unspecified6 v6 \<or> is_multicast6 v6 \<or> and s0 0xffc0 = 0xfe80 then Blocked
        else if is_loopback6 v6 \<or> and s0 0xfe00 = 0xfc00 \<or> and s0 0xffc0 = 0xfec0 \<or>
                (s0 = 0x2001 \<and> s1 = 0x0db8) then Private
        else Public)"

definition classify_ip :: "ip_addr \<Rightarrow> ip_class" where
  "classify_ip ip =
     (case ip of
        V4 v4 \<Rightarrow> classify_v4 v4
      | V6 v6 \<Rightarrow> (case embedded_v4 v6 of Some v4 \<Rightarrow> classify_v4 v4 | None \<Rightarrow> classify_v6 v6))"

section \<open>Refusals\<close>

datatype addr_refusal = PrivateWithoutExactHost | NeverReachable

definition names_exact_host :: "string \<Rightarrow> 're rule option \<Rightarrow> bool" where
  "names_exact_host host deciding =
     (case deciding of
        None \<Rightarrow> False
      | Some r \<Rightarrow>
          (let h = canonical_host host in
           case kind r of
             Host rh _ \<Rightarrow> rh = h
           | Url rh _ _ _ \<Rightarrow> rh = h
           | Ip rip _ \<Rightarrow> show_ip rip = h
           | _ \<Rightarrow> False))"

definition decided_by_builtin :: "'re rule option \<Rightarrow> bool" where
  "decided_by_builtin deciding = (case deciding of Some r \<Rightarrow> builtin r | None \<Rightarrow> False)"

definition opens_private_address :: "string \<Rightarrow> 're rule option \<Rightarrow> bool" where
  "opens_private_address host deciding =
     (names_exact_host host deciding \<and> \<not> decided_by_builtin deciding)"

definition ip_refusal :: "ip_addr \<Rightarrow> string \<Rightarrow> 're rule option \<Rightarrow> addr_refusal option" where
  "ip_refusal ip host deciding =
     (case classify_ip ip of
        Public \<Rightarrow> None
      | Blocked \<Rightarrow> Some NeverReachable
      | Private \<Rightarrow> if opens_private_address host deciding then None else Some PrivateWithoutExactHost)"

definition ip_permitted :: "ip_addr \<Rightarrow> string \<Rightarrow> 're rule option \<Rightarrow> bool" where
  "ip_permitted ip host deciding = (ip_refusal ip host deciding = None)"

datatype connect_refusal = Dns | SsrfRefused | Unreachable | Supervisor | Busy

definition status_line :: "connect_refusal \<Rightarrow> string" where
  "status_line r =
     (case r of
        Dns \<Rightarrow> ''502 Bad Gateway'' | Unreachable \<Rightarrow> ''502 Bad Gateway''
      | SsrfRefused \<Rightarrow> ''403 Forbidden'' | Supervisor \<Rightarrow> ''403 Forbidden''
      | Busy \<Rightarrow> ''503 Service Unavailable'')"

definition refusal_status :: "connect_refusal \<Rightarrow> nat" where
  "refusal_status r =
     (case r of Dns \<Rightarrow> 502 | Unreachable \<Rightarrow> 502 | SsrfRefused \<Rightarrow> 403 | Supervisor \<Rightarrow> 403 | Busy \<Rightarrow> 503)"

definition refusal_tag :: "connect_refusal \<Rightarrow> string" where
  "refusal_tag r =
     (case r of
        Dns \<Rightarrow> ''dns-failure'' | SsrfRefused \<Rightarrow> ''ssrf-blocked'' | Unreachable \<Rightarrow> ''upstream-unreachable''
      | Supervisor \<Rightarrow> ''supervisor-denied'' | Busy \<Rightarrow> ''supervisor-busy'')"

definition permitted :: "ip_addr list \<Rightarrow> string \<Rightarrow> 're rule option \<Rightarrow> connect_refusal + ip_addr list" where
  "permitted ips host deciding =
     (let ok = filter (\<lambda>ip. ip_permitted ip host deciding) ips
      in if ok = [] then Inl SsrfRefused else Inr ok)"

section \<open>The guard\<close>

text \<open>The IPv6 spellings of an IPv4 address the guard knows, with the bits the form leaves free.\<close>

definition mapped :: "ipv4 \<Rightarrow> ipv6" where
  "mapped v4 = (case v4 of Ipv4 a b c d \<Rightarrow> Ipv6 0 0 0 0 0 0xffff (u16_of a b) (u16_of c d))"

definition compatible :: "ipv4 \<Rightarrow> ipv6" where
  "compatible v4 = (case v4 of Ipv4 a b c d \<Rightarrow> Ipv6 0 0 0 0 0 0 (u16_of a b) (u16_of c d))"

definition nat64 :: "ipv4 \<Rightarrow> ipv6" where
  "nat64 v4 = (case v4 of Ipv4 a b c d \<Rightarrow> Ipv6 0x64 0xff9b 0 0 0 0 (u16_of a b) (u16_of c d))"

definition six_to_four :: "ipv4 \<Rightarrow> u16 list \<Rightarrow> ipv6" where
  "six_to_four v4 xs = (case v4 of Ipv4 a b c d \<Rightarrow>
     Ipv6 0x2002 (u16_of a b) (u16_of c d) (xs ! 0) (xs ! 1) (xs ! 2) (xs ! 3) (xs ! 4))"

definition teredo :: "ipv4 \<Rightarrow> u16 list \<Rightarrow> ipv6" where
  "teredo v4 xs = (case v4 of Ipv4 a b c d \<Rightarrow>
     Ipv6 0x2001 0 (xs ! 0) (xs ! 1) (xs ! 2) (xs ! 3) (not (u16_of a b)) (not (u16_of c d)))"

lemma unat_u16_of: "unat (u16_of a b) = unat a * 256 + unat b"
proof -
  have "unat a * 256 + unat b < 65536"
    using unat_u8_less [of a] unat_u8_less [of b] by linarith
  then show ?thesis by (simp add: u16_of_def unat_of_nat del: of_nat_add of_nat_mult)
qed

lemma bytes_u16_of [simp]: "hi_byte (u16_of a b) = a" "lo_byte (u16_of a b) = b"
  using unat_u8_less [of b] by (simp_all add: hi_byte_def lo_byte_def unat_u16_of)

lemma u16_of_eq_iff: "u16_of a b = u16_of c d \<longleftrightarrow> a = c \<and> b = d"
  using bytes_u16_of by metis

lemma u16_of_0_1: "u16_of a b = 0 \<longleftrightarrow> a = 0 \<and> b = 0" "u16_of a b = 1 \<longleftrightarrow> a = 0 \<and> b = 1"
proof -
  have "u16_of 0 0 = 0" "u16_of 0 1 = 1" by (simp_all add: u16_of_def)
  then show "u16_of a b = 0 \<longleftrightarrow> a = 0 \<and> b = 0" "u16_of a b = 1 \<longleftrightarrow> a = 0 \<and> b = 1"
    by (metis u16_of_eq_iff)+
qed

lemma embedded_mapped: "embedded_v4 (mapped v4) = Some v4"
  by (cases v4) (simp add: embedded_v4_def to_ipv4_mapped_def mapped_def)

lemma embedded_nat64: "embedded_v4 (nat64 v4) = Some v4"
  by (cases v4) (simp add: embedded_v4_def to_ipv4_mapped_def nat64_def v4_of_def)

lemma embedded_six_to_four: "embedded_v4 (six_to_four v4 xs) = Some v4"
  by (cases v4) (simp add: embedded_v4_def to_ipv4_mapped_def six_to_four_def v4_of_def)

lemma embedded_teredo: "embedded_v4 (teredo v4 xs) = Some v4"
  by (cases v4) (simp add: embedded_v4_def to_ipv4_mapped_def teredo_def v4_of_def)

lemma embedded_compatible:
  "v4 \<noteq> Ipv4 0 0 0 0 \<Longrightarrow> v4 \<noteq> Ipv4 0 0 0 1 \<Longrightarrow> embedded_v4 (compatible v4) = Some v4"
  by (cases v4) (auto simp: embedded_v4_def to_ipv4_mapped_def compatible_def v4_of_def u16_of_0_1)

lemma guarded_as_embedded:
  "embedded_v4 v6 = Some v4 \<Longrightarrow> ip_refusal (V6 v6) host d = ip_refusal (V4 v4) host d"
  by (simp add: ip_refusal_def classify_ip_def)






definition v4_num :: "ipv4 \<Rightarrow> nat" where
  "v4_num v4 = (case v4 of Ipv4 a b c d \<Rightarrow> ((unat a * 256 + unat b) * 256 + unat c) * 256 + unat d)"

definition in_net :: "ipv4 \<Rightarrow> nat \<Rightarrow> ipv4 \<Rightarrow> bool" where
  "in_net net len v4 = (v4_num v4 div 2 ^ (32 - len) = v4_num net div 2 ^ (32 - len))"

lemma div_low: "y < n \<Longrightarrow> (x * n + y) div n = (x :: nat)"
  by simp

lemma v4_num_div:
  fixes a b c d :: u8
  shows "v4_num (Ipv4 a b c d) div 256 = (unat a * 256 + unat b) * 256 + unat c"
    and "v4_num (Ipv4 a b c d) div 65536 = unat a * 256 + unat b"
    and "v4_num (Ipv4 a b c d) div 131072 = (unat a * 256 + unat b) div 2"
    and "v4_num (Ipv4 a b c d) div 1048576 = (unat a * 256 + unat b) div 16"
    and "v4_num (Ipv4 a b c d) div 4194304 = (unat a * 256 + unat b) div 64"
    and "v4_num (Ipv4 a b c d) div 16777216 = unat a"
    and "v4_num (Ipv4 a b c d) div 268435456 = unat a div 16"
proof -
  let ?n = "v4_num (Ipv4 a b c d)"
  show 1: "?n div 256 = (unat a * 256 + unat b) * 256 + unat c"
    unfolding v4_num_def ipv4.case by (rule div_low) simp
  have "?n div 65536 = ?n div 256 div 256" by (simp add: div_mult2_eq [symmetric])
  then show 2: "?n div 65536 = unat a * 256 + unat b" unfolding 1 by (simp only: div_low unat_u8_less)
  have "?n div 131072 = ?n div 65536 div 2" "?n div 1048576 = ?n div 65536 div 16"
    "?n div 4194304 = ?n div 65536 div 64" by (simp_all add: div_mult2_eq [symmetric])
  then show "?n div 131072 = (unat a * 256 + unat b) div 2"
    "?n div 1048576 = (unat a * 256 + unat b) div 16"
    "?n div 4194304 = (unat a * 256 + unat b) div 64" unfolding 2 .
  have "?n div 16777216 = ?n div 65536 div 256" by (simp add: div_mult2_eq [symmetric])
  then show 3: "?n div 16777216 = unat a" unfolding 2 by (simp only: div_low unat_u8_less)
  have "?n div 268435456 = ?n div 16777216 div 16" by (simp add: div_mult2_eq [symmetric])
  then show "?n div 268435456 = unat a div 16" unfolding 3 .
qed

lemmas u8_unat = word_unat_eq_iff word_le_nat_alt

text \<open>Comparing two octets at once is comparing them one after the other.\<close>

lemma octets_range:
  fixes a b k l h :: nat
  assumes "b < 256" "h \<le> 256"
  shows "k * 256 + l \<le> a * 256 + b \<and> a * 256 + b < k * 256 + h \<longleftrightarrow> a = k \<and> l \<le> b \<and> b < h"
proof
  assume *: "k * 256 + l \<le> a * 256 + b \<and> a * 256 + b < k * 256 + h"
  then have "a = k" using assms by linarith
  with * show "a = k \<and> l \<le> b \<and> b < h" by simp
qed simp

lemma octets_eq:
  fixes a b k l :: nat
  assumes "b < 256" "l < 256"
  shows "a * 256 + b = k * 256 + l \<longleftrightarrow> a = k \<and> b = l"
  using octets_range [of b "l + 1" k l a] assms by auto

lemma div_eq_bounds: "0 < k \<Longrightarrow> (n :: nat) div k = q \<longleftrightarrow> q * k \<le> n \<and> n < q * k + k"
  by (metis add.commute div_nat_eqI dividend_less_div_times mult.commute mult_Suc_right times_div_less_eq_dividend)

text \<open>Membership in the networks the classes are made of, octet by octet.\<close>

lemma in_net_octets:
  fixes a b c d :: u8
  shows "in_net (Ipv4 169 254 0 0) 16 (Ipv4 a b c d) \<longleftrightarrow> a = 169 \<and> b = 254"
    and "in_net (Ipv4 224 0 0 0) 4 (Ipv4 a b c d) \<longleftrightarrow> 224 \<le> a \<and> a \<le> 239"
    and "in_net (Ipv4 127 0 0 0) 8 (Ipv4 a b c d) \<longleftrightarrow> a = 127"
    and "in_net (Ipv4 10 0 0 0) 8 (Ipv4 a b c d) \<longleftrightarrow> a = 10"
    and "in_net (Ipv4 172 16 0 0) 12 (Ipv4 a b c d) \<longleftrightarrow> a = 172 \<and> 16 \<le> b \<and> b \<le> 31"
    and "in_net (Ipv4 192 168 0 0) 16 (Ipv4 a b c d) \<longleftrightarrow> a = 192 \<and> b = 168"
    and "in_net (Ipv4 100 64 0 0) 10 (Ipv4 a b c d) \<longleftrightarrow> a = 100 \<and> 64 \<le> b \<and> b \<le> 127"
    and "in_net (Ipv4 192 0 2 0) 24 (Ipv4 a b c d) \<longleftrightarrow> a = 192 \<and> b = 0 \<and> c = 2"
    and "in_net (Ipv4 198 51 100 0) 24 (Ipv4 a b c d) \<longleftrightarrow> a = 198 \<and> b = 51 \<and> c = 100"
    and "in_net (Ipv4 203 0 113 0) 24 (Ipv4 a b c d) \<longleftrightarrow> a = 203 \<and> b = 0 \<and> c = 113"
    and "in_net (Ipv4 198 18 0 0) 15 (Ipv4 a b c d) \<longleftrightarrow> a = 198 \<and> (b = 18 \<or> b = 19)"
    and "in_net (Ipv4 0 0 0 0) 8 (Ipv4 a b c d) \<longleftrightarrow> a = 0"
    and "in_net (Ipv4 240 0 0 0) 4 (Ipv4 a b c d) \<longleftrightarrow> 240 \<le> a"
proof -
  note nums = v4_num_div u8_unat in_net_def
  show "in_net (Ipv4 169 254 0 0) 16 (Ipv4 a b c d) \<longleftrightarrow> a = 169 \<and> b = 254"
    using octets_eq [of "unat b" 254 "unat a" 169] by (simp add: nums)
  show "in_net (Ipv4 192 168 0 0) 16 (Ipv4 a b c d) \<longleftrightarrow> a = 192 \<and> b = 168"
    using octets_eq [of "unat b" 168 "unat a" 192] by (simp add: nums)
  show "in_net (Ipv4 172 16 0 0) 12 (Ipv4 a b c d) \<longleftrightarrow> a = 172 \<and> 16 \<le> b \<and> b \<le> 31"
    using octets_range [of "unat b" 32 172 16 "unat a"] by (auto simp: nums div_eq_bounds)
  show "in_net (Ipv4 100 64 0 0) 10 (Ipv4 a b c d) \<longleftrightarrow> a = 100 \<and> 64 \<le> b \<and> b \<le> 127"
    using octets_range [of "unat b" 128 100 64 "unat a"] by (auto simp: nums div_eq_bounds)
  show "in_net (Ipv4 198 18 0 0) 15 (Ipv4 a b c d) \<longleftrightarrow> a = 198 \<and> (b = 18 \<or> b = 19)"
    using octets_range [of "unat b" 20 198 18 "unat a"] by (auto simp: nums div_eq_bounds)
  show "in_net (Ipv4 192 0 2 0) 24 (Ipv4 a b c d) \<longleftrightarrow> a = 192 \<and> b = 0 \<and> c = 2"
    using octets_eq [of "unat c" 2 "unat a * 256 + unat b" "192 * 256 + 0"]
      octets_eq [of "unat b" 0 "unat a" 192] by (simp add: nums)
  show "in_net (Ipv4 198 51 100 0) 24 (Ipv4 a b c d) \<longleftrightarrow> a = 198 \<and> b = 51 \<and> c = 100"
    using octets_eq [of "unat c" 100 "unat a * 256 + unat b" "198 * 256 + 51"]
      octets_eq [of "unat b" 51 "unat a" 198] by (simp add: nums)
  show "in_net (Ipv4 203 0 113 0) 24 (Ipv4 a b c d) \<longleftrightarrow> a = 203 \<and> b = 0 \<and> c = 113"
    using octets_eq [of "unat c" 113 "unat a * 256 + unat b" "203 * 256 + 0"]
      octets_eq [of "unat b" 0 "unat a" 203] by (simp add: nums)
  show "in_net (Ipv4 240 0 0 0) 4 (Ipv4 a b c d) \<longleftrightarrow> 240 \<le> a"
    using unat_u8_less [of a] by (simp add: nums div_eq_bounds del: unat_u8_less)
qed (auto simp: v4_num_div u8_unat in_net_def div_eq_bounds)

text \<open>The classes as networks: the blocked IPv4 addresses are 169.254/16, 224/4, 0.0.0.0 and
  255.255.255.255; what is reserved for private use, loopback, sharing, documentation, benchmarking,
  0/8 and 240/4 is private; the rest is public.\<close>

theorem classify_v4_networks:
  "(classify_v4 v = Blocked \<longleftrightarrow>
      in_net (Ipv4 169 254 0 0) 16 v \<or> in_net (Ipv4 224 0 0 0) 4 v \<or>
      v = Ipv4 0 0 0 0 \<or> v = Ipv4 255 255 255 255) \<and>
   (classify_v4 v = Private \<longleftrightarrow>
      classify_v4 v \<noteq> Blocked \<and>
      (in_net (Ipv4 127 0 0 0) 8 v \<or> in_net (Ipv4 10 0 0 0) 8 v \<or> in_net (Ipv4 172 16 0 0) 12 v \<or>
       in_net (Ipv4 192 168 0 0) 16 v \<or> in_net (Ipv4 100 64 0 0) 10 v \<or>
       in_net (Ipv4 192 0 2 0) 24 v \<or> in_net (Ipv4 198 51 100 0) 24 v \<or>
       in_net (Ipv4 203 0 113 0) 24 v \<or> in_net (Ipv4 198 18 0 0) 15 v \<or>
       in_net (Ipv4 0 0 0 0) 8 v \<or> in_net (Ipv4 240 0 0 0) 4 v))"
proof (cases v)
  case (Ipv4 a b c d)
  then show ?thesis by (auto simp: in_net_octets classify_v4_def)
qed

end
