(* ===== verification/Proc_Policy.thy ===== *)
theory Proc_Policy
  imports Utf8 Precedence
begin

text \<open>
  The process lens of src/src/proc_policy.rs: the rule grammar and its glob, the lexical folding of a
  path, the verdict on one \<open>execve\<close>, and the three readings that find a second program inside one
  call (a dynamic loader's arguments, a \<open>#!\<close> line, a \<open>binfmt_misc\<close> handler).

  A path is a byte string. The glob walks characters, so it is modelled on \<open>chars\<close>; the byte offsets
  \<open>pi\<close>, \<open>ti\<close>, \<open>star\<close> and \<open>resume\<close> of its loop are the suffixes they stand for.
\<close>

section \<open>Folding a path\<close>

definition is_absolute :: "string \<Rightarrow> bool" where
  "is_absolute path = starts_with ''/'' path"

definition lex_step :: "bool \<Rightarrow> string list \<Rightarrow> string \<Rightarrow> string list" where
  "lex_step absolute out part =
     (if part = [] \<or> part = ''.'' then out
      else if part = ''..'' then
        (if out \<noteq> [] \<and> last out \<noteq> ''..'' then butlast out
         else if absolute then out else out @ [part])
      else out @ [part])"

definition is_folded_part :: "string \<Rightarrow> bool" where
  "is_folded_part part = (part = [] \<or> part = ''.'' \<or> part = ''..'')"

definition lexical_path :: "string \<Rightarrow> string" where
  "lexical_path path =
     (let absolute = is_absolute path;
          body = (if absolute then drop 1 path else path) in
      if path \<noteq> [] \<and> \<not> list_ex is_folded_part (split_on CHR ''/'' body) then path
      else let out = foldl (lex_step absolute) [] (split_on CHR ''/'' body);
               folded = (if absolute then concat (map (\<lambda>p. CHR ''/'' # p) out) else join ''/'' out) in
           if absolute \<and> folded = [] then ''/'' else folded)"

definition basename :: "string \<Rightarrow> string" where
  "basename path = after_last CHR ''/'' path"

section \<open>The glob\<close>

text \<open>Either the text the last star may still swallow shrinks, or the walk goes on under that star.\<close>

definition glob_rank :: "string list \<Rightarrow> (string list \<times> string list) option \<Rightarrow> nat" where
  "glob_rank t star =
     (if t = [] then 0
      else case star of None \<Rightarrow> length t + 2 | Some (s, resume) \<Rightarrow> max (length t) (length resume) + 1)"

function glob_loop :: "string list \<Rightarrow> string list \<Rightarrow> (string list \<times> string list) option \<Rightarrow> bool" where
  "glob_loop p [] star = (dropWhile (\<lambda>c. c = ''*'') p = [])"
| "glob_loop p (tc # t) star =
     (if p \<noteq> [] \<and> (hd p = ''?'' \<or> hd p = tc) then glob_loop (tl p) t star
      else if p \<noteq> [] \<and> hd p = ''*'' then glob_loop (tl p) (tc # t) (Some (tl p, tc # t))
      else case star of
             Some (s, resume) \<Rightarrow> glob_loop s (tl resume) (Some (s, tl resume))
           | None \<Rightarrow> False)"
  by pat_completeness auto

termination
  by (relation "inv_image (less_than <*lex*> less_than)
        (\<lambda>(p, t, star). (glob_rank t star, length p + length t))")
    (auto simp: glob_rank_def split: option.splits)

definition glob_match :: "string \<Rightarrow> string \<Rightarrow> bool" where
  "glob_match pattern text = glob_loop (chars pattern) (chars text) None"

section \<open>Rules and verdicts\<close>

datatype proc_mode = ProcOff | ProcObserve | ProcEnforce | ProcAsk | ProcConfine

definition proc_mode_parse :: "string \<Rightarrow> proc_mode option" where
  "proc_mode_parse s =
     (if s = ''off'' then Some ProcOff
      else if s = ''observe'' then Some ProcObserve
      else if s = ''enforce'' then Some ProcEnforce
      else if s = ''ask'' then Some ProcAsk
      else None)"

definition proc_mode_as_str :: "proc_mode \<Rightarrow> string" where
  "proc_mode_as_str m =
     (case m of ProcOff \<Rightarrow> ''off'' | ProcObserve \<Rightarrow> ''observe'' | ProcEnforce \<Rightarrow> ''enforce''
      | ProcAsk \<Rightarrow> ''ask'' | ProcConfine \<Rightarrow> ''confine'')"

definition mode_enforcing :: "proc_mode \<Rightarrow> bool" where
  "mode_enforcing m = (m = ProcEnforce \<or> m = ProcAsk \<or> m = ProcConfine)"

record proc_rule =
  pr_raw :: string
  pr_pattern :: string
  on_path :: bool

definition ProcRule_new :: "string \<Rightarrow> proc_rule" where
  "ProcRule_new s = \<lparr>pr_raw = s, pr_pattern = lexical_path s, on_path = (CHR ''/'' \<in> set s)\<rparr>"

definition proc_rule_matches :: "proc_rule \<Rightarrow> string \<Rightarrow> string \<Rightarrow> bool" where
  "proc_rule_matches r path base =
     (if pr_pattern r = [] then False
      else glob_match (pr_pattern r) (if on_path r then path else base))"

datatype rule_fault = EmptyRule | ControlRule | LongRule

definition validate_rule :: "string \<Rightarrow> rule_fault + unit" where
  "validate_rule rule =
     (let trimmed = trim rule in
      if trimmed = [] then Inl EmptyRule
      else if has_control trimmed then Inl ControlRule
      else if 256 < length (chars trimmed) then Inl LongRule
      else Inr ())"

datatype verdict = VAllow | VDeny | VAsk

fun stricter :: "verdict \<Rightarrow> verdict \<Rightarrow> verdict" where
  "stricter a b =
     (if a = VDeny \<or> b = VDeny then VDeny else if a = VAsk \<or> b = VAsk then VAsk else VAllow)"

text \<open>\<open>CallerGraph\<close>: the rules of each caller, a \<open>BTreeMap\<close> keyed by the caller's path.\<close>

type_synonym caller_graph = "string \<rightharpoonup> proc_rule list"

record proc_policy =
  pp_mode :: proc_mode
  pp_allow :: "proc_rule list"
  pp_deny :: "proc_rule list"
  pp_graph :: "caller_graph option"

definition ProcPolicy_off :: proc_policy where
  "ProcPolicy_off = \<lparr>pp_mode = ProcOff, pp_allow = [], pp_deny = [], pp_graph = None\<rparr>"

definition governs_nothing :: "proc_policy \<Rightarrow> bool" where
  "governs_nothing p =
     (pp_mode p = ProcEnforce \<and> pp_allow p = [] \<and> pp_deny p = [] \<and> Option.is_none (pp_graph p))"

definition ProcPolicy_confined :: "caller_graph \<Rightarrow> proc_policy" where
  "ProcPolicy_confined g = \<lparr>pp_mode = ProcConfine, pp_allow = [], pp_deny = [], pp_graph = Some g\<rparr>"

definition compile_rules :: "string list \<Rightarrow> proc_rule list" where
  "compile_rules rules = map (\<lambda>r. ProcRule_new (trim r)) (filter (\<lambda>r. trim r \<noteq> []) rules)"

definition ProcPolicy_new :: "proc_mode \<Rightarrow> string list \<Rightarrow> string list \<Rightarrow> proc_policy" where
  "ProcPolicy_new m allow deny =
     \<lparr>pp_mode = m, pp_allow = compile_rules allow, pp_deny = compile_rules deny, pp_graph = None\<rparr>"

definition enforcing :: "proc_policy \<Rightarrow> bool" where
  "enforcing p = mode_enforcing (pp_mode p)"

definition unmatched :: "proc_policy \<Rightarrow> verdict" where
  "unmatched p =
     (case pp_mode p of ProcAsk \<Rightarrow> VAsk | ProcConfine \<Rightarrow> VDeny
      | ProcOff \<Rightarrow> VAllow | ProcObserve \<Rightarrow> VAllow | ProcEnforce \<Rightarrow> VAllow)"

definition any_rule :: "proc_rule list \<Rightarrow> string \<Rightarrow> bool" where
  "any_rule rules path = list_ex (\<lambda>r. proc_rule_matches r path (basename path)) rules"

definition decide_chain ::
  "proc_policy \<Rightarrow> string list \<Rightarrow> string \<Rightarrow> proc_rule list \<Rightarrow> proc_rule list \<Rightarrow> verdict" where
  "decide_chain p caller exec_path overlay_allow overlay_deny =
     (let path = lexical_path exec_path in
      if any_rule (pp_deny p) path \<or> any_rule overlay_deny path then VDeny
      else case pp_graph p of
        Some g \<Rightarrow>
          (case (if caller = [] then None else g (lexical_path (last caller))) of
             Some rules \<Rightarrow> if any_rule rules path then VAllow else unmatched p
           | None \<Rightarrow> unmatched p)
      | None \<Rightarrow>
          if any_rule (pp_allow p) path \<or> any_rule overlay_allow path then VAllow
          else unmatched p)"

definition decide :: "proc_policy \<Rightarrow> string list \<Rightarrow> string \<Rightarrow> verdict" where
  "decide p caller exec_path = decide_chain p caller exec_path [] []"

section \<open>A dynamic loader's program\<close>

definition is_dynamic_loader :: "string \<Rightarrow> bool" where
  "is_dynamic_loader base =
     (contains_str ''.so'' base \<and> (starts_with ''ld-'' base \<or> starts_with ''ld.so'' base))"

definition LOADER_VALUE_OPTIONS :: "string list" where
  "LOADER_VALUE_OPTIONS =
     [''--library-path'', ''--preload'', ''--audit'', ''--argv0'', ''--inhibit-rpath'',
      ''--glibc-hwcaps-prepend'', ''--glibc-hwcaps-mask'']"

definition LOADER_FLAGS :: "string list" where
  "LOADER_FLAGS =
     [''--list'', ''--verify'', ''--inhibit-cache'', ''--list-tunables'', ''--list-diagnostics'',
      ''--help'', ''--version'']"

text \<open>The loop, on the words not yet read: \<open>None\<close> for a name that is not UTF-8, otherwise the names
  and whether the walk concluded.\<close>

fun loader_walk :: "string list \<Rightarrow> bool \<Rightarrow> string list \<Rightarrow> (string list \<times> bool) option" where
  "loader_walk [] uncertain out = Some (out, False)"
| "loader_walk (word # ws) uncertain out =
     (if word = ''--'' then
        (case ws of
           program # _ \<Rightarrow> if valid_utf8 program then Some (out @ [program], True) else None
         | [] \<Rightarrow> Some (out, False))
      else if starts_with ''--'' word then
        (if word \<in> set LOADER_VALUE_OPTIONS then loader_walk (drop 1 ws) uncertain out
         else loader_walk ws (uncertain \<or> word \<notin> set LOADER_FLAGS) out)
      else if valid_utf8 word then
        (if uncertain then loader_walk ws uncertain (out @ [word]) else Some (out @ [word], True))
      else None)"

definition loader_targets :: "string list \<Rightarrow> bool \<Rightarrow> string list option" where
  "loader_targets argv complete =
     (case loader_walk (drop 1 argv) False [] of
        None \<Rightarrow> None
      | Some (out, concluded) \<Rightarrow> if \<not> concluded \<and> \<not> complete then None else Some out)"

section \<open>A script's interpreter\<close>

definition SCRIPT_HEAD :: nat where
  "SCRIPT_HEAD = 256"

datatype script_head = NotScript | Interpreter string | Unsettled

definition is_blank :: "char \<Rightarrow> bool" where
  "is_blank b = (b = CHR '' '' \<or> b = CHR 0x09)"

definition ends_line :: "char \<Rightarrow> bool" where
  "ends_line b = (b = CHR 0x0A \<or> b = CHR 0x00)"

definition shebang_interpreter :: "string \<Rightarrow> script_head" where
  "shebang_interpreter head =
     (case strip_prefix ''#!'' head of
        None \<Rightarrow> NotScript
      | Some line \<Rightarrow>
          let truncated = (SCRIPT_HEAD \<le> length head);
              ended = (list_ex ends_line line \<or> \<not> truncated);
              line = takeWhile (\<lambda>b. \<not> ends_line b) line;
              rest = dropWhile is_blank line;
              word = takeWhile (\<lambda>b. \<not> is_blank b) rest
          in if word = [] \<or> (\<not> ended \<and> length word = length rest) then Unsettled
             else if valid_utf8 word \<and> starts_with ''/'' word then Interpreter (lexical_path word)
             else Unsettled)"

section \<open>\<open>binfmt_misc\<close> handlers\<close>

record binfmt_rule =
  bf_interpreter :: string
  bf_offset :: nat
  bf_magic :: "u8 list"
  bf_mask :: "u8 list"
  bf_extension :: string
  claims_all :: bool

text \<open>\<open>str::lines\<close>: a line feed ends a line, with a carriage return before it, and a last empty line is
  none.\<close>

definition strip_cr :: "string \<Rightarrow> string" where
  "strip_cr l = (case strip_suffix [CHR 0x0D] l of Some r \<Rightarrow> r | None \<Rightarrow> l)"

definition str_lines :: "string \<Rightarrow> string list" where
  "str_lines s =
     (let ps = split_on CHR 0x0A s in
      map strip_cr (butlast ps) @ (if last ps = [] then [] else [last ps]))"

text \<open>\<open>str::parse::<usize>\<close>, at 64 bits.\<close>

definition parse_usize :: "string \<Rightarrow> nat option" where
  "parse_usize s =
     (let ds = (case strip_prefix ''+'' s of Some r \<Rightarrow> r | None \<Rightarrow> s) in
      if ds = [] then None
      else case parse_digits 10 ds of
             Some n \<Rightarrow> if n < 2 ^ 64 then Some n else None
           | None \<Rightarrow> None)"

fun unhex_pairs :: "string \<Rightarrow> u8 list option" where
  "unhex_pairs [] = Some []"
| "unhex_pairs [a] = None"
| "unhex_pairs (a # b # s) =
     (case (parse_digits 16 [a, b], unhex_pairs s) of
        (Some n, Some bs) \<Rightarrow> Some (of_nat n # bs)
      | _ \<Rightarrow> None)"

definition unhex :: "string \<Rightarrow> u8 list option" where
  "unhex v =
     (let s = trim v in
      if even (length s) \<and> list_all is_ascii_hexdigit s then unhex_pairs s else None)"

definition binfmt_blank :: binfmt_rule where
  "binfmt_blank = \<lparr>bf_interpreter = [], bf_offset = 0, bf_magic = [], bf_mask = [],
     bf_extension = [], claims_all = False\<rparr>"

definition binfmt_field :: "string \<Rightarrow> string \<Rightarrow> binfmt_rule \<Rightarrow> binfmt_rule" where
  "binfmt_field key v rule =
     (if key = ''interpreter'' then rule\<lparr>bf_interpreter := trim v\<rparr>
      else if key = ''offset'' then
        (case parse_usize (trim v) of
           Some n \<Rightarrow> rule\<lparr>bf_offset := n\<rparr> | None \<Rightarrow> rule\<lparr>claims_all := True\<rparr>)
      else if key = ''magic'' then
        (case unhex v of Some m \<Rightarrow> rule\<lparr>bf_magic := m\<rparr> | None \<Rightarrow> rule\<lparr>claims_all := True\<rparr>)
      else if key = ''mask'' then
        (case unhex v of Some m \<Rightarrow> rule\<lparr>bf_mask := m\<rparr> | None \<Rightarrow> rule\<lparr>claims_all := True\<rparr>)
      else if key = ''extension'' then
        rule\<lparr>bf_extension := (case strip_prefix ''.'' (trim v) of Some r \<Rightarrow> r | None \<Rightarrow> trim v)\<rparr>
      else rule)"

definition binfmt_line :: "bool \<times> binfmt_rule \<Rightarrow> string \<Rightarrow> bool \<times> binfmt_rule" where
  "binfmt_line st line =
     (if trim line = ''enabled'' then (True, snd st)
      else case split_once CHR '' '' (trim line) of
        Some (key, v) \<Rightarrow> (fst st, binfmt_field key v (snd st))
      | None \<Rightarrow> st)"

definition parse_binfmt_rule :: "string \<Rightarrow> binfmt_rule option" where
  "parse_binfmt_rule txt =
     (let (enabled, rule) = foldl binfmt_line (False, binfmt_blank) (str_lines txt);
          rule' = (if bf_magic rule = [] \<and> bf_extension rule = [] then rule\<lparr>claims_all := True\<rparr> else rule)
      in if enabled \<and> bf_interpreter rule' \<noteq> [] then Some rule' else None)"

definition u8_of :: "char \<Rightarrow> u8" where
  "u8_of c = of_nat (of_char c)"

fun masked_eq :: "u8 list \<Rightarrow> u8 list \<Rightarrow> u8 list \<Rightarrow> bool" where
  "masked_eq mk [] ms = True"
| "masked_eq mk ws [] = True"
| "masked_eq mk (w # ws) (m # ms) =
     (let bits = (case mk of b # _ \<Rightarrow> b | [] \<Rightarrow> 0xff) in
      and w bits = and m bits \<and> masked_eq (drop 1 mk) ws ms)"

definition binfmt_claims :: "binfmt_rule \<Rightarrow> string \<Rightarrow> string \<Rightarrow> bool" where
  "binfmt_claims rule head path =
     (if claims_all rule then True
      else if bf_extension rule \<noteq> [] then
        (case rsplit_once CHR ''.'' (after_last CHR ''/'' path) of
           Some (_, ext) \<Rightarrow> ext = bf_extension rule
         | None \<Rightarrow> False)
      else
        (let stop = bf_offset rule + length (bf_magic rule) in
         if stop < 2 ^ 64 \<and> stop \<le> length head
         then masked_eq (bf_mask rule) (map u8_of (take (length (bf_magic rule)) (drop (bf_offset rule) head)))
                (bf_magic rule)
         else False))"

definition binfmt_interpreters :: "binfmt_rule list \<Rightarrow> string \<Rightarrow> string \<Rightarrow> string list" where
  "binfmt_interpreters rules head path =
     map bf_interpreter (filter (\<lambda>rule. binfmt_claims rule head path) rules)"

section \<open>What the glob matches\<close>

declare glob_loop.simps(2) [simp del]

text \<open>The glob as its documentation states it: \<open>*\<close> matches any run, \<open>?\<close> any one character.\<close>

fun glob_spec :: "string list \<Rightarrow> string list \<Rightarrow> bool" where
  "glob_spec [] t = (t = [])"
| "glob_spec (c # p) [] = (c = ''*'' \<and> glob_spec p [])"
| "glob_spec (c # p) (x # t) =
     (if c = ''*'' then glob_spec p (x # t) \<or> glob_spec (c # p) t
      else (c = ''?'' \<or> c = x) \<and> glob_spec p t)"

lemma glob_spec_star: "glob_spec (''*'' # p) t \<longleftrightarrow> (\<exists>k. glob_spec p (drop k t))"
proof (induction t)
  case (Cons x t)
  have "(\<exists>k. glob_spec p (drop k (x # t))) \<longleftrightarrow> glob_spec p (x # t) \<or> (\<exists>k. glob_spec p (drop k t))"
    by (metis drop0 drop_Suc_Cons not0_implies_Suc)
  with Cons show ?case by simp
qed simp

lemma glob_spec_Nil: "glob_spec p [] \<longleftrightarrow> dropWhile (\<lambda>c. c = ''*'') p = []"
  by (induction p) auto

text \<open>A part of the pattern without a star takes as many characters as it has.\<close>

lemma glob_spec_rigid:
  "''*'' \<notin> set q \<Longrightarrow> glob_spec (q @ p) t \<Longrightarrow>
     length q \<le> length t \<and> glob_spec p (drop (length q) t)"
proof (induction q arbitrary: t)
  case (Cons c q)
  then show ?case by (cases t) auto
qed simp

text \<open>What the loop knows of the last star: the pattern since it has matched the text since it,
  character for character.\<close>

definition star_inv :: "string list \<Rightarrow> string list \<Rightarrow> (string list \<times> string list) option \<Rightarrow> bool" where
  "star_inv p t star =
     (case star of None \<Rightarrow> True
      | Some (s, r) \<Rightarrow>
          (\<exists>q u. s = q @ p \<and> r = u @ t \<and> length q = length u \<and> ''*'' \<notin> set q))"

lemma star_inv_step:
  assumes "star_inv (c # p) (x # t) star" "c \<noteq> ''*''" shows "star_inv p t star"
proof (cases star)
  case (Some sr)
  with assms(1) obtain s r q u where sr: "star = Some (s, r)" "s = q @ c # p" "r = u @ x # t"
    "length q = length u" "''*'' \<notin> set q"
    by (auto simp: star_inv_def)
  then have "s = (q @ [c]) @ p \<and> r = (u @ [x]) @ t \<and> length (q @ [c]) = length (u @ [x]) \<and>
      ''*'' \<notin> set (q @ [c])"
    using assms(2) by simp
  with sr(1) show ?thesis unfolding star_inv_def by fastforce
qed (simp add: star_inv_def)

lemma star_inv_nonempty: "star_inv p (x # t) (Some (s, r)) \<Longrightarrow> r \<noteq> []"
  by (auto simp: star_inv_def)

lemma star_inv_new: "star_inv p t (Some (p, t))"
  by (simp add: star_inv_def)

lemma glob_loop_lit: "c = ''?'' \<or> c = tc \<Longrightarrow> glob_loop (c # p) (tc # t) star = glob_loop p t star"
  by (simp add: glob_loop.simps(2))

lemma glob_loop_star: "''*'' \<noteq> tc \<Longrightarrow>
    glob_loop (''*'' # p) (tc # t) star = glob_loop p (tc # t) (Some (p, tc # t))"
  by (subst glob_loop.simps(2)) auto

lemma glob_loop_miss:
  "p = [] \<or> (hd p \<noteq> ''?'' \<and> hd p \<noteq> tc \<and> hd p \<noteq> ''*'') \<Longrightarrow>
     glob_loop p (tc # t) star =
       (case star of Some (s, r) \<Rightarrow> glob_loop s (tl r) (Some (s, tl r)) | None \<Rightarrow> False)"
  by (subst glob_loop.simps(2)) auto



text \<open>Whether the star may still swallow more and match.\<close>

definition retries :: "(string list \<times> string list) option \<Rightarrow> bool" where
  "retries star = (case star of None \<Rightarrow> False | Some (s, r) \<Rightarrow> \<exists>k>0. glob_spec s (drop k r))"

lemma ex_drop: "(\<exists>k. P (drop k t)) \<longleftrightarrow> P t \<or> (\<exists>k>0. P (drop k t))"
  by (metis drop0 gr0I)

lemma retries_pos: "r \<noteq> [] \<Longrightarrow> (\<exists>k>0. P (drop k r)) \<longleftrightarrow> (\<exists>k. P (drop k (tl r)))"
  by (metis drop_Suc gr0_conv_Suc)

lemma retries_subsumed:
  assumes "star_inv (''*'' # p) t star" "retries star"
  shows "glob_spec (''*'' # p) t"
proof -
  from assms obtain s r q u k where st: "star = Some (s, r)" and s: "s = q @ ''*'' # p"
    and r: "r = u @ t" and l: "length q = length u" "''*'' \<notin> set q" and k: "glob_spec s (drop k r)"
    by (auto simp: star_inv_def retries_def split: option.splits)
  have "glob_spec (''*'' # p) (drop (length q) (drop k r))"
    using glob_spec_rigid [of q "''*'' # p"] k s l by blast
  also have "drop (length q) (drop k r) = drop k (drop (length u) r)" using l by (simp add: add.commute)
  also have "drop (length u) r = t" using r by simp
  finally show ?thesis by (metis drop_drop glob_spec_star)
qed

lemma retries_end:
  assumes "star_inv p [] star" "retries star" shows "glob_spec p []"
proof -
  from assms obtain s r q k where s: "s = q @ p" and l: "length q = length r" "''*'' \<notin> set q"
    and k: "0 < k" "glob_spec s (drop k r)"
    by (auto simp: star_inv_def retries_def split: option.splits)
  then have le: "length q \<le> length (drop k r)" and g: "glob_spec p (drop (length q) (drop k r))"
    using glob_spec_rigid [of q p "drop k r"] by auto
  from le l(1) \<open>0 < k\<close> have "r = []" by (cases r) auto
  with g show ?thesis by simp
qed

lemma glob_loop_spec:
  "''*'' \<notin> set t \<Longrightarrow> star_inv p t star \<Longrightarrow> (\<And>s r. star = Some (s, r) \<Longrightarrow> ''*'' \<notin> set r) \<Longrightarrow>
     glob_loop p t star \<longleftrightarrow> glob_spec p t \<or> retries star"
proof (induction p t star rule: glob_loop.induct)
  case (1 p star)
  then show ?case using retries_end by (auto simp: glob_spec_Nil)
next
  case (2 p tc t star)
  consider (lit) c p' where "p = c # p'" "c = ''?'' \<or> c = tc" "c \<noteq> ''*''"
    | (star) p' where "p = ''*'' # p'" "''*'' \<noteq> tc"
    | (miss) "p = [] \<or> (hd p \<noteq> ''?'' \<and> hd p \<noteq> tc \<and> hd p \<noteq> ''*'')"
    using "2.prems"(1) by (cases p) auto
  then show ?case
  proof cases
    case lit
    then have "star_inv p' t star" using star_inv_step "2.prems"(2) by blast
    with lit "2.prems" have "glob_loop p' t star \<longleftrightarrow> glob_spec p' t \<or> retries star"
      by (intro 2(1) [unfolded lit list.sel]) auto
    with lit show ?thesis by (auto simp: glob_loop_lit)
  next
    case star
    have "glob_loop p (tc # t) star \<longleftrightarrow> glob_spec p' (tc # t) \<or> retries (Some (p', tc # t))"
      using star 2(2) "2.prems"(1) by (simp add: star_inv_new glob_loop_star)
    also have "\<dots> \<longleftrightarrow> glob_spec p (tc # t)"
      unfolding star glob_spec_star ex_drop [of "glob_spec p'"] by (simp add: retries_def)
    finally show ?thesis using retries_subsumed "2.prems"(2) star by blast
  next
    case miss
    then have no: "\<not> glob_spec p (tc # t)" by (cases p) auto
    show ?thesis
    proof (cases star)
      case None
      with glob_loop_miss [OF miss] no show ?thesis by (simp add: retries_def)
    next
      case (Some sr)
      obtain s r where sr: "star = Some (s, r)" using Some by (cases sr) auto
      with "2.prems"(2) have r: "r \<noteq> []" using star_inv_nonempty by blast
      have "glob_loop p (tc # t) star \<longleftrightarrow> glob_spec s (tl r) \<or> retries (Some (s, tl r))"
        using miss sr 2(3) [of "(s, r)"] "2.prems"(3) r
        by (auto simp: star_inv_new glob_loop_miss [OF miss] dest: list.set_sel(2))
      also have "\<dots> \<longleftrightarrow> retries star"
        using retries_pos [OF r, of "glob_spec s"] ex_drop [of "glob_spec s" "tl r"]
        unfolding sr retries_def by simp
      finally show ?thesis using no by simp
    qed
  qed
qed

lemma star_char: "''*'' \<in> set (chars s) \<Longrightarrow> CHR ''*'' \<in> set s"
  by (metis concat_chars UN_I list.set_intros(1) set_concat)

text \<open>On a target with no \<open>*\<close> in its name the loop is the documented glob: it ends, and answers what
  the recursive definition answers, for every pattern.\<close>

theorem glob_match_documented:
  assumes "CHR ''*'' \<notin> set target"
  shows "glob_match pat target \<longleftrightarrow> glob_spec (chars pat) (chars target)"
  using glob_loop_spec [of "chars target" "chars pat" None] star_char [of target] assms
  by (auto simp: glob_match_def star_inv_def retries_def)

theorem glob_match_documented_witness:
  "glob_match ''/opt/*/bin/g?'' ''/opt/go/1.2/bin/gc'' \<longleftrightarrow>
     glob_spec (chars ''/opt/*/bin/g?'') (chars ''/opt/go/1.2/bin/gc'')"
  by (rule glob_match_documented) code_simp


section \<open>Folding keeps the file a path names\<close>

text \<open>How the kernel walks a path with no symbolic link on it, from the components of a directory.\<close>

definition resolve_step :: "string list \<Rightarrow> string \<Rightarrow> string list" where
  "resolve_step dir part =
     (if part = [] \<or> part = ''.'' then dir else if part = ''..'' then butlast dir else dir @ [part])"

definition resolve :: "string list \<Rightarrow> string \<Rightarrow> string list" where
  "resolve cwd path =
     foldl resolve_step (if is_absolute path then [] else cwd) (split_on CHR ''/'' path)"

text \<open>The components the folding keeps: real names, and for a relative path leading \<open>..\<close>.\<close>

definition kept :: "bool \<Rightarrow> string list \<Rightarrow> bool" where
  "kept absolute out = list_all (\<lambda>p. p \<noteq> [] \<and> p \<noteq> ''.'' \<and> \<not> (absolute \<and> p = ''..'')) out"

lemma kept_snoc [simp]:
  "kept a (out @ [p]) \<longleftrightarrow> kept a out \<and> p \<noteq> [] \<and> p \<noteq> ''.'' \<and> \<not> (a \<and> p = ''..'')"
  by (simp add: kept_def)

lemma kept_Nil [simp]: "kept a []"
  by (simp add: kept_def)

lemma lex_step_kept: "kept a out \<Longrightarrow> kept a (lex_step a out part)"
  by (cases out rule: rev_cases) (auto simp: lex_step_def kept_def)

lemma lex_fold_kept: "kept a out \<Longrightarrow> kept a (foldl (lex_step a) out parts)"
  by (induction parts arbitrary: out) (auto simp: lex_step_kept)

lemma lex_step_resolve:
  assumes "kept a out" "a \<longrightarrow> dir = []"
  shows "foldl resolve_step dir (lex_step a out part) = resolve_step (foldl resolve_step dir out) part"
  using assms by (cases out rule: rev_cases) (auto simp: lex_step_def resolve_step_def)

lemma lex_fold_resolve:
  assumes "kept a out" "a \<longrightarrow> dir = []"
  shows "foldl resolve_step dir (foldl (lex_step a) out parts) =
         foldl resolve_step (foldl resolve_step dir out) parts"
  using assms by (induction parts arbitrary: out) (auto simp: lex_step_kept lex_step_resolve)

lemma lex_fold_parts:
  assumes "p \<in> set (foldl (lex_step a) out parts)"
  shows "p \<in> set out \<or> p \<in> set parts"
  using assms
proof (induction parts arbitrary: out)
  case (Cons x parts)
  then have "p \<in> set (lex_step a out x) \<or> p \<in> set parts" by simp
  then show ?case by (auto simp: lex_step_def dest: in_set_butlastD split: if_splits)
qed simp

lemma is_absolute_Cons: "is_absolute path \<longleftrightarrow> (\<exists>body. path = CHR ''/'' # body)"
  by (auto simp: is_absolute_def starts_with_iff prefix_def)

lemma concat_slashes: "out \<noteq> [] \<Longrightarrow> concat (map (\<lambda>p. CHR ''/'' # p) out) = CHR ''/'' # join ''/'' out"
  by (induction "''/''" out rule: join.induct) auto

lemma resolve_rendered:
  assumes "kept a out" "\<And>p. p \<in> set out \<Longrightarrow> CHR ''/'' \<notin> set p"
  shows "resolve cwd ((if a then ''/'' else []) @ join ''/'' out) =
         foldl resolve_step (if a then [] else cwd) out"
proof (cases "out = []")
  case True
  then show ?thesis
    by (auto simp: resolve_def is_absolute_def starts_with_iff resolve_step_def)
next
  case False
  then have sp: "split_on CHR ''/'' (join ''/'' out) = out" using assms(2) by (rule split_on_join)
  obtain p ps where out: "out = p # ps" using False by (cases out) auto
  have "\<not> is_absolute (join ''/'' out)"
    using assms(1) assms(2) [of p] unfolding out is_absolute_Cons kept_def
    by (cases p; cases ps) auto
  with sp show ?thesis
    by (cases a) (simp_all add: resolve_def is_absolute_def starts_with_iff resolve_step_def)
qed

lemma lexical_path_form:
  obtains out where "lexical_path path = (if is_absolute path then ''/'' else []) @ join ''/'' out"
    "kept (is_absolute path) out" "\<And>p. p \<in> set out \<Longrightarrow> CHR ''/'' \<notin> set p"
    "out = foldl (lex_step (is_absolute path)) []
             (split_on CHR ''/'' (if is_absolute path then drop 1 path else path))"
proof -
  let ?a = "is_absolute path"
  let ?body = "if ?a then drop 1 path else path"
  let ?parts = "split_on CHR ''/'' ?body"
  let ?out = "foldl (lex_step ?a) [] ?parts"
  have plain: "foldl (lex_step ?a) acc ps = acc @ ps" if "\<not> list_ex is_folded_part ps" for acc ps
    using that by (induction ps arbitrary: acc) (auto simp: lex_step_def is_folded_part_def)
  have path: "path = (if ?a then ''/'' else []) @ ?body" by (auto simp: is_absolute_Cons)
  have "lexical_path path = (if ?a then ''/'' else []) @ join ''/'' ?out"
  proof (cases "path \<noteq> [] \<and> \<not> list_ex is_folded_part ?parts")
    case True
    then have "?out = ?parts" by (simp add: plain)
    then have body: "join ''/'' ?out = ?body" by (simp only: join_split_on)
    have "lexical_path path = path" using True by (simp add: lexical_path_def Let_def)
    then show ?thesis unfolding body using path by (rule trans)
  next
    case False
    then show ?thesis
      by (auto simp: lexical_path_def Let_def concat_slashes)
  qed
  moreover have "CHR ''/'' \<notin> set p" if "p \<in> set ?out" for p
    using lex_fold_parts [OF that] split_on_pieces [of p "CHR ''/''" ?body] by simp
  ultimately show thesis using that lex_fold_kept [OF kept_Nil] by blast
qed

text \<open>Folding a path never changes which file it names: resolved component by component from any
  working directory, the folded path and the one that was written lead to the same place.\<close>

theorem lexical_path_resolves: "resolve cwd (lexical_path path) = resolve cwd path"
proof -
  obtain out where f: "lexical_path path = (if is_absolute path then ''/'' else []) @ join ''/'' out"
    "kept (is_absolute path) out" "\<And>p. p \<in> set out \<Longrightarrow> CHR ''/'' \<notin> set p"
    and out: "out = foldl (lex_step (is_absolute path)) []
             (split_on CHR ''/'' (if is_absolute path then drop 1 path else path))"
    using lexical_path_form by blast
  have "resolve cwd (lexical_path path) = foldl resolve_step (if is_absolute path then [] else cwd) out"
    unfolding f(1) by (rule resolve_rendered [OF f(2,3)])
  also have "\<dots> = resolve cwd path"
    unfolding out by (subst lex_fold_resolve) (auto simp: resolve_def is_absolute_Cons resolve_step_def)
  finally show ?thesis .
qed

lemma lex_fold_absolute:
  "''..'' \<notin> set out \<Longrightarrow> foldl (lex_step True) out parts = foldl resolve_step out parts"
proof (induction parts arbitrary: out)
  case (Cons p parts)
  have "lex_step True out p = resolve_step out p"
    using Cons.prems by (cases out rule: rev_cases) (auto simp: lex_step_def resolve_step_def)
  moreover have "''..'' \<notin> set (resolve_step out p)"
    using Cons.prems by (auto simp: resolve_step_def dest: in_set_butlastD)
  ultimately show ?case using Cons.IH by simp
qed simp

lemma lexical_path_absolute:
  assumes "is_absolute path"
  shows "lexical_path path = ''/'' @ join ''/'' (resolve [] path)"
proof -
  obtain out where "lexical_path path = ''/'' @ join ''/'' out"
    and out: "out = foldl (lex_step True) [] (split_on CHR ''/'' (drop 1 path))"
    using lexical_path_form [of path] assms by auto
  moreover have "out = resolve [] path"
    using assms unfolding out by (auto simp: lex_fold_absolute resolve_def is_absolute_Cons resolve_step_def)
  ultimately show ?thesis by simp
qed

text \<open>C11. No respelling of a target changes its verdict: two absolute paths that lead to the same file
  are decided alike under every policy, caller and overlay.\<close>

theorem decide_same_file:
  assumes "is_absolute path" "is_absolute path'" "resolve [] path = resolve [] path'"
  shows "decide_chain pol caller path oa od = decide_chain pol caller path' oa od"
  using assms by (simp add: decide_chain_def lexical_path_absolute)

definition sample_policy :: proc_policy where
  "sample_policy = ProcPolicy_new ProcEnforce [] [''/usr/bin/curl'', ''nc'']"

theorem decide_same_file_witness:
  "decide_chain sample_policy [] ''/usr//bin/../bin/./curl'' [] [] = VDeny \<and>
   decide_chain sample_policy [] ''/usr/bin/curl'' [] [] = VDeny"
proof -
  have "decide_chain sample_policy [] ''/usr//bin/../bin/./curl'' [] [] =
        decide_chain sample_policy [] ''/usr/bin/curl'' [] []"
    by (rule decide_same_file; code_simp)
  moreover have "decide_chain sample_policy [] ''/usr/bin/curl'' [] [] = VDeny" by code_simp
  ultimately show ?thesis by simp
qed

section \<open>The verdict on one execve\<close>

text \<open>What answers for a caller: the policy, the caller chain and the live overlay. The rules that may
  allow it are the caller's node under a graph, and the two allow lists otherwise.\<close>

type_synonym proc_plane = "proc_policy \<times> string list \<times> proc_rule list \<times> proc_rule list"

definition plane_deny :: "proc_plane \<Rightarrow> proc_rule list" where
  "plane_deny pl = (case pl of (p, caller, oa, od) \<Rightarrow> pp_deny p @ od)"

definition plane_allow :: "proc_plane \<Rightarrow> proc_rule list" where
  "plane_allow pl =
     (case pl of (p, caller, oa, od) \<Rightarrow>
        (case pp_graph p of
           None \<Rightarrow> pp_allow p @ oa
         | Some g \<Rightarrow>
             if caller = [] then []
             else (case g (lexical_path (last caller)) of Some rules \<Rightarrow> rules | None \<Rightarrow> [])))"

definition hits :: "proc_rule \<Rightarrow> string \<Rightarrow> bool" where
  "hits r path = proc_rule_matches r (lexical_path path) (basename (lexical_path path))"

definition runs :: "proc_plane \<Rightarrow> string \<Rightarrow> bool" where
  "runs pl path = (case pl of (p, caller, oa, od) \<Rightarrow> decide_chain p caller path oa od = VAllow)"

lemma any_rule_iff: "any_rule rules (lexical_path path) \<longleftrightarrow> (\<exists>r \<in> set rules. hits r path)"
  by (simp add: any_rule_def hits_def list_ex_iff)

lemma decide_chain_eq:
  "decide_chain p caller path oa od =
     (if \<exists>r \<in> set (plane_deny (p, caller, oa, od)). hits r path then VDeny
      else if \<exists>r \<in> set (plane_allow (p, caller, oa, od)). hits r path then VAllow
      else unmatched p)"
  by (auto simp: decide_chain_def any_rule_iff plane_deny_def plane_allow_def Let_def split: option.split)

lemma unmatched_simps [simp]:
  "unmatched p = VDeny \<longleftrightarrow> pp_mode p = ProcConfine" "unmatched p = VAsk \<longleftrightarrow> pp_mode p = ProcAsk"
  "unmatched p = VAllow \<longleftrightarrow> pp_mode p \<notin> {ProcAsk, ProcConfine}"
  by (cases "pp_mode p"; simp add: unmatched_def)+

interpretation proc: deny_wins plane_deny plane_allow hits hits
  "\<lambda>pl _. unmatched (fst pl) = VAllow" runs
  by unfold_locales (auto simp: runs_def decide_chain_eq)

text \<open>C10. The verdict in full: a target is refused when a deny rule of the policy or the overlay matches
  it, or nothing allows it and the posture is an allowlist; it runs when no deny rule matches and
  either an allow rule does or the posture is neither \<open>ask\<close> nor an allowlist; it is asked about
  otherwise. Under a caller graph only the caller's own node allows.\<close>

theorem decide_chain_verdict:
  "(decide_chain p caller path oa od = VDeny \<longleftrightarrow>
      list_ex (\<lambda>r. hits r path) (pp_deny p @ od) \<or>
      (\<not> list_ex (\<lambda>r. hits r path) (plane_allow (p, caller, oa, od)) \<and> pp_mode p = ProcConfine)) \<and>
   (decide_chain p caller path oa od = VAllow \<longleftrightarrow>
      \<not> list_ex (\<lambda>r. hits r path) (pp_deny p @ od) \<and>
      (list_ex (\<lambda>r. hits r path) (plane_allow (p, caller, oa, od)) \<or>
       pp_mode p \<in> {ProcOff, ProcObserve, ProcEnforce})) \<and>
   (decide_chain p caller path oa od = VAsk \<longleftrightarrow>
      \<not> list_ex (\<lambda>r. hits r path) (pp_deny p @ od) \<and>
      \<not> list_ex (\<lambda>r. hits r path) (plane_allow (p, caller, oa, od)) \<and> pp_mode p = ProcAsk)"
  using proc.opens_iff [of "(p, caller, oa, od)" path]
  by (cases "pp_mode p") (auto simp: decide_chain_eq plane_deny_def list_ex_iff)



section \<open>A loader cannot hide its program\<close>

text \<open>What the loader itself does with its arguments: \<open>takes_value\<close> tells, for an option neither list
  names, whether this loader's next word is its value.\<close>

fun ld_program :: "(string \<Rightarrow> bool) \<Rightarrow> string list \<Rightarrow> string option" where
  "ld_program takes_value [] = None"
| "ld_program takes_value (w # ws) =
     (if w = ''--'' then (case ws of p # _ \<Rightarrow> Some p | [] \<Rightarrow> None)
      else if starts_with ''--'' w then
        (if w \<in> set LOADER_VALUE_OPTIONS \<or> (w \<notin> set LOADER_FLAGS \<and> takes_value w)
         then ld_program takes_value (drop 1 ws) else ld_program takes_value ws)
      else Some w)"

text \<open>The value of an option neither list names does not itself read as an option that ends or steps
  over words.\<close>

fun plain_values :: "(string \<Rightarrow> bool) \<Rightarrow> string list \<Rightarrow> bool" where
  "plain_values takes_value [] = True"
| "plain_values takes_value (w # ws) =
     ((takes_value w \<and> ws \<noteq> [] \<longrightarrow> hd ws \<notin> set LOADER_VALUE_OPTIONS \<and> hd ws \<noteq> ''--'') \<and>
      plain_values takes_value ws)"

lemma plain_values_tail: "plain_values tv ws \<Longrightarrow> plain_values tv (drop 1 ws)"
  by (cases ws) auto

lemma loader_walk_keeps: "loader_walk ws u out = Some (out', c) \<Longrightarrow> set out \<subseteq> set out'"
proof (induction ws u out arbitrary: out' rule: loader_walk.induct)
  case (2 word ws uncertain out)
  then show ?case by (fastforce split: if_splits list.splits)
qed simp

text \<open>Once an option is not known, skipping a word the loader reads as a value does no harm: the walk
  either names that word or skips it too.\<close>

lemma loader_walk_finds:
  "loader_walk ws u out = Some (out', c) \<Longrightarrow> ld_program tv ws = Some p \<Longrightarrow> plain_values tv ws \<Longrightarrow>
     p \<in> set out'"
proof (induction "length ws" arbitrary: ws u out rule: less_induct)
  case less
  show ?case
  proof (cases ws)
    case Nil
    then show ?thesis using less.prems by simp
  next
    case (Cons w rest)
    note IH = less.hyps
    have tail: "plain_values tv rest" "plain_values tv (drop 1 rest)"
      using less.prems(3) plain_values_tail [of tv rest] unfolding Cons by auto
    consider (dd) "w = ''--''" | (val) "w \<noteq> ''--''" "starts_with ''--'' w" "w \<in> set LOADER_VALUE_OPTIONS"
      | (opt) "w \<noteq> ''--''" "starts_with ''--'' w" "w \<notin> set LOADER_VALUE_OPTIONS"
      | (prog) "w \<noteq> ''--''" "\<not> starts_with ''--'' w" by blast
    then show ?thesis
    proof cases
      case dd
      with less.prems Cons show ?thesis by (auto split: list.splits if_splits)
    next
      case val
      with less.prems Cons tail show ?thesis by (intro IH [of "drop 1 rest"]) auto
    next
      case prog
      with less.prems Cons have "loader_walk rest u (out @ [w]) = Some (out', c) \<or> out' = out @ [w]"
        and "p = w" by (auto split: if_splits)
      then show ?thesis using loader_walk_keeps by fastforce
    next
      case opt
      define u' where "u' = (u \<or> w \<notin> set LOADER_FLAGS)"
      have walk: "loader_walk rest u' out = Some (out', c)"
        using less.prems(1) opt unfolding Cons u'_def by simp
      show ?thesis
      proof (cases "w \<notin> set LOADER_FLAGS \<and> tv w \<and> rest \<noteq> []")
        case False
        then have "ld_program tv rest = Some p" using less.prems(2) opt unfolding Cons
          by (cases rest) (auto split: if_splits)
        with walk tail show ?thesis using Cons by (intro IH [of rest]) auto
      next
        case True
        then obtain v vs where rest: "rest = v # vs" by (cases rest) auto
        have v: "v \<notin> set LOADER_VALUE_OPTIONS" "v \<noteq> ''--''"
          using less.prems(3) True unfolding Cons rest by auto
        have "u'" using True by (simp add: u'_def)
        then obtain u'' out'' where "loader_walk vs u'' out'' = Some (out', c)"
          using walk v unfolding rest by (auto split: if_splits)
        moreover have "ld_program tv vs = Some p"
          using less.prems(2) opt True unfolding Cons rest by simp
        ultimately show ?thesis using tail Cons rest by (intro IH [of vs]) auto
      qed
    qed
  qed
qed

text \<open>A walk that concluded read only words it was given.\<close>

lemma loader_walk_prefix:
  "loader_walk ws u out = Some (out', True) \<Longrightarrow> loader_walk (ws @ extra) u out = Some (out', True)"
proof (induction ws u out rule: loader_walk.induct)
  case (2 word ws uncertain out)
  then show ?case by (cases ws) (auto split: if_splits)
qed simp



text \<open>The limit is real: after an unknown option that takes a value, a value spelled like an option
  with a value makes the walk step over the program, and the settled answer names nothing.\<close>

theorem loader_unknown_value_missed:
  "loader_targets [''ld.so'', ''--new'', ''--preload'', ''/usr/bin/curl''] True = Some [] \<and>
   ld_program (\<lambda>w. w = ''--new'') [''--new'', ''--preload'', ''/usr/bin/curl''] = Some ''/usr/bin/curl''"
  by code_simp

text \<open>The options in front of the program are all known.\<close>

fun known_options :: "string list \<Rightarrow> bool" where
  "known_options [] = True"
| "known_options (w # ws) =
     (if w = ''--'' \<or> \<not> starts_with ''--'' w then True
      else if w \<in> set LOADER_VALUE_OPTIONS then known_options (drop 1 ws)
      else w \<in> set LOADER_FLAGS \<and> known_options ws)"

lemma loader_walk_known:
  "known_options ws \<Longrightarrow> loader_walk ws False out =
     (case ld_program tv ws of
        None \<Rightarrow> Some (out, False)
      | Some p \<Rightarrow> if valid_utf8 p then Some (out @ [p], True) else None)"
proof (induction ws "False" out rule: loader_walk.induct)
  case (2 word ws out)
  then show ?case by (auto split: list.splits if_splits)
qed simp

text \<open>In front of known options the answer is exact: the loader's program alone, or nothing when it
  names none, so the program's own arguments are never decided as programs; a name that is not UTF-8
  is unsettled.\<close>

theorem loader_targets_exact:
  assumes "known_options (drop 1 argv)"
  shows "loader_targets argv True =
     (case ld_program takes_value (drop 1 argv) of
        None \<Rightarrow> Some []
      | Some p \<Rightarrow> if valid_utf8 p then Some [p] else None)"
  using loader_walk_known [OF assms, of "[]" takes_value]
  by (auto simp: loader_targets_def split: option.splits if_splits)

theorem loader_targets_exact_witness:
  "loader_targets [''ld.so'', ''--argv0'', ''x'', ''/bin/grep'', ''--new'', ''curl''] True =
     Some [''/bin/grep'']"
  by (subst loader_targets_exact [of _ "\<lambda>_. False"]) code_simp+

section \<open>A script cannot hide its interpreter\<close>

lemma blank_not_end: "is_blank b \<Longrightarrow> \<not> ends_line b"
  by (auto simp: is_blank_def ends_line_def)

lemma takeWhile_stop: "list_all P xs \<Longrightarrow> ys = [] \<or> \<not> P (hd ys) \<Longrightarrow> takeWhile P (xs @ ys) = xs"
  by (induction xs) (cases ys; auto)+

lemma dropWhile_stop: "list_all P xs \<Longrightarrow> ys = [] \<or> \<not> P (hd ys) \<Longrightarrow> dropWhile P (xs @ ys) = ys"
  by (induction xs) (cases ys; auto)+

lemma hd_append_cases:
  "xs = [] \<or> P (hd xs) \<Longrightarrow> ys = [] \<or> Q (hd ys) \<Longrightarrow>
     xs @ ys = [] \<or> P (hd (xs @ ys)) \<or> Q (hd (xs @ ys))"
  by (cases xs) auto

lemma hd_dropWhile_not: "dropWhile (\<lambda>b. \<not> P b) xs = [] \<or> P (hd (dropWhile (\<lambda>b. \<not> P b) xs))"
  using hd_dropWhile [of "\<lambda>b. \<not> P b" xs] by blast

text \<open>The cut of a line into blanks, a word and what ends it is unique.\<close>

definition shebang_cut :: "string \<Rightarrow> string \<Rightarrow> string \<Rightarrow> string \<Rightarrow> bool" where
  "shebang_cut line blanks word rest \<longleftrightarrow> line = blanks @ word @ rest \<and> list_all is_blank blanks \<and>
     word \<noteq> [] \<and> list_all (\<lambda>b. \<not> is_blank b \<and> \<not> ends_line b) word \<and>
     (rest = [] \<or> is_blank (hd rest) \<or> ends_line (hd rest))"

definition read_line :: "string \<Rightarrow> string" where
  "read_line line = dropWhile is_blank (takeWhile (\<lambda>b. \<not> ends_line b) line)"

definition read_word :: "string \<Rightarrow> string" where
  "read_word line = takeWhile (\<lambda>b. \<not> is_blank b) (read_line line)"

lemma cut_read:
  assumes "shebang_cut line blanks word rest"
  shows "read_word line = word"
    and "length word = length (read_line line) \<longleftrightarrow> rest = [] \<or> ends_line (hd rest)"
    and "rest = [] \<Longrightarrow> \<not> list_ex ends_line line"
    and "rest \<noteq> [] \<Longrightarrow> ends_line (hd rest) \<Longrightarrow> list_ex ends_line line"
proof -
  define t where "t = takeWhile (\<lambda>b. \<not> ends_line b) rest"
  have c: "line = (blanks @ word) @ rest" "list_all is_blank blanks" "word \<noteq> []"
    "list_all (\<lambda>b. \<not> is_blank b) word" "list_all (\<lambda>b. \<not> ends_line b) (blanks @ word)"
    "rest = [] \<or> is_blank (hd rest) \<or> ends_line (hd rest)"
    using assms blank_not_end by (auto simp: shebang_cut_def list_all_iff)
  have "takeWhile (\<lambda>b. \<not> ends_line b) line = blanks @ word @ t"
    unfolding c(1) t_def using c(5) by (subst takeWhile_append2) (auto simp: list_all_iff)
  moreover have "\<not> is_blank (hd (word @ t))" using c(3,4) by (cases word) auto
  ultimately have rl: "read_line line = word @ t"
    unfolding read_line_def using dropWhile_stop [OF c(2)] by simp
  have t: "t = [] \<or> is_blank (hd t)" "t = [] \<longleftrightarrow> rest = [] \<or> ends_line (hd rest)"
    using c(6) blank_not_end by (cases rest; auto simp: t_def)+
  then show "read_word line = word"
    unfolding read_word_def rl using c(4) by (intro takeWhile_stop) auto
  show "length word = length (read_line line) \<longleftrightarrow> rest = [] \<or> ends_line (hd rest)"
    unfolding rl t(2) [symmetric] by simp
  show "rest = [] \<Longrightarrow> \<not> list_ex ends_line line"
    using c(1,5) by (auto simp: list_ex_iff list_all_iff)
  show "rest \<noteq> [] \<Longrightarrow> ends_line (hd rest) \<Longrightarrow> list_ex ends_line line"
    using c(1) by (cases rest) auto
qed

lemma cut_exists:
  assumes "read_word line \<noteq> []"
  obtains blanks rest where "shebang_cut line blanks (read_word line) rest"
proof -
  let ?l = "takeWhile (\<lambda>b. \<not> ends_line b) line"
  let ?b = "takeWhile is_blank ?l"
  let ?r = "dropWhile (\<lambda>b. \<not> is_blank b) (read_line line) @ dropWhile (\<lambda>b. \<not> ends_line b) line"
  have "?b @ read_word line @ ?r = ?l @ dropWhile (\<lambda>b. \<not> ends_line b) line"
    by (simp only: append_assoc [symmetric] read_word_def takeWhile_dropWhile_id)
      (simp only: append_assoc read_line_def takeWhile_dropWhile_id)
  then have "line = ?b @ read_word line @ ?r" by simp
  moreover have "?r = [] \<or> is_blank (hd ?r) \<or> ends_line (hd ?r)"
    by (rule hd_append_cases; rule hd_dropWhile_not)
  moreover have "list_all (\<lambda>b. \<not> is_blank b \<and> \<not> ends_line b) (read_word line)"
    by (auto simp: list_all_iff read_word_def read_line_def dest!: set_takeWhileD set_dropWhileD)
  moreover have "list_all is_blank ?b"
    by (auto simp: list_all_iff dest: set_takeWhileD)
  ultimately have "shebang_cut line ?b (read_word line) ?r"
    unfolding shebang_cut_def using assms by blast
  then show thesis by (rule that)
qed

lemma shebang_interpreter_eq:
  "shebang_interpreter (''#!'' @ line) = Interpreter path \<longleftrightarrow>
     read_word line \<noteq> [] \<and> is_absolute (read_word line) \<and> valid_utf8 (read_word line) \<and>
     path = lexical_path (read_word line) \<and>
     (list_ex ends_line line \<or> length line + 2 < SCRIPT_HEAD \<or>
      length (read_word line) \<noteq> length (read_line line))"
  by (auto simp: shebang_interpreter_def read_word_def read_line_def is_absolute_def Let_def)

text \<open>The \<open>#!\<close> reading in full. A head names an interpreter exactly when it is \<open>#!\<close>, blanks, an
  absolute UTF-8 word without blanks or line ends, and then something that ends the word: a blank, a
  line end, or the end of a file shorter than the kernel's buffer. A word the buffer's edge cut is
  never taken for a name.\<close>

theorem shebang_interpreter_iff:
  "shebang_interpreter head = Interpreter path \<longleftrightarrow>
     (\<exists>blanks word rest. head = ''#!'' @ blanks @ word @ rest \<and> path = lexical_path word \<and>
        list_all is_blank blanks \<and> list_all (\<lambda>b. \<not> is_blank b \<and> \<not> ends_line b) word \<and>
        is_absolute word \<and> valid_utf8 word \<and>
        (if rest = [] then length head < SCRIPT_HEAD else is_blank (hd rest) \<or> ends_line (hd rest)))"
  (is "_ \<longleftrightarrow> ?R")
proof
  assume L: "shebang_interpreter head = Interpreter path"
  then obtain line where head: "head = ''#!'' @ line"
    by (auto simp: shebang_interpreter_def strip_prefix_Some split: option.splits)
  note E = L [unfolded head shebang_interpreter_eq]
  obtain blanks word rest where cut: "shebang_cut line blanks word rest"
    using cut_exists E by blast
  note W = E [unfolded cut_read(1,2) [OF cut]]
  have e: "if rest = [] then length head < SCRIPT_HEAD else is_blank (hd rest) \<or> ends_line (hd rest)"
    using W cut_read(3) [OF cut] cut head by (cases "rest = []") (simp_all add: shebang_cut_def)
  have "head = ''#!'' @ blanks @ word @ rest" using cut head by (simp add: shebang_cut_def)
  with e cut W show ?R unfolding shebang_cut_def by blast
next
  assume ?R
  then obtain blanks word rest where head: "head = ''#!'' @ blanks @ word @ rest"
    and *: "path = lexical_path word" "is_absolute word" "valid_utf8 word"
    and e: "if rest = [] then length head < SCRIPT_HEAD else is_blank (hd rest) \<or> ends_line (hd rest)"
    and c: "list_all is_blank blanks" "list_all (\<lambda>b. \<not> is_blank b \<and> \<not> ends_line b) word"
    by blast
  have cut: "shebang_cut (blanks @ word @ rest) blanks word rest"
    using c e *(2) unfolding shebang_cut_def is_absolute_Cons by (cases "rest = []") auto
  show "shebang_interpreter head = Interpreter path"
    unfolding head shebang_interpreter_eq cut_read(1,2) [OF cut]
    using * e cut cut_read(4) [OF cut] blank_not_end head
    by (cases "rest = []") (auto simp: shebang_cut_def)
qed

section \<open>A handler that cannot be read is never looser than the kernel\<close>

text \<open>A line whose match cannot be read.\<close>

definition unreadable :: "string \<Rightarrow> bool" where
  "unreadable line =
     (trim line \<noteq> ''enabled'' \<and>
      (case split_once CHR '' '' (trim line) of
         Some (key, v) \<Rightarrow>
           (key = ''offset'' \<and> parse_usize (trim v) = None) \<or>
           (key = ''magic'' \<and> unhex v = None) \<or> (key = ''mask'' \<and> unhex v = None)
       | None \<Rightarrow> False))"

lemma binfmt_field_keeps: "claims_all rule \<Longrightarrow> claims_all (binfmt_field key v rule)"
  unfolding binfmt_field_def by (simp split: option.split)

lemma binfmt_field_unreadable:
  "parse_usize (trim v) = None \<Longrightarrow> claims_all (binfmt_field ''offset'' v rule)"
  "unhex v = None \<Longrightarrow> claims_all (binfmt_field ''magic'' v rule)"
  "unhex v = None \<Longrightarrow> claims_all (binfmt_field ''mask'' v rule)"
  unfolding binfmt_field_def by simp_all

lemma binfmt_line_claims:
  "claims_all (snd st) \<or> unreadable l \<Longrightarrow> claims_all (snd (binfmt_line st l))"
  unfolding binfmt_line_def unreadable_def by (auto split: option.splits intro: binfmt_field_keeps binfmt_field_unreadable)

lemma binfmt_fold_claims:
  "claims_all (snd st) \<or> list_ex unreadable ls \<Longrightarrow> claims_all (snd (foldl binfmt_line st ls))"
proof (induction ls arbitrary: st)
  case (Cons l ls)
  then have "claims_all (snd (binfmt_line st l)) \<or> list_ex unreadable ls"
    using binfmt_line_claims [of st l] by auto
  then show ?case using Cons.IH [of "binfmt_line st l"] by simp
qed simp

text \<open>A \<open>binfmt_misc\<close> handler whose offset, magic or mask cannot be read is taken to claim every file:
  if it runs anything at all, its interpreter is among those decided for every head and path.\<close>

theorem binfmt_unreadable_claims:
  assumes "l \<in> set (str_lines txt)" "unreadable l"
    and "parse_binfmt_rule txt = Some rule" "rule \<in> set rules"
  shows "bf_interpreter rule \<in> set (binfmt_interpreters rules head path)"
proof -
  have "claims_all (snd (foldl binfmt_line (False, binfmt_blank) (str_lines txt)))"
    using assms(1,2) by (intro binfmt_fold_claims) (auto simp: list_ex_iff)
  then have "claims_all rule"
    using assms(3) by (auto simp: parse_binfmt_rule_def Let_def split: prod.splits if_splits)
  with assms(4) show ?thesis by (auto simp: binfmt_interpreters_def binfmt_claims_def)
qed

definition sample_binfmt :: string where
  "sample_binfmt = ''enabled'' @ [CHR 0x0A] @ ''interpreter /usr/bin/qemu'' @ [CHR 0x0A] @ ''magic 7f4''"

theorem binfmt_unreadable_claims_witness:
  "bf_interpreter (the (parse_binfmt_rule sample_binfmt)) \<in>
     set (binfmt_interpreters [the (parse_binfmt_rule sample_binfmt)] ''x'' ''/bin/x'')"
proof (rule binfmt_unreadable_claims [of "''magic 7f4''" sample_binfmt])
  show "''magic 7f4'' \<in> set (str_lines sample_binfmt)" "unreadable ''magic 7f4''" by code_simp+
  have "\<not> Option.is_none (parse_binfmt_rule sample_binfmt)" by code_simp
  then show "parse_binfmt_rule sample_binfmt = Some (the (parse_binfmt_rule sample_binfmt))"
    by (simp add: Option.is_none_def)
qed simp

end
