(* ===== verification/Fs_Policy.thy ===== *)
theory Fs_Policy
  imports Proc_Policy
begin

text \<open>
  The file policy of src/src/config/fspolicy.rs: the table a layer declares and how layers merge, the
  grammar of a mask entry, and the matcher of one path component with its memo. Entries and names are
  byte strings; \<open>crate::diag::reorders\<close> is src/src/diag.rs.
\<close>

section \<open>The table\<close>

record fs_policy =
  fs_deny :: "string list"
  fs_readonly :: "string list"
  fs_scan :: "string list"
  fs_scan_max_kb :: "u64 option"
  fs_git_writable :: "bool option"

definition fs_default :: fs_policy where
  "fs_default = \<lparr>fs_deny = [], fs_readonly = [], fs_scan = [], fs_scan_max_kb = None,
     fs_git_writable = None\<rparr>"

definition fs_is_empty :: "fs_policy \<Rightarrow> bool" where
  "fs_is_empty p = (fs_deny p = [] \<and> fs_readonly p = [])"

definition declares_nothing :: "fs_policy \<Rightarrow> bool" where
  "declares_nothing p =
     (fs_deny p = [] \<and> fs_readonly p = [] \<and> fs_scan p = [] \<and>
      Option.is_none (fs_scan_max_kb p) \<and> Option.is_none (fs_git_writable p))"

definition git_writable :: "fs_policy \<Rightarrow> bool" where
  "git_writable p = (case fs_git_writable p of Some b \<Rightarrow> b | None \<Rightarrow> False)"

text \<open>\<open>for entry in extra { if !self.contains(&entry) { self.push(entry) } }\<close>\<close>

definition push_new :: "'a list \<Rightarrow> 'a list \<Rightarrow> 'a list" where
  "push_new xs ys = foldl (\<lambda>acc y. if y \<in> set acc then acc else acc @ [y]) xs ys"

definition fs_union :: "fs_policy \<Rightarrow> fs_policy \<Rightarrow> fs_policy" where
  "fs_union p extra =
     \<lparr>fs_deny = push_new (fs_deny p) (fs_deny extra),
      fs_readonly = push_new (fs_readonly p) (fs_readonly extra),
      fs_scan = push_new (fs_scan p) (fs_scan extra),
      fs_scan_max_kb =
        (case (fs_scan_max_kb p, fs_scan_max_kb extra) of
           (Some a, Some b) \<Rightarrow> Some (max a b)
         | (None, other) \<Rightarrow> other
         | (other, None) \<Rightarrow> other),
      fs_git_writable =
        (if Option.is_none (fs_git_writable extra) then fs_git_writable p else fs_git_writable extra)\<rparr>"

section \<open>The grammar of an entry\<close>

text \<open>A character, as its UTF-8 bytes, that reorders the line it stands in: U+200E, U+200F,
  U+202A to U+202E, U+2066 to U+2069.\<close>

definition reorders :: "string \<Rightarrow> bool" where
  "reorders c =
     (case map byte c of
        [a, b, d] \<Rightarrow>
          a = 226 \<and> (b = 128 \<and> (d = 142 \<or> d = 143 \<or> (170 \<le> d \<and> d \<le> 174)) \<or>
                     b = 129 \<and> 166 \<le> d \<and> d \<le> 169)
      | _ \<Rightarrow> False)"

definition has_wildcard :: "string \<Rightarrow> bool" where
  "has_wildcard part = list_ex (\<lambda>c. c = CHR ''*'' \<or> c = CHR ''?'' \<or> c = CHR ''['') part"

datatype entry_fault =
    EntryEmpty | EntryControl | EntryAbsolute | EntryRecursive | EntryRoot
  | EntryEmptyComponent | EntryParent | EntryWildcard string

fun parts_fault :: "string list \<Rightarrow> entry_fault option" where
  "parts_fault [] = None"
| "parts_fault (part # parts) =
     (if part = [] \<or> part = ''.'' then Some EntryEmptyComponent
      else if part = ''..'' then Some EntryParent
      else if parts \<noteq> [] \<and> has_wildcard part then Some (EntryWildcard part)
      else parts_fault parts)"

definition validate_entry :: "string \<Rightarrow> entry_fault + string" where
  "validate_entry entry =
     (let trimmed = trim entry in
      if trimmed = [] then Inl EntryEmpty
      else if has_control trimmed \<or> list_ex reorders (chars trimmed) then Inl EntryControl
      else if starts_with ''/'' trimmed then Inl EntryAbsolute
      else if contains_str ''**'' trimmed then Inl EntryRecursive
      else
        let body = (case strip_prefix ''./'' trimmed of Some r \<Rightarrow> r | None \<Rightarrow> trimmed);
            dir_only = ends_with ''/'' body;
            body = trim_end_char CHR ''/'' body
        in if body = [] then Inl EntryRoot
           else let parts = split_on CHR ''/'' body in
                case parts_fault parts of
                  Some f \<Rightarrow> Inl f
                | None \<Rightarrow> Inr (join ''/'' parts @ (if dir_only then ''/'' else [])))"

section \<open>The component matcher\<close>

text \<open>The index of the bracket that closes a class opened at index 0.\<close>

definition first_close :: "nat \<Rightarrow> string \<Rightarrow> nat option" where
  "first_close i pat =
     (let n = length (takeWhile (\<lambda>c. c \<noteq> CHR '']'') (drop i pat)) in
      if i + n < length pat then Some (i + n) else None)"

definition class_end :: "string \<Rightarrow> nat option" where
  "class_end pat =
     (let i = (if 1 < length pat \<and> (pat ! 1 = CHR ''!'' \<or> pat ! 1 = CHR ''^'') then 2 else 1);
          i = (if i < length pat \<and> pat ! i = CHR '']'' then i + 1 else i)
      in first_close i pat)"

fun class_hit :: "string \<Rightarrow> char \<Rightarrow> bool" where
  "class_hit [] c = False"
| "class_hit (a # body) c =
     (case body of
        d # b # rest \<Rightarrow>
          if d = CHR ''-'' then (a \<le> c \<and> c \<le> b) \<or> class_hit rest c else a = c \<or> class_hit body c
      | _ \<Rightarrow> a = c \<or> class_hit body c)"

definition class_matches :: "string \<Rightarrow> char \<Rightarrow> bool" where
  "class_matches body c =
     (case body of
        x # rest \<Rightarrow> if x = CHR ''!'' \<or> x = CHR ''^'' then \<not> class_hit rest c else class_hit body c
      | [] \<Rightarrow> class_hit body c)"

text \<open>The walk. The memo is the set of states already entered, by the lengths left of the pattern and the
  name; \<open>glob_any\<close> is the loop over what a \<open>*\<close> may skip.\<close>

type_synonym memo = "(nat \<times> nat) set option"

lemma class_end_pos: "class_end pat = Some e \<Longrightarrow> 0 < e"
  by (auto simp: class_end_def first_close_def Let_def split: if_splits)

function (sequential) glob_walk :: "string \<Rightarrow> string \<Rightarrow> memo \<Rightarrow> bool \<times> memo"
  and glob_any :: "string \<Rightarrow> string \<Rightarrow> memo \<Rightarrow> bool \<times> memo" where
  "glob_walk pat name m =
     (if (case m of Some seen \<Rightarrow> (length pat, length name) \<in> seen | None \<Rightarrow> False) then (False, m)
      else
        let m = map_option (insert (length pat, length name)) m in
        case pat of
          [] \<Rightarrow> (name = [], m)
        | p # ps \<Rightarrow>
            if p = CHR ''*'' then glob_any ps name m
            else if name = [] then (False, m)
            else if p = CHR ''?'' then
              (if hd name \<noteq> CHR ''/'' then glob_walk ps (tl name) m else (False, m))
            else if p = CHR ''['' \<and> class_end pat \<noteq> None \<and> hd name \<noteq> CHR ''/'' then
              (if class_matches (take (the (class_end pat) - 1) ps) (hd name)
               then glob_walk (drop (the (class_end pat)) ps) (tl name) m else (False, m))
            else if hd name = p then glob_walk ps (tl name) m else (False, m))"
| "glob_any ps name m =
     (case glob_walk ps name m of
        (True, m') \<Rightarrow> (True, m')
      | (False, m') \<Rightarrow>
          if name = [] \<or> hd name = CHR ''/'' then (False, m') else glob_any ps (tl name) m')"
  by pat_completeness auto
termination
  by (relation "inv_image (less_than <*lex*> less_than)
        (\<lambda>x. case x of Inl (p, n, _) \<Rightarrow> (2 * length p, 0) | Inr (p, n, _) \<Rightarrow> (2 * length p + 1, length n))")
    (auto simp: neq_Nil_conv)

declare glob_walk.simps [simp del] glob_any.simps [simp del]

definition fs_glob_match :: "string \<Rightarrow> string \<Rightarrow> bool" where
  "fs_glob_match pat name =
     fst (glob_walk pat name
            (if 2 \<le> length (filter (\<lambda>c. c = CHR ''*'') pat) then Some {} else None))"

definition matches_component :: "string \<Rightarrow> string \<Rightarrow> bool" where
  "matches_component pat name = fs_glob_match pat name"

section \<open>The memo changes no answer\<close>

text \<open>The matcher without a memo.\<close>

function fs_glob :: "string \<Rightarrow> string \<Rightarrow> bool" where
  "fs_glob pat name =
     (case pat of
        [] \<Rightarrow> name = []
      | p # ps \<Rightarrow>
          if p = CHR ''*'' then
            fs_glob ps name \<or>
            (if name = [] \<or> hd name = CHR ''/'' then False else fs_glob pat (tl name))
          else name \<noteq> [] \<and>
            (if p = CHR ''?'' then hd name \<noteq> CHR ''/'' \<and> fs_glob ps (tl name)
             else if p = CHR ''['' \<and> class_end pat \<noteq> None \<and> hd name \<noteq> CHR ''/'' then
               class_matches (take (the (class_end pat) - 1) ps) (hd name) \<and>
               fs_glob (drop (the (class_end pat)) ps) (tl name)
             else hd name = p \<and> fs_glob ps (tl name)))"
  by pat_completeness auto
termination by (relation "measure (\<lambda>(p, n). length p + length n)") (auto simp: neq_Nil_conv)

declare fs_glob.simps [simp del]

text \<open>What \<open>glob_any\<close> computes: the rest of the pattern after a \<open>*\<close>, from each tail the star may leave.\<close>

lemma fs_glob_star:
  "fs_glob (CHR ''*'' # ps) name \<longleftrightarrow>
     fs_glob ps name \<or> (name \<noteq> [] \<and> hd name \<noteq> CHR ''/'' \<and> fs_glob (CHR ''*'' # ps) (tl name))"
  by (subst fs_glob.simps) simp

text \<open>One step of the walk on an entered state, for the branches other than \<open>*\<close>.\<close>

definition walk_next :: "string \<Rightarrow> string \<Rightarrow> (string \<times> string) option" where
  "walk_next pat name =
     (case pat of
        [] \<Rightarrow> None
      | p # ps \<Rightarrow>
          if name = [] then None
          else if p = CHR ''?'' then (if hd name \<noteq> CHR ''/'' then Some (ps, tl name) else None)
          else if p = CHR ''['' \<and> class_end pat \<noteq> None \<and> hd name \<noteq> CHR ''/'' then
            (if class_matches (take (the (class_end pat) - 1) ps) (hd name)
             then Some (drop (the (class_end pat)) ps, tl name) else None)
          else if hd name = p then Some (ps, tl name) else None)"

lemma walk_next_shorter:
  "walk_next pat name = Some (q, n) \<Longrightarrow> length q < length pat \<and> suffix q pat \<and> suffix n name"
  by (auto simp: walk_next_def suffix_drop suffix_ConsI intro: suffix_tl split: list.splits if_splits)

definition entered :: "string \<Rightarrow> string \<Rightarrow> memo \<Rightarrow> bool" where
  "entered pat name m = (case m of Some seen \<Rightarrow> (length pat, length name) \<in> seen | None \<Rightarrow> False)"

definition enter :: "string \<Rightarrow> string \<Rightarrow> memo \<Rightarrow> memo" where
  "enter pat name m = map_option (insert (length pat, length name)) m"

lemma glob_walk_step:
  assumes "pat \<noteq> []" "hd pat \<noteq> CHR ''*''"
  shows "glob_walk pat name m =
     (if entered pat name m then (False, m)
      else case walk_next pat name of
        None \<Rightarrow> (False, enter pat name m)
      | Some (q, n) \<Rightarrow> glob_walk q n (enter pat name m))"
proof -
  from assms obtain p ps where pat: "pat = p # ps" "p \<noteq> CHR ''*''" by (cases pat) auto
  then show ?thesis unfolding pat(1)
    by (cases "class_end (p # ps)"; subst glob_walk.simps)
      (auto simp: walk_next_def entered_def enter_def Let_def)
qed

lemma glob_walk_star:
  "glob_walk (CHR ''*'' # ps) name m =
     (if entered (CHR ''*'' # ps) name m then (False, m)
      else glob_any ps name (enter (CHR ''*'' # ps) name m))"
  by (subst glob_walk.simps) (simp add: entered_def enter_def)

lemma glob_walk_Nil:
  "glob_walk [] name m = (if entered [] name m then (False, m) else (name = [], enter [] name m))"
  by (subst glob_walk.simps) (simp add: entered_def enter_def)

lemma fs_glob_step:
  assumes "pat \<noteq> []" "hd pat \<noteq> CHR ''*''"
  shows "fs_glob pat name = (case walk_next pat name of None \<Rightarrow> False | Some (q, n) \<Rightarrow> fs_glob q n)"
proof -
  from assms obtain p ps where pat: "pat = p # ps" "p \<noteq> CHR ''*''" by (cases pat) auto
  then show ?thesis unfolding pat(1)
    by (cases "class_end (p # ps)"; subst fs_glob.simps) (auto simp: walk_next_def)
qed

lemma fs_glob_Nil [simp]: "fs_glob [] name \<longleftrightarrow> name = []"
  by (subst fs_glob.simps) simp

lemma glob_any_unmemoised:
  assumes "\<And>n. glob_walk ps n None = (fs_glob ps n, None)"
  shows "glob_any ps name None = (fs_glob (CHR ''*'' # ps) name, None)"
proof (induction name)
  case Nil
  show ?case by (subst glob_any.simps, subst fs_glob_star) (auto simp: assms split: bool.split)
next
  case (Cons c name)
  then show ?case
    by (subst glob_any.simps, subst fs_glob_star) (auto simp: assms split: bool.split)
qed

text \<open>Three cases carry every induction over the walk.\<close>

lemma glob_cases [case_names Nil star step]:
  assumes "pat = [] \<Longrightarrow> P" "\<And>ps. pat = CHR ''*'' # ps \<Longrightarrow> P" "pat \<noteq> [] \<Longrightarrow> hd pat \<noteq> CHR ''*'' \<Longrightarrow> P"
  shows P
  using assms by (cases pat) auto

lemma glob_unmemoised: "glob_walk pat name None = (fs_glob pat name, None)"
proof (induction "length pat" arbitrary: pat name rule: less_induct)
  case less
  have IH: "length q < length pat \<Longrightarrow> glob_walk q n None = (fs_glob q n, None)" for q n
    using less.hyps by blast
  show ?case
  proof (cases pat rule: glob_cases)
    case Nil
    then show ?thesis by (simp add: glob_walk_Nil entered_def enter_def)
  next
    case (star ps)
    then show ?thesis
      using glob_any_unmemoised [of ps name] IH by (simp add: glob_walk_star entered_def enter_def)
  next
    case step
    then show ?thesis using IH walk_next_shorter
      by (auto simp: glob_walk_step fs_glob_step entered_def enter_def split: option.split)
  qed
qed

text \<open>A state of the walk is a pair of suffixes of the original pattern and name, known by their lengths.
  \<open>dead\<close> says that the states in a set with at most \<open>k\<close> bytes of pattern left do not match.\<close>

definition tail_of :: "'a list \<Rightarrow> nat \<Rightarrow> 'a list" where
  "tail_of xs k = drop (length xs - k) xs"

lemma tail_of_suffix: "suffix ys xs \<Longrightarrow> tail_of xs (length ys) = ys"
  by (auto simp: tail_of_def suffix_def)

definition dead :: "string \<Rightarrow> string \<Rightarrow> nat \<Rightarrow> (nat \<times> nat) set \<Rightarrow> bool" where
  "dead P N k seen \<longleftrightarrow> (\<forall>i j. (i, j) \<in> seen \<longrightarrow> i \<le> k \<longrightarrow> \<not> fs_glob (tail_of P i) (tail_of N j))"

text \<open>What a step promises: its answer is the reference's, and if it failed, what it added is dead and
  has at most the pattern it was given left.\<close>

definition kept_dead :: "string \<Rightarrow> string \<Rightarrow> nat \<Rightarrow> (nat \<times> nat) set \<Rightarrow> bool \<Rightarrow> bool \<times> memo \<Rightarrow> bool" where
  "kept_dead P N k seen ans res \<longleftrightarrow>
     (\<exists>seen'. res = (ans, Some seen') \<and>
        (\<not> ans \<longrightarrow> (\<forall>i j. (i, j) \<in> seen' \<longrightarrow> (i, j) \<notin> seen \<longrightarrow>
                          i \<le> k \<and> \<not> fs_glob (tail_of P i) (tail_of N j))))"

lemma dead_mono: "dead P N k seen \<Longrightarrow> k' \<le> k \<Longrightarrow> dead P N k' seen"
  by (auto simp: dead_def)

lemma dead_insert_above: "dead P N k seen \<Longrightarrow> k < i \<Longrightarrow> dead P N k (insert (i, j) seen)"
  by (auto simp: dead_def)

lemma kept_dead_refl: "kept_dead P N k seen ans (ans, Some seen)"
  by (simp add: kept_dead_def)

lemma kept_dead_dead: "kept_dead P N k seen False (False, Some seen') \<Longrightarrow> dead P N k' seen \<Longrightarrow> dead P N k' seen'"
  unfolding kept_dead_def dead_def by blast

text \<open>The state a step entered is dead too once the step has failed.\<close>

lemma kept_dead_enter:
  assumes "kept_dead P N k (insert (length pat, length name) seen) ans res"
    and "k \<le> length pat" "suffix pat P" "suffix name N" "ans = fs_glob pat name"
  shows "kept_dead P N (length pat) seen ans res"
  using assms unfolding kept_dead_def by (fastforce simp: tail_of_suffix)

lemma kept_dead_trans:
  assumes "kept_dead P N k seen False (False, Some seen1)" "kept_dead P N k seen1 ans res"
  shows "kept_dead P N k seen ans res"
  using assms unfolding kept_dead_def by blast

lemma suffix_tl: "suffix xs ys \<Longrightarrow> suffix (tl xs) ys"
  by (metis suffix_order.trans suffix_tl)

lemma suffix_drop_Cons: "suffix (p # ps) ys \<Longrightarrow> suffix (drop k ps) ys"
  by (metis drop_Suc_Cons suffix_drop suffix_order.trans)

lemma glob_any_kept_dead:
  assumes walk: "\<And>n seen. suffix n N \<Longrightarrow> dead P N (length ps) seen \<Longrightarrow>
      kept_dead P N (length ps) seen (fs_glob ps n) (glob_walk ps n (Some seen))"
    and "suffix name N" "dead P N (length ps) seen"
  shows "kept_dead P N (length ps) seen (fs_glob (CHR ''*'' # ps) name) (glob_any ps name (Some seen))"
  using assms(2,3)
proof (induction name arbitrary: seen)
  case Nil
  from walk [OF Nil] obtain seen' where "glob_walk ps [] (Some seen) = (fs_glob ps [], Some seen')"
    unfolding kept_dead_def by blast
  then show ?case using walk [OF Nil] by (subst glob_any.simps, subst fs_glob_star) (auto split: bool.split)
next
  case (Cons c name)
  note w = walk [OF Cons.prems]
  then obtain seen' where e: "glob_walk ps (c # name) (Some seen) = (fs_glob ps (c # name), Some seen')"
    unfolding kept_dead_def by blast
  show ?case
  proof (cases "fs_glob ps (c # name) \<or> c = CHR ''/''")
    case True
    then show ?thesis using w e by (subst glob_any.simps, subst fs_glob_star) (auto split: bool.split)
  next
    case False
    then have w0: "kept_dead P N (length ps) seen False (False, Some seen')" using w e by simp
    have "kept_dead P N (length ps) seen' (fs_glob (CHR ''*'' # ps) name) (glob_any ps name (Some seen'))"
      using Cons.IH kept_dead_dead [OF w0 Cons.prems(2)] suffix_tl [OF Cons.prems(1)] by simp
    then show ?thesis
      using kept_dead_trans [OF w0] False e by (subst glob_any.simps, subst fs_glob_star) simp
  qed
qed

lemma glob_walk_kept_dead:
  assumes "suffix pat P" "suffix name N" "dead P N (length pat) seen"
  shows "kept_dead P N (length pat) seen (fs_glob pat name) (glob_walk pat name (Some seen))"
  using assms
proof (induction "length pat" arbitrary: pat name seen rule: less_induct)
  case less
  let ?seen = "insert (length pat, length name) seen"
  show ?case
  proof (cases "entered pat name (Some seen)")
    case True
    then have "(length pat, length name) \<in> seen" by (simp add: entered_def)
    then have "\<not> fs_glob pat name"
      using less.prems unfolding dead_def by (metis order_refl tail_of_suffix)
    moreover have "glob_walk pat name (Some seen) = (False, Some seen)"
      using True by (subst glob_walk.simps) (simp add: entered_def)
    ultimately show ?thesis by (simp add: kept_dead_refl)
  next
    case False
    have below: "dead P N k ?seen" if "k < length pat" for k
      using dead_insert_above dead_mono [OF less.prems(3)] that by simp
    have "\<exists>k \<le> length pat. kept_dead P N k ?seen (fs_glob pat name) (glob_walk pat name (Some seen))"
    proof (cases pat rule: glob_cases)
      case Nil
      then show ?thesis using False kept_dead_refl by (auto simp: glob_walk_Nil enter_def)
    next
      case (star ps)
      have "kept_dead P N (length ps) ?seen (fs_glob pat name) (glob_any ps name (Some ?seen))"
        unfolding star using less.hyps [of ps] suffix_drop_Cons [of _ ps P 0] less.prems(1,2) below
        by (intro glob_any_kept_dead) (auto simp: star)
      then show ?thesis using False star
        by (intro exI [of _ "length ps"]) (auto simp: glob_walk_star enter_def)
    next
      case step
      show ?thesis
      proof (cases "walk_next pat name")
        case None
        then show ?thesis using False step kept_dead_refl
          by (auto simp: glob_walk_step fs_glob_step enter_def)
      next
        case (Some qn)
        then obtain q n where w: "walk_next pat name = Some (q, n)" by (cases qn) auto
        note sh = walk_next_shorter [OF w]
        have "kept_dead P N (length q) ?seen (fs_glob q n) (glob_walk q n (Some ?seen))"
          using sh less.prems(1,2) below by (intro less.hyps) (auto intro: suffix_order.trans)
        then show ?thesis using False step sh w
          by (intro exI [of _ "length q"]) (auto simp: glob_walk_step fs_glob_step enter_def)
      qed
    qed
    then show ?thesis using kept_dead_enter less.prems(1,2) by blast
  qed
qed

text \<open>The memo changes no answer: the walk that gives up on a state it has entered before answers
  what the plain backtracking matcher answers, for every pattern and name.\<close>

theorem fs_glob_match_memo: "fs_glob_match pat name = fs_glob pat name"
proof -
  obtain seen where "glob_walk pat name (Some {}) = (fs_glob pat name, Some seen)"
    using glob_walk_kept_dead [of pat pat name name "{}"] by (auto simp: kept_dead_def dead_def)
  then show ?thesis by (simp add: fs_glob_match_def glob_unmemoised)
qed

section \<open>Layers only close\<close>

text \<open>
  The contract of a merge that only takes access away: what the merged policy closes is what either of
  the two closes. Layers may then be folded in any number and any order.
\<close>

locale tightening_merge =
  fixes merge :: "'p \<Rightarrow> 'p \<Rightarrow> 'p"
    and closes :: "'p \<Rightarrow> 'q \<Rightarrow> bool"
  assumes closes_merge: "closes (merge p e) q \<longleftrightarrow> closes p q \<or> closes e q"
begin

lemma closes_layers: "closes (foldl merge p layers) q \<longleftrightarrow> closes p q \<or> (\<exists>e \<in> set layers. closes e q)"
  by (induction layers arbitrary: p) (auto simp: closes_merge)

lemma layers_order: "set layers = set layers' \<Longrightarrow> closes (foldl merge p layers) q = closes (foldl merge p layers') q"
  by (simp add: closes_layers)

end

lemma set_push_new [simp]: "set (push_new xs ys) = set xs \<union> set ys"
  unfolding push_new_def by (induction ys arbitrary: xs) auto

lemma push_new_snoc: "push_new xs (ys @ [y]) = (if y \<in> set xs \<union> set ys then push_new xs ys else push_new xs ys @ [y])"
  using set_push_new [of xs ys] unfolding push_new_def by simp

lemma push_new_keeps: "prefix xs (push_new xs ys)"
proof (induction ys rule: rev_induct)
  case (snoc y ys)
  then show ?case by (simp add: push_new_snoc prefix_order.trans)
qed (simp add: push_new_def)

lemma push_new_distinct: "distinct xs \<Longrightarrow> distinct (push_new xs ys)"
  by (induction ys rule: rev_induct) (auto simp: push_new_snoc, auto simp: push_new_def)

lemma push_new_absorb: "set ys \<subseteq> set xs \<Longrightarrow> push_new xs ys = xs"
  unfolding push_new_def by (induction ys) auto

interpretation fs_deny_layers: tightening_merge fs_union "\<lambda>p q. q \<in> set (fs_deny p)"
  by unfold_locales (simp add: fs_union_def)

interpretation fs_readonly_layers: tightening_merge fs_union "\<lambda>p q. q \<in> set (fs_readonly p)"
  by unfold_locales (simp add: fs_union_def)

interpretation fs_scan_layers: tightening_merge fs_union "\<lambda>p q. q \<in> set (fs_scan p)"
  by unfold_locales (simp add: fs_union_def)

text \<open>The declared window: which offsets, in KiB, the content scan is told to read.\<close>

definition in_window :: "fs_policy \<Rightarrow> u64 \<Rightarrow> bool" where
  "in_window p kb = (case fs_scan_max_kb p of Some w \<Rightarrow> kb < w | None \<Rightarrow> False)"

interpretation fs_window_layers: tightening_merge fs_union in_window
  by unfold_locales (auto simp: fs_union_def in_window_def less_max_iff_disj split: option.split)

text \<open>Folding layers onto a file policy only closes: whatever their number and order, the result denies,
  protects and scans for exactly what the base or some layer does, reads a file as far as the widest
  declared window, keeps the base's entries first and in order, and repeats none.\<close>

theorem fs_layers_only_close:
  "set (fs_deny (foldl fs_union p layers)) = set (fs_deny p) \<union> (\<Union>e \<in> set layers. set (fs_deny e)) \<and>
   set (fs_readonly (foldl fs_union p layers)) =
     set (fs_readonly p) \<union> (\<Union>e \<in> set layers. set (fs_readonly e)) \<and>
   set (fs_scan (foldl fs_union p layers)) = set (fs_scan p) \<union> (\<Union>e \<in> set layers. set (fs_scan e)) \<and>
   (in_window (foldl fs_union p layers) kb \<longleftrightarrow> in_window p kb \<or> list_ex (\<lambda>e. in_window e kb) layers) \<and>
   prefix (fs_deny p) (fs_deny (fs_union p e)) \<and>
   fs_union (fs_union p e) e = fs_union p e"
proof (intro conjI)
  show "set (fs_deny (foldl fs_union p layers)) = set (fs_deny p) \<union> (\<Union>e \<in> set layers. set (fs_deny e))"
    using fs_deny_layers.closes_layers [where p = p and layers = layers] by blast
  show "set (fs_readonly (foldl fs_union p layers)) =
      set (fs_readonly p) \<union> (\<Union>e \<in> set layers. set (fs_readonly e))"
    using fs_readonly_layers.closes_layers [where p = p and layers = layers] by blast
  show "set (fs_scan (foldl fs_union p layers)) = set (fs_scan p) \<union> (\<Union>e \<in> set layers. set (fs_scan e))"
    using fs_scan_layers.closes_layers [where p = p and layers = layers] by blast
  show "in_window (foldl fs_union p layers) kb \<longleftrightarrow> in_window p kb \<or> list_ex (\<lambda>e. in_window e kb) layers"
    by (simp add: fs_window_layers.closes_layers list_ex_iff)
  show "prefix (fs_deny p) (fs_deny (fs_union p e))"
    by (simp add: fs_union_def push_new_keeps)
  show "fs_union (fs_union p e) e = fs_union p e"
    by (simp add: fs_union_def push_new_absorb Option.is_none_def split: option.split)
qed

text \<open>An unset window leaves the built-in ceiling, and is the one value a layer can make smaller: a layer
  that sets one replaces it, whatever the ceiling was.\<close>

lemma fs_union_unset_window:
  "fs_scan_max_kb p = None \<Longrightarrow> fs_scan_max_kb (fs_union p e) = fs_scan_max_kb e"
  by (simp add: fs_union_def)

section \<open>An accepted entry stays in the project\<close>

lemma has_control_right: "has_control b \<Longrightarrow> has_control (a @ b)"
  by (induction a) simp_all

definition lead_control :: "char \<Rightarrow> string \<Rightarrow> bool" where
  "lead_control c s \<longleftrightarrow> byte c < 32 \<or> byte c = 127 \<or>
     (byte c = 194 \<and> s \<noteq> [] \<and> 128 \<le> byte (hd s) \<and> byte (hd s) < 160)"

lemma has_control_Cons: "has_control (c # s) \<longleftrightarrow> lead_control c s \<or> has_control s"
  by (cases s) (auto simp: lead_control_def)

lemma has_control_left: "has_control a \<Longrightarrow> has_control (a @ b)"
proof (induction a)
  case (Cons c a)
  moreover have "lead_control c a \<Longrightarrow> lead_control c (a @ b)" by (auto simp: lead_control_def)
  ultimately show ?case unfolding append_Cons has_control_Cons by blast
qed simp

lemma chars_cut:
  assumes c: "is_ascii c"
  shows "chars (s @ c # t) = chars s @ [c] # chars t"
proof (induction s rule: chars.induct)
  case 1
  show ?case using c by (simp add: chars.simps(2))
next
  case (2 b s)
  obtain ok k where k: "utf8_seq b s = (ok, k)" by fastforce
  then have "k \<le> length s" by (rule utf8_seq_bound)
  with 2 [OF k [symmetric] refl] k c show ?case
    by (simp add: chars.simps(2) utf8_seq_ascii_tail)
qed

text \<open>What an accepted entry is made of.\<close>

definition entry_parts :: "string list \<Rightarrow> bool" where
  "entry_parts parts \<longleftrightarrow> parts \<noteq> [] \<and>
     list_all (\<lambda>p. p \<noteq> [] \<and> p \<noteq> ''.'' \<and> p \<noteq> ''..'' \<and> CHR ''/'' \<notin> set p) parts \<and>
     list_all (\<lambda>p. \<not> has_wildcard p) (butlast parts)"

definition render_entry :: "string list \<Rightarrow> bool \<Rightarrow> string" where
  "render_entry parts dir = join ''/'' parts @ (if dir then ''/'' else [])"

lemma parts_fault_None:
  "parts_fault parts = None \<longleftrightarrow>
     list_all (\<lambda>p. p \<noteq> [] \<and> p \<noteq> ''.'' \<and> p \<noteq> ''..'') parts \<and> list_all (\<lambda>p. \<not> has_wildcard p) (butlast parts)"
  by (induction parts) auto

lemma trim_end_char_split: "\<exists>n. s = trim_end_char d s @ replicate n d"
proof -
  have "takeWhile (\<lambda>c. c = d) (rev s) = replicate (length (takeWhile (\<lambda>c. c = d) (rev s))) d"
    by (metis (full_types) replicate_length_same set_takeWhileD)
  then have "rev s = replicate (length (takeWhile (\<lambda>c. c = d) (rev s))) d @ dropWhile (\<lambda>c. c = d) (rev s)"
    by (metis takeWhile_dropWhile_id)
  then show ?thesis by (metis rev_append rev_replicate rev_rev_ident trim_end_char_def)
qed

text \<open>The grammar's text conditions, kept by cutting at a slash.\<close>

definition clean_text :: "string \<Rightarrow> bool" where
  "clean_text s \<longleftrightarrow> \<not> has_control s \<and> \<not> list_ex reorders (chars s) \<and> \<not> contains_str ''**'' s"

lemma is_ascii_slash [simp]: "is_ascii CHR ''/''" "is_ascii CHR ''.''"
  by (simp_all add: is_ascii_def)

lemma clean_text_cut: "clean_text (s @ CHR ''/'' # t) \<Longrightarrow> clean_text s \<and> clean_text t \<and> clean_text (s @ ''/'')"
proof -
  let ?s = "s @ CHR ''/'' # t"
  assume *: "clean_text ?s"
  have sub: "sublist s ?s" "sublist t ?s" "sublist (s @ ''/'') ?s"
    using sublist_appendI [of s "[]" "CHR ''/'' # t"] sublist_appendI [of t "s @ ''/''" "[]"]
      sublist_appendI [of "s @ ''/''" "[]" t] by simp_all
  have ctl: "\<not> has_control s" "\<not> has_control t" "\<not> has_control (s @ ''/'')"
    using * has_control_left [of s "CHR ''/'' # t"] has_control_right [of t "s @ ''/''"]
      has_control_left [of "s @ ''/''" t] unfolding clean_text_def by auto
  have "\<not> list_ex reorders (chars s)" "\<not> list_ex reorders (chars t)"
    "\<not> list_ex reorders (chars (s @ ''/''))"
    using * chars_cut [of "CHR ''/''" s t] chars_cut [of "CHR ''/''" s "[]"]
    unfolding clean_text_def by auto
  with ctl sub * show ?thesis
    unfolding clean_text_def contains_str_iff by (meson sublist_order.order_trans)
qed

lemma join_Cons: "join ''/'' (p # ps) = p @ (if ps = [] then [] else CHR ''/'' # join ''/'' ps)"
  by (cases ps) auto

lemma join_nonempty: "xs \<noteq> [] \<Longrightarrow> last xs \<noteq> [] \<Longrightarrow> join sep xs \<noteq> []"
  by (induction sep xs rule: join.induct) auto

lemma last_join: "xs \<noteq> [] \<Longrightarrow> last xs \<noteq> [] \<Longrightarrow> last (join sep xs) = last (last xs)"
proof (induction sep xs rule: join.induct)
  case (3 sep x y xs)
  then show ?case using join_nonempty [of "y # xs" sep] by simp
qed simp_all

lemma first_part:
  assumes "p \<noteq> []" "p \<noteq> ''.''" "CHR ''/'' \<notin> set p" "r = [] \<or> hd r = CHR ''/''"
  shows "\<not> starts_with ''/'' (p @ r)" "strip_prefix ''./'' (p @ r) = None"
  using assms by (cases p; cases "tl p"; auto simp: starts_with_def)+

lemma entry_parts_join:
  assumes "entry_parts parts"
  shows "split_on CHR ''/'' (join ''/'' parts) = parts" "join ''/'' parts \<noteq> []"
    "r = [] \<or> r = ''/'' \<Longrightarrow> \<not> starts_with ''/'' (join ''/'' parts @ r)"
    "r = [] \<or> r = ''/'' \<Longrightarrow> strip_prefix ''./'' (join ''/'' parts @ r) = None"
    "last (join ''/'' parts) \<noteq> CHR ''/''"
proof -
  obtain p ps where parts: "parts = p # ps" using assms by (cases parts) (auto simp: entry_parts_def)
  have p: "p \<noteq> []" "p \<noteq> ''.''" "CHR ''/'' \<notin> set p" using assms by (auto simp: parts entry_parts_def)
  show "split_on CHR ''/'' (join ''/'' parts) = parts"
    using assms by (intro split_on_join) (auto simp: entry_parts_def list_all_iff)
  show "join ''/'' parts \<noteq> []" using p by (simp add: parts join_Cons)
  show "r = [] \<or> r = ''/'' \<Longrightarrow> \<not> starts_with ''/'' (join ''/'' parts @ r)"
    "r = [] \<or> r = ''/'' \<Longrightarrow> strip_prefix ''./'' (join ''/'' parts @ r) = None"
    using first_part [OF p, of "(if ps = [] then [] else CHR ''/'' # join ''/'' ps) @ r"]
    by (auto simp: parts join_Cons)
  have l: "last parts \<noteq> []" "CHR ''/'' \<notin> set (last parts)"
    using assms by (auto simp: entry_parts_def list_all_iff)
  then show "last (join ''/'' parts) \<noteq> CHR ''/''"
    using last_join [of parts "''/''"] parts last_in_set by fastforce
qed

lemma validate_entry_render:
  assumes "validate_entry s = Inr out"
  obtains parts dir where "out = render_entry parts dir" "entry_parts parts" "clean_text out"
proof -
  define tr where "tr = trim s"
  define b0 where "b0 = (case strip_prefix ''./'' tr of Some r \<Rightarrow> r | None \<Rightarrow> tr)"
  define b where "b = trim_end_char CHR ''/'' b0"
  define parts where "parts = split_on CHR ''/'' b"
  have c: "clean_text tr" and b: "b \<noteq> []" and f: "parts_fault parts = None"
    and out: "out = render_entry parts (ends_with ''/'' b0)"
    using assms unfolding validate_entry_def tr_def [symmetric] Let_def b0_def [symmetric]
      b_def [symmetric] parts_def [symmetric]
    by (auto simp: clean_text_def render_entry_def split: if_splits option.splits)
  have c0: "clean_text b0"
    using c clean_text_cut [of "''.''"] unfolding b0_def
    by (auto simp: strip_prefix_Some split: option.split)
  obtain n where n: "b0 = b @ replicate n CHR ''/''" using trim_end_char_split b_def by metis
  have "clean_text b \<and> (ends_with ''/'' b0 \<longrightarrow> clean_text (b @ ''/''))"
  proof (cases n)
    case 0
    have "last b \<noteq> CHR ''/''" using trim_end_char_last [of "CHR ''/''" b0] b unfolding b_def by blast
    then show ?thesis using c0 n 0 by (auto simp: ends_with_iff suffix_def)
  next
    case (Suc m)
    then show ?thesis using clean_text_cut [of b "replicate m CHR ''/''"] c0 n by simp
  qed
  then have "clean_text out" using out by (simp add: render_entry_def parts_def)
  moreover have "entry_parts parts"
    using f split_on_pieces unfolding parts_fault_None entry_parts_def parts_def list_all_iff by fastforce
  ultimately show thesis using that out by blast
qed



end
