(* ===== verification/Conn_Cap.thy ===== *)
theory Conn_Cap
  imports Prelude
begin

text \<open>
  The accept-loop rules of src/src/sandbox/conncap.rs: the ceiling on live connections as its threads
  interleave over one atomic counter, the record of refusals, and the token bucket. Instants and
  durations are nanoseconds since a fixed origin, as \<open>nat\<close> (\<open>saturating_duration_since\<close> is then
  subtraction); counters keep their width. Spawning a thread and reporting its refusal are I/O.
\<close>

section \<open>The ceiling\<close>

text \<open>
  \<open>take\<close> is two atomic operations when it refuses, so a thread is in one of three places: it holds no
  slot, it holds one, or it has raised the counter past the ceiling and has yet to lower it again.
\<close>

datatype phase = Idle | Holding | Over

record conn_cap =
  cc_live :: u64
  cc_max :: u64
  cc_threads :: "phase list"

definition ConnCap_new :: "u64 \<Rightarrow> nat \<Rightarrow> conn_cap" where
  "ConnCap_new m n = \<lparr>cc_live = 0, cc_max = m, cc_threads = replicate n Idle\<rparr>"

text \<open>The atomic operations of thread \<open>i\<close>: the \<open>fetch_add\<close> of \<open>take\<close> with the test of the value it
  returned, the \<open>fetch_sub\<close> of a refused \<open>take\<close>, and the \<open>fetch_sub\<close> of dropping a slot.\<close>

definition cap_fetch_add :: "nat \<Rightarrow> conn_cap \<Rightarrow> conn_cap" where
  "cap_fetch_add i c =
     c\<lparr>cc_live := cc_live c + 1,
       cc_threads := (cc_threads c)[i := if cc_max c \<le> cc_live c then Over else Holding]\<rparr>"

definition cap_fetch_sub :: "nat \<Rightarrow> conn_cap \<Rightarrow> conn_cap" where
  "cap_fetch_sub i c = c\<lparr>cc_live := cc_live c - 1, cc_threads := (cc_threads c)[i := Idle]\<rparr>"

datatype cap_event = Take nat | Refuse nat | DropSlot nat

inductive cap_step :: "conn_cap \<Rightarrow> cap_event \<Rightarrow> conn_cap \<Rightarrow> bool" where
  take: "i < length (cc_threads c) \<Longrightarrow> cc_threads c ! i = Idle \<Longrightarrow> cap_step c (Take i) (cap_fetch_add i c)"
| refuse: "i < length (cc_threads c) \<Longrightarrow> cc_threads c ! i = Over \<Longrightarrow>
     cap_step c (Refuse i) (cap_fetch_sub i c)"
| drop_slot: "i < length (cc_threads c) \<Longrightarrow> cc_threads c ! i = Holding \<Longrightarrow>
     cap_step c (DropSlot i) (cap_fetch_sub i c)"

inductive cap_run :: "conn_cap \<Rightarrow> cap_event list \<Rightarrow> conn_cap \<Rightarrow> bool" where
  none: "cap_run c [] c"
| step: "cap_run c es c' \<Longrightarrow> cap_step c' e c'' \<Longrightarrow> cap_run c (es @ [e]) c''"

inductive_cases cap_stepE: "cap_step c e c'"

section \<open>The record of refusals\<close>

definition REFUSALS_EVERY :: nat where
  "REFUSALS_EVERY = 10 * 10 ^ 9"

definition CONTROL_CONNS :: u64 where
  "CONTROL_CONNS = 8"

record refusals =
  said_at :: "nat option"
  unsaid :: u64

definition Refusals_new :: refusals where
  "Refusals_new = \<lparr>said_at = None, unsaid = 0\<rparr>"

definition refused :: "nat \<Rightarrow> refusals \<Rightarrow> u64 option \<times> refusals" where
  "refused now r =
     (let n = unsaid r + 1 in
      case said_at r of
        Some at \<Rightarrow> if now - at < REFUSALS_EVERY then (None, r\<lparr>unsaid := n\<rparr>)
                   else (Some n, \<lparr>said_at = Some now, unsaid = 0\<rparr>)
      | None \<Rightarrow> (Some n, \<lparr>said_at = Some now, unsaid = 0\<rparr>))"

definition served :: "refusals \<Rightarrow> u64 option \<times> refusals" where
  "served r = (if 0 < unsaid r then (Some (unsaid r), r\<lparr>unsaid := 0\<rparr>) else (None, r))"

definition refusals_line :: "u64 \<Rightarrow> string \<Rightarrow> string" where
  "refusals_line n what =
     (if n = 1 then ''a connection beyond the '' @ what
      else fmt_nat 10 (unat n) @ '' connections beyond the '' @ what @ '', counted since the last such line'')"

section \<open>The token bucket\<close>

record pacer =
  pc_burst :: u32
  pc_every :: nat
  pc_tokens :: u32
  pc_credited :: nat

definition Pacer_new :: "u32 \<Rightarrow> nat \<Rightarrow> nat \<Rightarrow> pacer" where
  "Pacer_new b e now = \<lparr>pc_burst = b, pc_every = e, pc_tokens = b, pc_credited = now\<rparr>"

text \<open>\<open>u32::try_from(earned).unwrap_or(u32::MAX)\<close>\<close>

definition clamp_u32 :: "nat \<Rightarrow> u32" where
  "clamp_u32 n = (if n < 2 ^ 32 then of_nat n else - 1)"

definition pacer_earn :: "nat \<Rightarrow> pacer \<Rightarrow> pacer" where
  "pacer_earn now p =
     (let earned = clamp_u32 ((now - pc_credited p) div max (pc_every p) 1) in
      if pc_burst p - pc_tokens p \<le> earned
      then p\<lparr>pc_tokens := pc_burst p, pc_credited := now\<rparr>
      else p\<lparr>pc_tokens := pc_tokens p + earned,
             pc_credited := pc_credited p + pc_every p * unat earned\<rparr>)"

definition pacer_take :: "nat \<Rightarrow> pacer \<Rightarrow> (nat + unit) \<times> pacer" where
  "pacer_take now p =
     (let p = pacer_earn now p in
      if pc_tokens p = 0 then (Inl (pc_every p - (now - pc_credited p)), p)
      else (Inr (), p\<lparr>pc_tokens := pc_tokens p - 1\<rparr>))"

section \<open>The ceiling holds under every interleaving\<close>

definition holders :: "conn_cap \<Rightarrow> nat" where
  "holders c = count_list (cc_threads c) Holding"

definition pending :: "conn_cap \<Rightarrow> nat" where
  "pending c = count_list (cc_threads c) Over"

definition cap_inv :: "conn_cap \<Rightarrow> bool" where
  "cap_inv c \<longleftrightarrow> length (cc_threads c) < 2 ^ 64 \<and> unat (cc_live c) = holders c + pending c \<and>
     holders c \<le> unat (cc_max c)"

lemma count_list_update:
  "i < length xs \<Longrightarrow> count_list (xs[i := y]) x + (if xs ! i = x then 1 else 0) =
     count_list xs x + (if y = x then 1 else 0)"
proof (induction xs arbitrary: i)
  case (Cons a xs)
  show ?case
  proof (cases i)
    case (Suc k)
    then show ?thesis using Cons.IH [of k] Cons.prems by (auto split: if_splits)
  qed (use Cons.prems in auto)
qed simp

lemma count_two_le: "x \<noteq> y \<Longrightarrow> count_list xs x + count_list xs y \<le> length xs"
  by (induction xs) auto

lemma count_pos: "i < length xs \<Longrightarrow> xs ! i = x \<Longrightarrow> 0 < count_list xs x"
  by (metis count_list_0_iff neq0_conv nth_mem)

lemma cap_new_inv: "n < 2 ^ 64 \<Longrightarrow> cap_inv (ConnCap_new m n)"
proof -
  have "x \<noteq> Idle \<Longrightarrow> count_list (replicate n Idle) x = 0" for x :: phase by (induction n) auto
  then show "n < 2 ^ 64 \<Longrightarrow> ?thesis" by (simp add: cap_inv_def ConnCap_new_def holders_def pending_def)
qed

lemma u64_unat_add1: "Suc (unat (x :: u64)) < 2 ^ 64 \<Longrightarrow> unat (x + 1) = unat x + 1"
  by (simp add: unat_word_ariths)

lemma cap_step_inv:
  assumes "cap_step c e c'" "cap_inv c" shows "cap_inv c' \<and> cc_max c' = cc_max c"
proof -
  note two = count_two_le [of Holding Over "cc_threads c"]
  note upd = count_list_update [of _ "cc_threads c"]
  from assms(1) show ?thesis
  proof cases
    case (take i)
    then have lt: "holders c + pending c < length (cc_threads c)"
      using count_two_le [of Holding Over "(cc_threads c)[i := Holding]"] upd [of i Holding Holding]
        upd [of i Holding Over] by (simp add: holders_def pending_def)
    then have "Suc (unat (cc_live c)) < 2 ^ 64" using assms(2) by (simp add: cap_inv_def)
    then have live: "unat (cc_live c + 1) = unat (cc_live c) + 1" by (rule u64_unat_add1)
    show ?thesis
      using assms(2) take live upd [of i Holding Holding] upd [of i Holding Over]
        upd [of i Over Holding] upd [of i Over Over]
      by (auto simp: cap_inv_def cap_fetch_add_def holders_def pending_def word_le_nat_alt)
  next
    case (refuse i)
    then have "0 < pending c" unfolding pending_def by (intro count_pos)
    then have "unat (cc_live c - 1) = unat (cc_live c) - 1"
      using assms(2) by (intro unat_minus_one) (auto simp: cap_inv_def)
    then show ?thesis
      using assms(2) refuse \<open>0 < pending c\<close> upd [of i Idle Holding] upd [of i Idle Over]
      by (auto simp: cap_inv_def cap_fetch_sub_def holders_def pending_def)
  next
    case (drop_slot i)
    then have "0 < holders c" unfolding holders_def by (intro count_pos)
    then have "unat (cc_live c - 1) = unat (cc_live c) - 1"
      using assms(2) by (intro unat_minus_one) (auto simp: cap_inv_def)
    then show ?thesis
      using assms(2) drop_slot \<open>0 < holders c\<close> upd [of i Idle Holding] upd [of i Idle Over]
      by (auto simp: cap_inv_def cap_fetch_sub_def holders_def pending_def)
  qed
qed

lemma cap_run_inv: "cap_run c es c' \<Longrightarrow> cap_inv c \<Longrightarrow> cap_inv c' \<and> cc_max c' = cc_max c"
  by (induction rule: cap_run.induct) (auto dest: cap_step_inv)

text \<open>C20. Under every interleaving of any number of threads, never more slots are held than the ceiling,
  the counter is exactly the slots held plus the takes about to be refused, so no slot is ever lost
  and the counter is back at 0 when all threads are idle.\<close>

theorem cap_never_exceeded:
  assumes "cap_run (ConnCap_new m n) es c" "n < 2 ^ 64"
  shows "holders c \<le> unat m \<and> unat (cc_live c) = holders c + pending c \<and>
         (list_all (\<lambda>ph. ph = Idle) (cc_threads c) \<longrightarrow> cc_live c = 0)"
proof -
  have inv: "cap_inv c" "cc_max c = m"
    using cap_run_inv [OF assms(1) cap_new_inv [OF assms(2)]] by (simp_all add: ConnCap_new_def)
  have "count_list (cc_threads c) x = 0" if "list_all (\<lambda>ph. ph = Idle) (cc_threads c)" "x \<noteq> Idle" for x
    using that by (auto simp: count_list_0_iff list_all_iff)
  then show ?thesis using inv
    by (auto simp: cap_inv_def holders_def pending_def unat_eq_0)
qed

lemma sample_cap_run: "cap_run (ConnCap_new 1 3) [Take 0, Take 1, DropSlot 0, Take 2] 
    \<lparr>cc_live = 2, cc_max = 1, cc_threads = [Idle, Over, Over]\<rparr>"
proof -
  have "cap_run (ConnCap_new 1 3) ([] @ [Take 0]) (cap_fetch_add 0 (ConnCap_new 1 3))"
    by (rule cap_run.step [OF cap_run.none], rule cap_step.take) code_simp+
  then have "cap_run (ConnCap_new 1 3) ([Take 0] @ [Take 1]) (cap_fetch_add 1 (cap_fetch_add 0 (ConnCap_new 1 3)))"
    by (intro cap_run.step [where c' = "cap_fetch_add 0 (ConnCap_new 1 3)"] cap_step.take) (simp, code_simp+)
  then have "cap_run (ConnCap_new 1 3) ([Take 0, Take 1] @ [DropSlot 0])
      (cap_fetch_sub 0 (cap_fetch_add 1 (cap_fetch_add 0 (ConnCap_new 1 3))))"
    by (intro cap_run.step [where c' = "cap_fetch_add 1 (cap_fetch_add 0 (ConnCap_new 1 3))"]
        cap_step.drop_slot) (simp, code_simp+)
  then have "cap_run (ConnCap_new 1 3) ([Take 0, Take 1, DropSlot 0] @ [Take 2])
      (cap_fetch_add 2 (cap_fetch_sub 0 (cap_fetch_add 1 (cap_fetch_add 0 (ConnCap_new 1 3)))))"
    by (intro cap_run.step [where c' = "cap_fetch_sub 0 (cap_fetch_add 1 (cap_fetch_add 0 (ConnCap_new 1 3)))"]
        cap_step.take) (simp, code_simp+)
  moreover have "cap_fetch_add 2 (cap_fetch_sub 0 (cap_fetch_add 1 (cap_fetch_add 0 (ConnCap_new 1 3)))) =
      \<lparr>cc_live = 2, cc_max = 1, cc_threads = [Idle, Over, Over]\<rparr>"
    by (simp add: cap_fetch_add_def cap_fetch_sub_def ConnCap_new_def numeral_3_eq_3)
  ultimately show ?thesis by simp
qed

theorem cap_never_exceeded_witness:
  "holders \<lparr>cc_live = 2, cc_max = 1, cc_threads = [Idle, Over, Over]\<rparr> \<le> unat (1 :: u64)"
  using cap_never_exceeded [OF sample_cap_run] by simp

text \<open>A take is refused exactly when slots held and takes about to be refused together reach the
  ceiling, and granted exactly when they do not.\<close>

theorem cap_refusal_reason:
  assumes "cap_run (ConnCap_new m n) es c" "n < 2 ^ 64" "cap_step c (Take i) c'"
  shows "(cc_threads c' ! i = Over \<longleftrightarrow> unat m \<le> holders c + pending c) \<and>
         (cc_threads c' ! i = Holding \<longleftrightarrow> holders c + pending c < unat m)"
proof -
  have inv: "cap_inv c" "cc_max c = m"
    using cap_run_inv [OF assms(1) cap_new_inv [OF assms(2)]] by (simp_all add: ConnCap_new_def)
  from assms(3) show ?thesis
    by (rule cap_stepE) (use inv in \<open>auto simp: cap_fetch_add_def cap_inv_def word_le_nat_alt\<close>)
qed

theorem cap_refusal_reason_witness:
  "cc_threads (cap_fetch_add 0 \<lparr>cc_live = 2, cc_max = 1, cc_threads = [Idle, Over, Over]\<rparr>) ! 0 = Over"
proof -
  let ?c = "\<lparr>cc_live = 2, cc_max = 1, cc_threads = [Idle, Over, Over]\<rparr>"
  have "cap_step ?c (Take 0) (cap_fetch_add 0 ?c)" by (rule cap_step.take) simp_all
  from cap_refusal_reason [OF sample_cap_run _ this] show ?thesis
    by (simp add: holders_def pending_def)
qed

text \<open>So a take can be refused while no slot is held: two takes that are about to be refused keep a third
  one out.\<close>

lemma cap_refused_without_holder:
  "\<exists>es c c'. cap_run (ConnCap_new 1 3) es c \<and> holders c = 0 \<and> cap_step c (Take 0) c' \<and> cc_threads c' ! 0 = Over"
proof -
  let ?c = "\<lparr>cc_live = 2, cc_max = 1, cc_threads = [Idle, Over, Over]\<rparr>"
  have "cap_step ?c (Take 0) (cap_fetch_add 0 ?c)" by (rule cap_step.take) simp_all
  moreover have "holders ?c = 0" by (simp add: holders_def)
  moreover have "cc_threads (cap_fetch_add 0 ?c) ! 0 = Over" by (simp add: cap_fetch_add_def)
  ultimately show ?thesis using sample_cap_run by blast
qed

section \<open>Every refusal is recorded once\<close>

datatype refusal_event = AtCeiling nat | Serve

fun refusals_run :: "refusal_event list \<Rightarrow> refusals \<Rightarrow> u64 option list \<times> refusals" where
  "refusals_run [] r = ([], r)"
| "refusals_run (e # es) r =
     (let (l, r') = (case e of AtCeiling now \<Rightarrow> refused now r | Serve \<Rightarrow> served r);
          (ls, r'') = refusals_run es r'
      in (l # ls, r''))"

definition said :: "u64 option list \<Rightarrow> nat" where
  "said ls = sum_list (map (\<lambda>l. case l of Some n \<Rightarrow> unat n | None \<Rightarrow> 0) ls)"

definition ceilings :: "refusal_event list \<Rightarrow> nat" where
  "ceilings es = length (filter (\<lambda>e. e \<noteq> Serve) es)"

lemma refused_counts:
  assumes "refused now r = (l, r')" "Suc (unat (unsaid r)) < 2 ^ 64"
  shows "said [l] + unat (unsaid r') = unat (unsaid r) + 1"
  using assms u64_unat_add1 [of "unsaid r"]
  by (auto simp: refused_def said_def Let_def split: option.splits if_splits)

lemma served_counts: "served r = (l, r') \<Longrightarrow> said [l] + unat (unsaid r') = unat (unsaid r)"
  by (auto simp: served_def said_def split: if_splits)

lemma said_Cons: "said (l # ls) = said [l] + said ls"
  by (simp add: said_def)

lemma refusals_run_counts:
  assumes "refusals_run es r = (ls, r')" "unat (unsaid r) + length es < bound" "bound \<le> 2 ^ 64"
  shows "said ls + unat (unsaid r') = unat (unsaid r) + ceilings es"
  using assms(1,2)
proof (induction es arbitrary: r ls)
  case Nil
  then show ?case by (simp add: said_def ceilings_def)
next
  case (Cons e es)
  obtain l r1 where e: "(case e of AtCeiling now \<Rightarrow> refused now r | Serve \<Rightarrow> served r) = (l, r1)"
    by fastforce
  obtain ls' where ls: "refusals_run es r1 = (ls', r')" "ls = l # ls'"
    using Cons.prems(1) e by (auto split: prod.splits)
  have room: "Suc (unat (unsaid r)) < 2 ^ 64"
    by (rule less_le_trans [OF _ assms(3)]) (use Cons.prems(2) in simp)
  have step: "said [l] + unat (unsaid r1) = unat (unsaid r) + (if e = Serve then 0 else 1)"
  proof (cases e)
    case (AtCeiling now)
    then show ?thesis using refused_counts [OF _ room, of now l r1] e by simp
  next
    case Serve
    then show ?thesis using served_counts [of r l r1] e by simp
  qed
  then have "unat (unsaid r1) + length es < bound" using Cons.prems(2) by (cases "e = Serve") simp_all
  then have "said ls' + unat (unsaid r') = unat (unsaid r1) + ceilings es" by (rule Cons.IH [OF ls(1)])
  moreover have "ceilings (e # es) = (if e = Serve then 0 else 1) + ceilings es" by (simp add: ceilings_def)
  ultimately show ?case using step said_Cons [of l ls'] unfolding ls(2) by linarith
qed

text \<open>The record loses no refusal and invents none: over any sequence of refusals and served
  connections, the counts of the lines recorded and what is left unsaid add up to the refusals.\<close>

theorem refusals_conserved:
  assumes "refusals_run es r = (ls, r')" "unat (unsaid r) + length es < 2 ^ 64"
  shows "said ls + unat (unsaid r') = unat (unsaid r) + ceilings es"
  using refusals_run_counts [OF assms order_refl] .

theorem refusals_conserved_witness:
  "said [Some 1, None, None, Some 2] + 0 = (3 :: nat)"
proof -
  have "refusals_run [AtCeiling 0, AtCeiling 1, AtCeiling 2, Serve] Refusals_new =
      ([Some 1, None, None, Some 2], \<lparr>said_at = Some 0, unsaid = 0\<rparr>)" by code_simp
  from refusals_conserved [OF this] show ?thesis by (simp add: Refusals_new_def ceilings_def)
qed

section \<open>The pace holds over any stretch of time\<close>

definition pacer_ok :: "pacer \<Rightarrow> bool" where
  "pacer_ok p \<longleftrightarrow> pc_tokens p \<le> pc_burst p \<and> 0 < pc_every p"

fun pacer_run :: "nat list \<Rightarrow> pacer \<Rightarrow> nat \<times> pacer" where
  "pacer_run [] p = (0, p)"
| "pacer_run (now # ts) p =
     (let (r, p') = pacer_take now p; (n, p'') = pacer_run ts p'
      in ((case r of Inr _ \<Rightarrow> n + 1 | Inl _ \<Rightarrow> n), p''))"

lemma unat_u32_less [simp]: "unat (x :: u32) < 4294967296"
  using unsigned_less [of x, where ?'a = nat] by simp

lemma clamp_u32_le: "unat (clamp_u32 n) \<le> n"
proof (cases "n < 2 ^ 32")
  case True
  then show ?thesis by (simp add: clamp_u32_def unat_of_nat)
next
  case False
  have "unat (clamp_u32 n) < 2 ^ 32" using unat_u32_less by simp
  with False show ?thesis by linarith
qed

lemma clamp_u32_eq: "n < 2 ^ 32 \<Longrightarrow> clamp_u32 n = of_nat n \<and> unat (clamp_u32 n) = n"
  by (simp add: clamp_u32_def unat_of_nat)

lemma clamp_u32_big: "\<not> n < 2 ^ 32 \<Longrightarrow> x \<le> clamp_u32 n"
  by (simp add: clamp_u32_def)

lemma unat_u32_sub: "(a :: u32) \<le> b \<Longrightarrow> unat (b - a) = unat b - unat a"
  by (simp add: unat_sub word_le_nat_alt)

lemma unat_u32_add: "unat a + unat b < unat (c :: u32) \<Longrightarrow> unat (a + b) = unat a + unat (b :: u32)"
  using unat_u32_less [of c] by (simp add: unat_word_ariths del: unat_u32_less)

text \<open>What a visit at \<open>now\<close> earns: the whole burst when enough intervals have passed, and otherwise a
  token for each of them.\<close>

lemma pacer_earn_cases:
  assumes "pacer_ok p"
  obtains (full) "pacer_earn now p = p\<lparr>pc_tokens := pc_burst p, pc_credited := now\<rparr>"
      "unat (pc_burst p) - unat (pc_tokens p) \<le> (now - pc_credited p) div pc_every p"
    | (part) x where "pc_every p * unat x \<le> now - pc_credited p"
      "now - pc_credited p < pc_every p * unat x + pc_every p"
      "unat (pc_tokens p) + unat x < unat (pc_burst p)"
      "pacer_earn now p = p\<lparr>pc_tokens := pc_tokens p + x,
         pc_credited := pc_credited p + pc_every p * unat x\<rparr>"
proof -
  define k where "k = (now - pc_credited p) div pc_every p"
  have mx: "max (pc_every p) 1 = pc_every p" and le: "pc_tokens p \<le> pc_burst p"
    using assms by (auto simp: pacer_ok_def)
  note eq = pacer_earn_def [of now p, unfolded mx Let_def k_def [symmetric]]
  have lt: "unat (pc_burst p) < 2 ^ 32" using unat_u32_less by simp
  show thesis
  proof (cases "pc_burst p - pc_tokens p \<le> clamp_u32 k")
    case True
    then have "unat (pc_burst p) - unat (pc_tokens p) \<le> k"
      using clamp_u32_le [of k] unat_u32_sub [OF le] by (simp add: word_le_nat_alt)
    then show thesis using that(1) True eq unfolding k_def by simp
  next
    case False
    then have k: "k < 2 ^ 32" using clamp_u32_big by blast
    then have ku: "unat (clamp_u32 k) = k" using clamp_u32_eq by blast
    have "k < unat (pc_burst p) - unat (pc_tokens p)"
      using False ku unat_u32_sub [OF le] unfolding word_le_nat_alt by simp
    moreover have "pc_every p * k \<le> now - pc_credited p" "now - pc_credited p < pc_every p * k + pc_every p"
      using assms dividend_less_times_div [of "pc_every p" "now - pc_credited p"]
      by (simp_all add: k_def pacer_ok_def add.commute)
    ultimately show thesis using that(2) [of "clamp_u32 k"] False eq ku by simp
  qed
qed

text \<open>The bucket's balance: what was granted since \<open>t0\<close> and what is left never exceed the burst and the
  intervals the credit has moved through.\<close>

definition balanced :: "nat \<Rightarrow> nat \<Rightarrow> pacer \<Rightarrow> bool" where
  "balanced t0 granted p \<longleftrightarrow> pacer_ok p \<and> t0 \<le> pc_credited p \<and>
     granted + unat (pc_tokens p) \<le> unat (pc_burst p) + (pc_credited p - t0) div pc_every p"

lemma div_advance:
  fixes e :: nat
  assumes "0 < e" "t0 \<le> c" "c \<le> now"
  shows "(c - t0) div e + (now - c) div e \<le> (now - t0) div e"
proof -
  have "now - t0 = (c - t0) + (now - c)" using assms by simp
  then show ?thesis by (metis div_add1_eq le_add1)
qed

lemma pacer_earn_balanced:
  assumes "balanced t0 g p" "pc_credited p \<le> now"
  shows "balanced t0 g (pacer_earn now p) \<and> pc_credited (pacer_earn now p) \<le> now \<and>
    pc_burst (pacer_earn now p) = pc_burst p \<and> pc_every (pacer_earn now p) = pc_every p"
proof -
  let ?e = "pc_every p" and ?c = "pc_credited p"
  have ok: "pacer_ok p" and e: "0 < ?e" using assms(1) by (auto simp: balanced_def pacer_ok_def)
  from ok show ?thesis
  proof (cases rule: pacer_earn_cases [of p now])
    case full
    have "(?c - t0) div ?e + (now - ?c) div ?e \<le> (now - t0) div ?e"
      using div_advance [OF e] assms by (simp add: balanced_def)
    with full assms show ?thesis by (auto simp: balanced_def pacer_ok_def word_le_nat_alt)
  next
    case (part x)
    note tok = unat_u32_add [OF part(3)]
    have le: "?c + ?e * unat x \<le> now" using part(1) assms(2) by simp
    have dv: "(?c + ?e * unat x - t0) div ?e = (?c - t0) div ?e + unat x"
    proof -
      have "?c + ?e * unat x - t0 = (?c - t0) + ?e * unat x" using assms(1) by (simp add: balanced_def)
      then show ?thesis using e by simp
    qed
    show ?thesis using part(3) assms(1) unfolding part(4) balanced_def pacer_ok_def
      by (simp add: tok le dv word_le_nat_alt)
  qed
qed

lemma pacer_take_balanced:
  assumes "balanced t0 g p" "pc_credited p \<le> now" "pacer_take now p = (r, p')"
  shows "balanced t0 (case r of Inr _ \<Rightarrow> g + 1 | Inl _ \<Rightarrow> g) p' \<and> pc_credited p' \<le> now \<and>
    pc_burst p' = pc_burst p \<and> pc_every p' = pc_every p"
proof -
  let ?q = "pacer_earn now p"
  note q = pacer_earn_balanced [OF assms(1,2)]
  show ?thesis
  proof (cases "pc_tokens ?q = 0")
    case True
    then show ?thesis using assms(3) q by (auto simp: pacer_take_def Let_def)
  next
    case False
    then have u: "unat (pc_tokens ?q - 1) = unat (pc_tokens ?q) - 1" "0 < unat (pc_tokens ?q)"
      by (auto simp: unat_minus_one unat_gt_0)
    with False assms(3) q show ?thesis
      by (auto simp: pacer_take_def Let_def balanced_def pacer_ok_def word_le_nat_alt)
  qed
qed

lemma pacer_run_balanced:
  assumes "balanced t0 g p" "sorted (pc_credited p # ts)" "pacer_run ts p = (n, p')"
  shows "balanced t0 (g + n) p' \<and> pc_credited p' \<le> last (pc_credited p # ts) \<and>
    pc_burst p' = pc_burst p \<and> pc_every p' = pc_every p"
  using assms
proof (induction ts arbitrary: g p n)
  case (Cons now ts)
  obtain r q where q: "pacer_take now p = (r, q)" by fastforce
  obtain m where m: "pacer_run ts q = (m, p')" "n = (case r of Inr _ \<Rightarrow> m + 1 | Inl _ \<Rightarrow> m)"
    using Cons.prems(3) q by (auto split: prod.splits)
  have b: "balanced t0 (case r of Inr _ \<Rightarrow> g + 1 | Inl _ \<Rightarrow> g) q" "pc_credited q \<le> now"
    "pc_burst q = pc_burst p" "pc_every q = pc_every p"
    using pacer_take_balanced [OF Cons.prems(1) _ q] Cons.prems(2) by auto
  have "sorted (pc_credited q # ts)" using Cons.prems(2) b(2) by auto
  from Cons.IH [OF b(1) this m(1)] b m(2) Cons.prems(2) show ?case
    by (cases r; cases ts) auto
qed simp

text \<open>The pace holds over any stretch of time: from a fresh bucket, however the visits are timed, at
  most the burst and one token per full interval elapsed are granted.\<close>

theorem pacer_rate:
  assumes "0 < every" "sorted (t0 # ts)" "pacer_run ts (Pacer_new burst every t0) = (granted, p)"
  shows "granted \<le> unat burst + (last (t0 # ts) - t0) div every"
proof -
  have "balanced t0 0 (Pacer_new burst every t0)"
    using assms(1) by (simp add: balanced_def pacer_ok_def Pacer_new_def)
  from pacer_run_balanced [OF this _ assms(3)] assms(2)
  have "balanced t0 granted p" "pc_credited p \<le> last (t0 # ts)" "pc_burst p = burst" "pc_every p = every"
    by (simp_all add: Pacer_new_def)
  then have "granted \<le> unat burst + (pc_credited p - t0) div every"
    "(pc_credited p - t0) div every \<le> (last (t0 # ts) - t0) div every"
    by (auto simp: balanced_def intro: div_le_mono diff_le_mono)
  then show ?thesis by linarith
qed

theorem pacer_rate_witness: "(3 :: nat) \<le> unat (2 :: u32) + (last [0, 1, 2, 3, 12] - 0) div 10"
proof -
  have "fst (pacer_run [1, 2, 3, 12] (Pacer_new 2 10 0)) = 3" by code_simp
  then obtain p where "pacer_run [1, 2, 3, 12] (Pacer_new 2 10 0) = (3, p)" by (metis prod.collapse)
  from pacer_rate [OF _ _ this] show ?thesis by simp
qed

text \<open>A wait ends: when no token is left, the pause the bucket asks for is positive and at most one
  interval, and the next visit, that pause later or more, is granted.\<close>

theorem pacer_wait_ends:
  assumes "pacer_ok p" "0 < pc_burst p" "pc_credited p \<le> now" "pacer_take now p = (Inl left, p')"
    and "now + left \<le> later"
  shows "0 < left \<and> left \<le> pc_every p \<and> fst (pacer_take later p') = Inr ()"
proof -
  let ?q = "pacer_earn now p"
  have z: "pc_tokens ?q = 0" and p': "p' = ?q" and l: "left = pc_every ?q - (now - pc_credited ?q)"
    using assms(4) by (auto simp: pacer_take_def Let_def split: if_splits)
  obtain e: "pc_tokens p = 0" "?q = p" "now - pc_credited p < pc_every p"
    using assms(1)
  proof (cases rule: pacer_earn_cases [of p now])
    case full
    then show thesis using z assms(2) by simp
  next
    case (part x)
    then have "unat (pc_tokens p) + unat x = 0" using z unat_u32_add [OF part(3)] by simp
    then have "pc_tokens p = 0" "x = 0" by (simp_all add: unat_eq_0)
    then show thesis using that part by simp
  qed
  have left: "0 < left" "left \<le> pc_every p" "pc_every p \<le> later - pc_credited p"
    using l e assms(3,5) by simp_all
  from assms(1) have "pc_tokens (pacer_earn later p) \<noteq> 0"
  proof (cases rule: pacer_earn_cases [of p later])
    case full
    then show ?thesis using assms(2) by auto
  next
    case (part y)
    then have "0 < unat y" using left(3) by (cases "unat y") auto
    then show ?thesis using part e(1) by auto
  qed
  with left p' e show ?thesis by (simp add: pacer_take_def Let_def)
qed

theorem pacer_wait_ends_witness:
  "0 < (7 :: nat) \<and> 7 \<le> (10 :: nat) \<and> fst (pacer_take 10 (snd (pacer_take 3 \<lparr>pc_burst = 1, pc_every = 10, pc_tokens = 0, pc_credited = 0\<rparr>))) = Inr ()"
proof -
  let ?p = "\<lparr>pc_burst = 1, pc_every = 10, pc_tokens = 0, pc_credited = 0\<rparr>"
  have "fst (pacer_take 3 ?p) = Inl 7" by code_simp
  then have "pacer_take 3 ?p = (Inl 7, snd (pacer_take 3 ?p))" by (metis prod.collapse)
  from pacer_wait_ends [OF _ _ _ this, of 10] show ?thesis by (simp add: pacer_ok_def)
qed

end
