(* ===== verification/Http_Head.thy ===== *)
theory Http_Head
  imports Allow_Grammar
begin

text \<open>
  HTTP/1.1 message heads as the proxy reads and writes them: src/src/sandbox/proxy/wire.rs (parsing,
  framing, authorities, the rewrite of a response head) and the parts of src/src/sandbox/proxy/mod.rs
  it works with (\<open>Head\<close>, \<open>parse_status_code\<close>, \<open>reserialize_request\<close>). Heads are byte strings; an
  \<open>io::Error\<close> is the reason it carries.
\<close>

section \<open>Reading a head\<close>

record http_head =
  request_line :: string
  headers :: "(string \<times> string) list"

definition CR :: char where "CR = CHR 0x0D"
definition LF :: char where "LF = CHR 0x0A"
definition HTAB :: char where "HTAB = CHR 0x09"
definition CRLF :: string where "CRLF = [CR, LF]"

text \<open>\<open>str::eq_ignore_ascii_case\<close>\<close>

definition eq_ignore_case :: "string \<Rightarrow> string \<Rightarrow> bool" where
  "eq_ignore_case a b = (to_ascii_lowercase a = to_ascii_lowercase b)"

definition is_ows :: "char \<Rightarrow> bool" where
  "is_ows c = (c = CHR '' '' \<or> c = HTAB)"

definition trim_ows :: "string \<Rightarrow> string" where
  "trim_ows v = rev (dropWhile is_ows (rev (dropWhile is_ows v)))"

definition header_of :: "http_head \<Rightarrow> string \<Rightarrow> string option" where
  "header_of h name = map_option snd (List.find (\<lambda>(k, v). eq_ignore_case k name) (headers h))"

definition header_count :: "http_head \<Rightarrow> string \<Rightarrow> nat" where
  "header_count h name = length (filter (\<lambda>(k, v). eq_ignore_case k name) (headers h))"

definition head_expects_continue :: "http_head \<Rightarrow> bool" where
  "head_expects_continue h =
     list_ex (\<lambda>(k, v). eq_ignore_case k ''expect'' \<and> eq_ignore_case v ''100-continue'') (headers h)"

definition fold_name_char :: "char \<Rightarrow> char" where
  "fold_name_char c = (if c = CHR ''_'' then CHR ''-'' else ascii_lower c)"

definition header_name_eq :: "string \<Rightarrow> string \<Rightarrow> bool" where
  "header_name_eq a b =
     (length a = length b \<and> list_all (\<lambda>(x, y). fold_name_char x = fold_name_char y) (zip a b))"

text \<open>\<open>text.split("\r\n").flat_map(|l| l.split('\n'))\<close>\<close>

fun split_crlf :: "string \<Rightarrow> string list" where
  "split_crlf [] = [[]]"
| "split_crlf [c] = [[c]]"
| "split_crlf (c # d # s) =
     (if c = CR \<and> d = LF then [] # split_crlf s
      else case split_crlf (d # s) of [] \<Rightarrow> [[c]] | x # xs \<Rightarrow> (c # x) # xs)"

definition head_lines :: "string \<Rightarrow> string list" where
  "head_lines text = concat (map (split_on LF) (split_crlf text))"

datatype head_fault = NonUtf8 | EmptyRequestLine | FoldFirst | SpaceBeforeColon

text \<open>The loop over the header lines, on the headers read so far.\<close>

fun parse_header_lines :: "string list \<Rightarrow> (string \<times> string) list \<Rightarrow> head_fault + (string \<times> string) list" where
  "parse_header_lines [] hs = Inr hs"
| "parse_header_lines (line # lines) hs =
     (if line = [] then Inr hs
      else if is_ows (hd line) then
        (if hs = [] then Inl FoldFirst
         else let (k, v) = last hs in
              parse_header_lines lines
                (butlast hs @ [(k, v @ (if v = [] then [] else '' '') @ trim_ows line)]))
      else case split_once CHR '':'' line of
        Some (k, v) \<Rightarrow>
          if k \<noteq> [] \<and> is_ows (last k) then Inl SpaceBeforeColon
          else parse_header_lines lines (hs @ [(trim_ows k, trim_ows v)])
      | None \<Rightarrow> parse_header_lines lines hs)"

definition parse_head :: "string \<Rightarrow> head_fault + http_head" where
  "parse_head bytes =
     (if \<not> valid_utf8 bytes then Inl NonUtf8
      else case head_lines bytes of
        [] \<Rightarrow> Inl EmptyRequestLine
      | rl # lines \<Rightarrow>
          if rl = [] then Inl EmptyRequestLine
          else case parse_header_lines lines [] of
            Inl e \<Rightarrow> Inl e
          | Inr hs \<Rightarrow> Inr \<lparr>request_line = rl, headers = hs\<rparr>)"

definition list_names :: "string \<Rightarrow> string \<Rightarrow> bool" where
  "list_names v tok = list_ex (\<lambda>el. eq_ignore_case (trim_ows el) tok) (split_on CHR '','' v)"

definition bad_bytes :: "string \<Rightarrow> bool" where
  "bad_bytes s = list_ex (\<lambda>b. b \<noteq> HTAB \<and> (byte b < 32 \<or> byte b = 127)) s"

definition head_carries_control_byte :: "http_head \<Rightarrow> bool" where
  "head_carries_control_byte h =
     (bad_bytes (request_line h) \<or> list_ex (\<lambda>(k, v). bad_bytes k \<or> bad_bytes v) (headers h))"

section \<open>The framing of a request\<close>

record framing =
  chunked :: bool
  body_len :: u64

datatype framing_refusal =
    ControlChar | DupTransferEncoding | TransferEncoding | DupContentLength | DupHost
  | InvalidContentLength

text \<open>The token a refusal is logged under.\<close>

definition refusal_reason :: "framing_refusal \<Rightarrow> string" where
  "refusal_reason r =
     (case r of
        ControlChar \<Rightarrow> ''bad-request:control-char''
      | DupTransferEncoding \<Rightarrow> ''bad-request:dup-transfer-encoding''
      | TransferEncoding \<Rightarrow> ''bad-request:transfer-encoding''
      | DupContentLength \<Rightarrow> ''bad-request:dup-content-length''
      | DupHost \<Rightarrow> ''bad-request:dup-host''
      | InvalidContentLength \<Rightarrow> ''bad-request:invalid-content-length'')"

definition content_length :: "string \<Rightarrow> u64 option" where
  "content_length v =
     (let digits = trim_ows v in
      if digits = [] \<or> \<not> list_all is_ascii_digit digits then None
      else case parse_digits 10 digits of
             Some n \<Rightarrow> if n < 2 ^ 64 then Some (of_nat n) else None
           | None \<Rightarrow> None)"

definition inspect_framing :: "http_head \<Rightarrow> bool \<Rightarrow> framing_refusal + framing" where
  "inspect_framing h forwards_chunked =
     (if head_carries_control_byte h then Inl ControlChar
      else if 1 < header_count h ''transfer-encoding'' then Inl DupTransferEncoding
      else
        case (case header_of h ''transfer-encoding'' of
                Some v \<Rightarrow>
                  if forwards_chunked \<and> eq_ignore_case v ''chunked'' then Inr True
                  else Inl TransferEncoding
              | None \<Rightarrow> Inr False) of
          Inl e \<Rightarrow> Inl e
        | Inr c \<Rightarrow>
            if 1 < header_count h ''content-length'' then Inl DupContentLength
            else if 1 < header_count h ''host'' then Inl DupHost
            else
              case (if c then None else header_of h ''content-length'') of
                None \<Rightarrow> Inr \<lparr>chunked = c, body_len = 0\<rparr>
              | Some v \<Rightarrow>
                  (case content_length v of
                     None \<Rightarrow> Inl InvalidContentLength
                   | Some n \<Rightarrow> Inr \<lparr>chunked = c, body_len = n\<rparr>))"

section \<open>Request lines and authorities\<close>

definition request_line_parts :: "string \<Rightarrow> (string \<times> string) option" where
  "request_line_parts line =
     (case split_on CHR '' '' line of
        [m, t, v] \<Rightarrow> if m \<noteq> [] \<and> t \<noteq> [] \<and> v \<noteq> [] then Some (m, t) else None
      | _ \<Rightarrow> None)"

definition request_line_version :: "string \<Rightarrow> string option" where
  "request_line_version line =
     (let ts = split_on CHR '' '' line in if 2 < length ts then Some (ts ! 2) else None)"

definition request_line_method :: "string \<Rightarrow> string option" where
  "request_line_method line = Some (hd (split_on CHR '' '' line))"

definition request_line_is_http11 :: "string \<Rightarrow> bool" where
  "request_line_is_http11 line = (request_line_version line = Some ''HTTP/1.1'')"

definition keeps_alive :: "http_head \<Rightarrow> bool" where
  "keeps_alive h =
     (request_line_is_http11 (request_line h) \<and>
      \<not> list_ex (\<lambda>(k, v). eq_ignore_case k ''connection'' \<and> list_names v ''close'') (headers h))"

definition request_authority :: "string \<Rightarrow> (string \<times> u16 option) option" where
  "request_authority v =
     (case split_request_authority v of
        Inl _ \<Rightarrow> None
      | Inr (h, port) \<Rightarrow>
          let h = canonical_host h in if is_request_host h then Some (h, port) else None)"

definition connect_authority :: "string \<Rightarrow> (string \<times> u16) option" where
  "connect_authority target =
     (case request_authority target of Some (h, Some p) \<Rightarrow> Some (h, p) | _ \<Rightarrow> None)"

definition authority_bound_to :: "string \<Rightarrow> string \<Rightarrow> u16 \<Rightarrow> bool" where
  "authority_bound_to v h port =
     (case request_authority v of
        Some (named, named_port) \<Rightarrow>
          named = h \<and> (case named_port of None \<Rightarrow> True | Some p \<Rightarrow> p = port)
      | None \<Rightarrow> False)"

definition sni_bound_to :: "string option \<Rightarrow> string \<Rightarrow> bool" where
  "sni_bound_to sni h = (case sni of Some name \<Rightarrow> canonical_host name = h | None \<Rightarrow> False)"

section \<open>The framing and the lifetime of a response\<close>

definition parse_status_code :: "string \<Rightarrow> nat option" where
  "parse_status_code bytes =
     (let line = before LF bytes;
          line = (case strip_suffix [CR] line of Some l \<Rightarrow> l | None \<Rightarrow> line) in
      if \<not> valid_utf8 line then None
      else case split_once CHR '' '' line of
        None \<Rightarrow> None
      | Some (version, rest) \<Rightarrow>
          if length rest < 3 \<or> \<not> list_all is_ascii_digit (take 3 rest) then None
          else if \<not> starts_with ''HTTP/'' version \<or> \<not> (length rest = 3 \<or> rest ! 3 = CHR '' '') then None
          else (case parse_digits 10 (take 3 rest) of
                  Some code \<Rightarrow> if 100 \<le> code \<and> code \<le> 599 then Some code else None
                | None \<Rightarrow> None))"

datatype body_framing = FrEmpty | FrLength u64 | FrChunked | FrToEof

definition response_framing :: "string \<Rightarrow> string \<Rightarrow> body_framing" where
  "response_framing head request_method =
     (if eq_ignore_case request_method ''head'' \<or>
         (case parse_status_code head of
            Some c \<Rightarrow> c = 204 \<or> c = 304 \<or> (100 \<le> c \<and> c < 200) | None \<Rightarrow> False)
      then FrEmpty
      else case parse_head head of
        Inl _ \<Rightarrow> FrToEof
      | Inr h \<Rightarrow>
          let te = header_count h ''transfer-encoding''; cl = header_count h ''content-length'' in
          if 0 < te then
            if 1 < te \<or> 0 < cl then FrToEof
            else let final_coding =
                   (case header_of h ''transfer-encoding'' of
                      Some codings \<Rightarrow> after_last CHR '','' codings | None \<Rightarrow> [])
                 in if list_names final_coding ''chunked'' then FrChunked else FrToEof
          else if 1 < cl then FrToEof
          else case Option.bind (header_of h ''content-length'') content_length of
                 Some n \<Rightarrow> FrLength n | None \<Rightarrow> FrToEof)"

text \<open>\<open>challenge.split_whitespace().next()\<close>\<close>

definition first_word :: "string \<Rightarrow> string" where
  "first_word s = concat (takeWhile (\<lambda>c. c \<notin> set white_space) (chars (trim_start s)))"

definition is_connection_bound_challenge :: "string \<Rightarrow> bool" where
  "is_connection_bound_challenge v =
     list_ex (\<lambda>challenge. eq_ignore_case (first_word challenge) ''ntlm'' \<or>
                          eq_ignore_case (first_word challenge) ''negotiate'')
       (split_on CHR '','' v)"

definition connection_token :: "http_head \<Rightarrow> string \<Rightarrow> bool" where
  "connection_token h tok =
     list_ex (\<lambda>(k, v). eq_ignore_case k ''connection'' \<and> list_names v tok) (headers h)"

definition response_keeps_alive :: "string \<Rightarrow> bool" where
  "response_keeps_alive head =
     (case parse_head head of
        Inl _ \<Rightarrow> False
      | Inr h \<Rightarrow>
          if connection_token h ''close'' then False
          else if list_ex (\<lambda>(k, v). eq_ignore_case k ''www-authenticate'' \<and>
                                    is_connection_bound_challenge v) (headers h) then False
          else let version = before CHR '' '' (request_line h) in
               if version = ''HTTP/1.1'' then True
               else if version = ''HTTP/1.0'' then connection_token h ''keep-alive''
               else False)"

section \<open>Rewriting a response head for the client\<close>

text \<open>\<open>split_inclusive(|&b| b == b'\n')\<close>\<close>

fun split_inclusive :: "string \<Rightarrow> string list" where
  "split_inclusive [] = []"
| "split_inclusive (c # s) =
     (if c = LF then [c] # split_inclusive s
      else case split_inclusive s of [] \<Rightarrow> [[c]] | x # xs \<Rightarrow> (c # x) # xs)"

text \<open>\<open>str::lines\<close>: a line ends with a line feed, and with the carriage return before it.\<close>

definition str_lines :: "string \<Rightarrow> string list" where
  "str_lines s = map (\<lambda>l. case strip_suffix [LF] l of None \<Rightarrow> l
     | Some l' \<Rightarrow> (case strip_suffix [CR] l' of None \<Rightarrow> l' | Some l'' \<Rightarrow> l'')) (split_inclusive s)"

definition strip_last :: "char \<Rightarrow> string \<Rightarrow> string" where
  "strip_last c l = (if l \<noteq> [] \<and> last l = c then butlast l else l)"

definition strip_eol :: "string \<Rightarrow> string" where
  "strip_eol l = strip_last CR (strip_last LF l)"

definition is_ascii_whitespace :: "char \<Rightarrow> bool" where
  "is_ascii_whitespace c = (c \<in> {CHR '' '', HTAB, LF, CR, CHR 0x0C})"

definition trim_ascii :: "string \<Rightarrow> string" where
  "trim_ascii s = rev (dropWhile is_ascii_whitespace (rev (dropWhile is_ascii_whitespace s)))"

definition is_hop_name :: "string \<Rightarrow> bool" where
  "is_hop_name name =
     (eq_ignore_case name ''connection'' \<or> eq_ignore_case name ''keep-alive'' \<or>
      eq_ignore_case name ''proxy-connection'')"

text \<open>The loop, on the lines after the status line: \<open>None\<close> when no blank line ends the head.\<close>

fun rewrite_lines :: "string \<Rightarrow> bool \<Rightarrow> string list \<Rightarrow> string option" where
  "rewrite_lines repl dropping [] = None"
| "rewrite_lines repl dropping (line # lines) =
     (let bare = strip_eol line in
      if bare = [] then Some (repl @ line)
      else if is_ows (hd bare) then
        (if dropping then rewrite_lines repl dropping lines
         else map_option ((@) line) (rewrite_lines repl dropping lines))
      else
        (let dropping = is_hop_name (trim_ascii (before CHR '':'' bare)) in
         if dropping then rewrite_lines repl dropping lines
         else map_option ((@) line) (rewrite_lines repl dropping lines)))"

definition rewrite_client_connection :: "string \<Rightarrow> string \<Rightarrow> string" where
  "rewrite_client_connection head repl =
     (case split_inclusive head of
        [] \<Rightarrow> head
      | status # lines \<Rightarrow>
          (case rewrite_lines repl False lines of
             Some out \<Rightarrow> status @ out | None \<Rightarrow> head))"

definition force_close_in_head :: "string \<Rightarrow> string" where
  "force_close_in_head head = rewrite_client_connection head (''Connection: close'' @ CRLF)"

definition offer_reuse_in_head :: "string \<Rightarrow> nat \<Rightarrow> string" where
  "offer_reuse_in_head head idle_secs =
     rewrite_client_connection head
       (''Connection: keep-alive'' @ CRLF @ ''Keep-Alive: timeout='' @ fmt_nat 10 idle_secs @ CRLF)"

section \<open>Writing a request head\<close>

definition IDENTITY_ENCODINGS :: "(string \<times> string) list" where
  "IDENTITY_ENCODINGS = [(''accept-encoding'', ''identity''), (''grpc-accept-encoding'', ''identity'')]"

definition header_line :: "string \<times> string \<Rightarrow> string" where
  "header_line kv = fst kv @ '': '' @ snd kv @ CRLF"

text \<open>Which of the client's headers are forwarded.\<close>

definition forwarded ::
  "(string \<times> string) list \<Rightarrow> u64 option \<Rightarrow> bool \<Rightarrow> string \<times> string \<Rightarrow> bool" where
  "forwarded injections force_content_length force_identity kv =
     (let k = fst kv in
      \<not> (eq_ignore_case k ''connection'' \<or> eq_ignore_case k ''proxy-connection'' \<or>
         eq_ignore_case k ''proxy-authorization'' \<or> eq_ignore_case k ''expect'') \<and>
      \<not> list_ex (\<lambda>(name, v). header_name_eq k name) injections \<and>
      \<not> (\<not> Option.is_none force_content_length \<and>
         (eq_ignore_case k ''transfer-encoding'' \<or> eq_ignore_case k ''content-length'')) \<and>
      \<not> (force_identity \<and> list_ex (\<lambda>(name, v). header_name_eq k name) IDENTITY_ENCODINGS))"

definition reserialize_request ::
  "http_head \<Rightarrow> (string \<times> string) list \<Rightarrow> u64 option \<Rightarrow> bool \<Rightarrow> bool \<Rightarrow> string" where
  "reserialize_request h injections force_content_length keep_alive force_identity =
     request_line h @ CRLF @
     concat (map header_line (filter (forwarded injections force_content_length force_identity) (headers h))) @
     (if force_identity then concat (map header_line IDENTITY_ENCODINGS) else []) @
     concat (map header_line injections) @
     (case force_content_length of
        Some n \<Rightarrow> ''Content-Length: '' @ fmt_nat 10 (unat n) @ CRLF | None \<Rightarrow> []) @
     (if keep_alive then [] else ''Connection: close'' @ CRLF) @ CRLF"

section \<open>Valid text and its parts\<close>

lemma conts_append: "conts n s = (True, k) \<Longrightarrow> conts n (s @ t) = (True, k)"
proof (induction n s arbitrary: k rule: conts.induct)
  case (1 n)
  then show ?case by (cases t) auto
next
  case (2 n c s)
  then show ?case by (auto split: if_splits prod.splits)
qed

lemma utf8_seq_append: "utf8_seq b s = (True, k) \<Longrightarrow> utf8_seq b (s @ t) = (True, k)"
  by (cases s) (auto simp: utf8_seq_def Let_def conts_append split: if_splits prod.splits)

lemma valid_utf8_append: "valid_utf8 s \<Longrightarrow> valid_utf8 t \<Longrightarrow> valid_utf8 (s @ t)"
proof (induction s rule: valid_utf8.induct)
  case (2 b s)
  obtain k where k: "utf8_seq b s = (True, k)" "valid_utf8 (drop k s)"
    using "2.prems"(1) by (auto simp: valid_utf8.simps(2) split: prod.splits)
  have "k \<le> length s" using utf8_seq_bound [OF k(1)] .
  with 2 k show ?case by (simp add: valid_utf8.simps(2) utf8_seq_append)
qed simp

lemma valid_utf8_cut:
  assumes c: "is_ascii c"
  shows "valid_utf8 (s @ c # t) \<longleftrightarrow> valid_utf8 s \<and> valid_utf8 t"
proof (induction s rule: valid_utf8.induct)
  case 1
  show ?case using c by (simp add: valid_utf8.simps(2))
next
  case (2 b s)
  obtain ok k where k: "utf8_seq b s = (ok, k)" by fastforce
  then have "k \<le> length s" by (rule utf8_seq_bound)
  with 2 [OF k [symmetric] refl] k c show ?case
    by (auto simp: valid_utf8.simps(2) utf8_seq_ascii_tail)
qed

lemma valid_utf8_Cons: "is_ascii c \<Longrightarrow> valid_utf8 (c # t) \<longleftrightarrow> valid_utf8 t"
  using valid_utf8_cut [of c "[]" t] by simp

lemma valid_utf8_snoc: "is_ascii c \<Longrightarrow> valid_utf8 (s @ [c]) \<longleftrightarrow> valid_utf8 s"
  using valid_utf8_cut [of c s "[]"] by simp

lemma valid_utf8_ascii: "list_all is_ascii s \<Longrightarrow> valid_utf8 s"
  by (induction s) (auto simp: valid_utf8_Cons)

lemma ascii_delims [simp]: "is_ascii CR" "is_ascii LF" "is_ascii HTAB" "is_ascii CHR '' ''" "is_ascii CHR '':''"
  by (simp_all add: is_ascii_def CR_def LF_def HTAB_def)

lemma delims_distinct [simp]: "CR \<noteq> LF" "LF \<noteq> CR" "CHR '' '' \<noteq> LF" "LF \<noteq> CHR '' ''" "CHR '':'' \<noteq> LF"
    "LF \<noteq> CHR '':''" "CR \<noteq> CHR '':''" "CHR '' '' \<noteq> CR" "CR \<noteq> CHR '' ''" "CHR '':'' \<noteq> CR"
  by (simp_all add: CR_def LF_def)

lemma is_ows_ascii: "is_ows c \<Longrightarrow> is_ascii c"
  by (auto simp: is_ows_def)

lemma is_ows_LF [simp]: "\<not> is_ows LF" "\<not> is_ows CR" "\<not> is_ows CHR '':''" "is_ows CHR '' ''"
  by (auto simp: is_ows_def LF_def CR_def HTAB_def)

text \<open>Trimming optional white space.\<close>

lemma trim_ows_split: "\<exists>a b. v = a @ trim_ows v @ b \<and> list_all is_ows a \<and> list_all is_ows b"
proof -
  let ?m = "dropWhile is_ows v"
  have "v = takeWhile is_ows v @ ?m" by simp
  moreover have "?m = trim_ows v @ rev (takeWhile is_ows (rev ?m))"
    unfolding trim_ows_def by (metis rev_append rev_rev_ident takeWhile_dropWhile_id)
  ultimately have "v = takeWhile is_ows v @ trim_ows v @ rev (takeWhile is_ows (rev ?m))" by metis
  moreover have "list_all is_ows (takeWhile is_ows v)" "list_all is_ows (rev (takeWhile is_ows (rev ?m)))"
    by (auto simp: list_all_iff dest: set_takeWhileD)
  ultimately show ?thesis by blast
qed

definition trimmed :: "string \<Rightarrow> bool" where
  "trimmed v \<longleftrightarrow> (v = [] \<or> (\<not> is_ows (hd v) \<and> \<not> is_ows (last v)))"

lemma trim_ows_id: "trimmed v \<Longrightarrow> trim_ows v = v"
proof -
  assume "trimmed v"
  then have "dropWhile is_ows v = v" "dropWhile is_ows (rev v) = rev v"
    by (auto simp: trimmed_def dropWhile_eq_self_iff hd_rev)
  then show ?thesis by (simp add: trim_ows_def)
qed

lemma trimmed_trim_ows: "trimmed (trim_ows v)"
proof (cases "trim_ows v = []")
  case False
  let ?m = "dropWhile is_ows v"
  have d: "dropWhile is_ows (rev ?m) \<noteq> []" using False by (simp add: trim_ows_def)
  have "\<not> is_ows (hd (dropWhile is_ows (rev ?m)))" using d by (rule hd_dropWhile)
  moreover have "hd (trim_ows v) = hd ?m"
    using False trim_ows_split [of ?m] unfolding trim_ows_def
    by (metis d hd_append2 hd_rev last_appendR rev_is_Nil_conv rev_rev_ident takeWhile_dropWhile_id)
  moreover have "?m \<noteq> []" using d by (metis dropWhile.simps(1) rev.simps(1))
  then have "\<not> is_ows (hd ?m)" by (rule hd_dropWhile)
  ultimately show ?thesis using False by (simp add: trimmed_def trim_ows_def last_rev)
qed (simp add: trimmed_def)

lemma trim_ows_idem [simp]: "trim_ows (trim_ows v) = trim_ows v"
  by (rule trim_ows_id [OF trimmed_trim_ows])

lemma trim_ows_Cons: "is_ows c \<Longrightarrow> trim_ows (c # v) = trim_ows v"
  by (simp add: trim_ows_def)

lemma trim_ows_subset: "set (trim_ows v) \<subseteq> set v"
  by (metis Un_upper1 Un_upper2 set_append subset_trans trim_ows_split)

lemma valid_utf8_ows_prefix: "list_all is_ows a \<Longrightarrow> valid_utf8 (a @ v) \<longleftrightarrow> valid_utf8 v"
  by (induction a) (auto simp: valid_utf8_Cons is_ows_ascii)

lemma valid_utf8_ows_suffix: "list_all is_ows b \<Longrightarrow> valid_utf8 (v @ b) \<longleftrightarrow> valid_utf8 v"
  by (induction b rule: rev_induct) (auto simp: valid_utf8_snoc is_ows_ascii simp flip: append_assoc)

lemma valid_utf8_trim_ows: "valid_utf8 (trim_ows v) \<longleftrightarrow> valid_utf8 v"
  by (metis trim_ows_split valid_utf8_ows_prefix valid_utf8_ows_suffix)

text \<open>The lines of a head.\<close>

lemma split_crlf_line: "CR \<notin> set l \<Longrightarrow> split_crlf (l @ CRLF @ rest) = l # split_crlf rest"
proof (induction l)
  case Nil
  show ?case by (simp add: CRLF_def)
next
  case (Cons c l)
  then show ?case by (cases l) (auto simp: CRLF_def)
qed

lemma head_lines_line: "CR \<notin> set l \<Longrightarrow> LF \<notin> set l \<Longrightarrow> head_lines (l @ CRLF @ rest) = l # head_lines rest"
  by (simp add: head_lines_def split_crlf_line)

lemma split_on_valid:
  "is_ascii d \<Longrightarrow> valid_utf8 s \<Longrightarrow> l \<in> set (split_on d s) \<Longrightarrow> valid_utf8 l"
proof (induction "length s" arbitrary: s rule: less_induct)
  case less
  show ?case
  proof (cases "d \<in> set s")
    case False
    then show ?thesis using less.prems by simp
  next
    case True
    then obtain a b where s: "s = a @ d # b" "d \<notin> set a" by (metis split_list_first)
    then have v: "valid_utf8 a" "valid_utf8 b" using less.prems valid_utf8_cut by auto
    then have "l \<in> set (split_on d b) \<Longrightarrow> valid_utf8 l" using less.hyps [of b] less.prems(1) s by simp
    then show ?thesis using less.prems(3) s v by (auto simp: split_on_append_delim)
  qed
qed

lemma split_crlf_nonempty [simp]: "split_crlf s \<noteq> []"
  by (induction s rule: split_crlf.induct) (auto split: list.splits)

lemma head_lines_nonempty [simp]: "head_lines s \<noteq> []"
  by (induction s rule: split_crlf.induct) (auto simp: head_lines_def split: list.splits)

lemma head_lines_Cons:
  assumes "\<not> (c = CR \<and> s \<noteq> [] \<and> hd s = LF)" "c \<noteq> LF"
  shows "head_lines (c # s) = (c # hd (head_lines s)) # tl (head_lines s)"
proof -
  have sc: "split_crlf (c # s) = (c # hd (split_crlf s)) # tl (split_crlf s)"
    using assms split_crlf_nonempty [of s] by (cases s) (auto split: list.splits simp del: split_crlf_nonempty)
  obtain x xs where x: "split_crlf s = x # xs" by (cases "split_crlf s") auto
  show ?thesis
    using assms(2) unfolding head_lines_def sc x
    by (cases "split_on LF x") auto
qed

lemma head_lines_LF: "head_lines (LF # s) = [] # head_lines s"
proof -
  obtain x xs where x: "split_crlf s = x # xs" by (cases "split_crlf s") auto
  then have "split_crlf (LF # s) = (LF # x) # xs" by (cases s) auto
  then show ?thesis by (simp add: head_lines_def x)
qed

lemma head_lines_CRLF: "head_lines (CR # LF # s) = [] # head_lines s"
  by (simp add: head_lines_def)

text \<open>So a head is cut at every line feed, with one carriage return before it.\<close>

lemma head_lines_split:
  "head_lines s = map (strip_last CR) (butlast (split_on LF s)) @ [last (split_on LF s)]"
proof (induction "length s" arbitrary: s rule: less_induct)
  case less
  show ?case
  proof (cases s)
    case Nil
    then show ?thesis by (simp add: head_lines_def)
  next
    case (Cons c t)
    have IH: "head_lines t = map (strip_last CR) (butlast (split_on LF t)) @ [last (split_on LF t)]"
      using less Cons by simp
    obtain y ys where y: "split_on LF t = y # ys" by (cases "split_on LF t") auto
    consider (lf) "c = LF" | (crlf) u where "c = CR" "t = LF # u" | (plain) "c \<noteq> LF" "\<not> (c = CR \<and> t \<noteq> [] \<and> hd t = LF)"
      by (cases t) auto
    then show ?thesis
    proof cases
      case lf
      then show ?thesis using IH y by (simp add: Cons head_lines_LF strip_last_def)
    next
      case crlf
      have "head_lines u = map (strip_last CR) (butlast (split_on LF u)) @ [last (split_on LF u)]"
        using less Cons crlf by simp
      then show ?thesis using crlf by (simp add: Cons head_lines_CRLF strip_last_def)
    next
      case plain
      have "ys \<noteq> [] \<Longrightarrow> y = [] \<Longrightarrow> c \<noteq> CR"
        using plain y by (cases t) (auto split: if_splits list.splits)
      then show ?thesis using IH plain y by (auto simp: Cons head_lines_Cons strip_last_def)
    qed
  qed
qed

lemma valid_utf8_strip_last: "is_ascii c \<Longrightarrow> valid_utf8 l \<Longrightarrow> valid_utf8 (strip_last c l)"
  by (cases l rule: rev_cases) (auto simp: strip_last_def valid_utf8_snoc)

lemma head_lines_text:
  assumes "valid_utf8 s" "l \<in> set (head_lines s)" shows "valid_utf8 l \<and> LF \<notin> set l"
proof -
  have "\<exists>p \<in> set (split_on LF s). l = strip_last CR p \<or> l = p"
    using assms(2) last_in_set [OF split_on_nonempty, of LF s]
    unfolding head_lines_split by (auto dest: in_set_butlastD)
  then obtain p where p: "p \<in> set (split_on LF s)" "l = strip_last CR p \<or> l = p" by blast
  moreover have "valid_utf8 p" "LF \<notin> set p"
    using split_on_valid [OF _ assms(1) p(1)] split_on_pieces [OF p(1)] by simp_all
  ultimately show ?thesis using valid_utf8_strip_last [of CR p]
    by (auto simp: strip_last_def split: if_splits dest: in_set_butlastD)
qed

section \<open>What is forwarded is what was read\<close>

text \<open>What every parsed head is: lines of valid text, names that read back as themselves, values whose
  only stray blanks are at their end.\<close>

definition name_ok :: "string \<Rightarrow> bool" where
  "name_ok k \<longleftrightarrow> valid_utf8 k \<and> LF \<notin> set k \<and> CHR '':'' \<notin> set k \<and> trimmed k"

definition value_ok :: "string \<Rightarrow> bool" where
  "value_ok v \<longleftrightarrow> valid_utf8 v \<and> LF \<notin> set v \<and> (v = [] \<or> \<not> is_ows (hd v))"

definition head_wf :: "http_head \<Rightarrow> bool" where
  "head_wf h \<longleftrightarrow> request_line h \<noteq> [] \<and> valid_utf8 (request_line h) \<and> LF \<notin> set (request_line h) \<and>
     list_all (\<lambda>(k, v). name_ok k \<and> value_ok v) (headers h)"

lemma value_ok_trim: "valid_utf8 v \<Longrightarrow> LF \<notin> set v \<Longrightarrow> value_ok (trim_ows v)"
  using trimmed_trim_ows [of v] trim_ows_subset [of v]
  by (auto simp: value_ok_def valid_utf8_trim_ows trimmed_def)

lemma value_ok_fold:
  assumes "value_ok v" "valid_utf8 l" "LF \<notin> set l"
  shows "value_ok (v @ (if v = [] then [] else '' '') @ trim_ows l)"
proof (cases "v = []")
  case True
  then show ?thesis using value_ok_trim assms by simp
next
  case False
  have "valid_utf8 ('' '' @ trim_ows l)" using assms by (simp add: valid_utf8_Cons valid_utf8_trim_ows)
  with False show ?thesis using assms trim_ows_subset [of l] valid_utf8_append [of v "'' '' @ trim_ows l"]
    by (auto simp: value_ok_def)
qed

lemma parse_header_lines_ok:
  assumes "list_all (\<lambda>l. valid_utf8 l \<and> LF \<notin> set l) lines" "list_all (\<lambda>(k, v). name_ok k \<and> value_ok v) hs"
    and "parse_header_lines lines hs = Inr out"
  shows "list_all (\<lambda>(k, v). name_ok k \<and> value_ok v) out"
  using assms
proof (induction lines hs rule: parse_header_lines.induct)
  case (2 line lines hs)
  have line: "valid_utf8 line" "LF \<notin> set line" and lines: "list_all (\<lambda>l. valid_utf8 l \<and> LF \<notin> set l) lines"
    using "2.prems"(1) by simp_all
  show ?case
  proof (cases "line = []")
    case True
    then show ?thesis using "2.prems" by simp
  next
    case ne: False
    show ?thesis
    proof (cases "is_ows (hd line)")
      case True
      then have hs: "hs \<noteq> []" using "2.prems"(3) ne by (auto split: if_splits)
      obtain k v where kv: "last hs = (k, v)" by fastforce
      let ?hs = "butlast hs @ [(k, v @ (if v = [] then [] else '' '') @ trim_ows line)]"
      have "(k, v) \<in> set hs" using hs kv last_in_set by metis
      then have "name_ok k" "value_ok v" using "2.prems"(2) by (auto simp: list_all_iff)
      then have ok: "list_all (\<lambda>(k, v). name_ok k \<and> value_ok v) ?hs"
        using "2.prems"(2) value_ok_fold line by (auto simp: list_all_iff dest: in_set_butlastD)
      have "parse_header_lines lines ?hs = Inr out" using "2.prems"(3) ne True hs kv by simp
      then show ?thesis using 2(1) [OF ne True hs kv [symmetric] refl lines ok] by simp
    next
      case noows: False
      show ?thesis
      proof (cases "split_once CHR '':'' line")
        case None
        then show ?thesis using 2 ne noows lines by simp
      next
        case (Some kv)
        then obtain k v where kv: "split_once CHR '':'' line = Some (k, v)" by (cases kv) auto
        then have l: "line = k @ CHR '':'' # v" "CHR '':'' \<notin> set k" by (simp_all add: split_once_Some)
        have nl: "\<not> (k \<noteq> [] \<and> is_ows (last k))" using "2.prems"(3) ne noows kv by (auto split: if_splits)
        have "trimmed k" using nl noows l(1) by (cases k) (auto simp: trimmed_def)
        then have "name_ok k" "trim_ows k = k" "value_ok (trim_ows v)"
          using l line value_ok_trim [of v] trim_ows_id by (auto simp: name_ok_def valid_utf8_cut)
        then show ?thesis using 2(3) [OF ne noows kv refl nl lines] "2.prems" ne noows kv nl by auto
      qed
    qed
  qed
qed simp

lemma parse_head_wf: "parse_head bytes = Inr h \<Longrightarrow> head_wf h"
proof -
  assume a: "parse_head bytes = Inr h"
  then have v: "valid_utf8 bytes" by (auto simp: parse_head_def split: if_splits)
  obtain rl lines where hl: "head_lines bytes = rl # lines" by (cases "head_lines bytes") auto
  from a v hl obtain hs where rl: "rl \<noteq> []" and p: "parse_header_lines lines [] = Inr hs"
    and h: "h = \<lparr>request_line = rl, headers = hs\<rparr>"
    by (auto simp: parse_head_def split: if_splits sum.splits)
  have "list_all (\<lambda>l. valid_utf8 l \<and> LF \<notin> set l) (rl # lines)"
    unfolding hl [symmetric] list_all_iff using head_lines_text [OF v] by blast
  with rl p h show ?thesis using parse_header_lines_ok [of lines "[]" hs] by (auto simp: head_wf_def)
qed

text \<open>A header that can be written on one line and read back.\<close>

definition header_ok :: "string \<times> string \<Rightarrow> bool" where
  "header_ok kv \<longleftrightarrow> name_ok (fst kv) \<and> value_ok (snd kv) \<and> \<not> bad_bytes (fst kv) \<and> \<not> bad_bytes (snd kv)"

definition sent_headers ::
  "http_head \<Rightarrow> (string \<times> string) list \<Rightarrow> u64 option \<Rightarrow> bool \<Rightarrow> bool \<Rightarrow> (string \<times> string) list" where
  "sent_headers h injections fcl keep_alive force_identity =
     filter (forwarded injections fcl force_identity) (headers h) @
     (if force_identity then IDENTITY_ENCODINGS else []) @ injections @
     (case fcl of Some n \<Rightarrow> [(''Content-Length'', fmt_nat 10 (unat n))] | None \<Rightarrow> []) @
     (if keep_alive then [] else [(''Connection'', ''close'')])"

lemma reserialize_sent:
  "reserialize_request h ins fcl ka fid =
     request_line h @ CRLF @ concat (map header_line (sent_headers h ins fcl ka fid)) @ CRLF"
  by (simp add: reserialize_request_def sent_headers_def header_line_def split: option.split)

definition bare_line :: "string \<times> string \<Rightarrow> string" where
  "bare_line kv = fst kv @ '': '' @ snd kv"

lemma bad_bytes_CR: "\<not> bad_bytes s \<Longrightarrow> CR \<notin> set s \<and> LF \<notin> set s"
proof -
  have "byte CR < 32 \<and> CR \<noteq> HTAB \<and> byte LF < 32 \<and> LF \<noteq> HTAB" by (simp add: CR_def LF_def HTAB_def)
  then show "\<not> bad_bytes s \<Longrightarrow> ?thesis" unfolding bad_bytes_def list_ex_iff by blast
qed

lemma header_line_bare: "header_line kv = bare_line kv @ CRLF"
  by (simp add: header_line_def bare_line_def)

lemma head_lines_written:
  "list_all header_ok kvs \<Longrightarrow>
     head_lines (concat (map header_line kvs) @ rest) = map bare_line kvs @ head_lines rest"
proof (induction kvs)
  case (Cons kv kvs)
  then have "CR \<notin> set (bare_line kv)" "LF \<notin> set (bare_line kv)"
    using bad_bytes_CR [of "fst kv"] bad_bytes_CR [of "snd kv"] by (auto simp: header_ok_def bare_line_def)
  then have "head_lines (bare_line kv @ CRLF @ (concat (map header_line kvs) @ rest)) =
      bare_line kv # head_lines (concat (map header_line kvs) @ rest)"
    by (rule head_lines_line)
  with Cons show ?case by (simp add: header_line_bare [of kv])
qed simp

lemma parse_header_lines_written:
  "list_all header_ok kvs \<Longrightarrow>
     parse_header_lines (map bare_line kvs @ [] # rest) hs = Inr (hs @ map (\<lambda>(k, v). (k, trim_ows v)) kvs)"
proof (induction kvs arbitrary: hs)
  case (Cons kv kvs)
  obtain k v where kv: "kv = (k, v)" by fastforce
  have k: "name_ok k" using Cons.prems kv by (simp add: header_ok_def)
  have line: "bare_line kv = k @ CHR '':'' # CHR '' '' # v" by (simp add: bare_line_def kv)
  have "bare_line kv \<noteq> []" "\<not> is_ows (hd (bare_line kv))"
    using k by (cases k; auto simp: line name_ok_def trimmed_def)+
  moreover have "split_once CHR '':'' (bare_line kv) = Some (k, CHR '' '' # v)"
    using k by (simp add: line split_once_Some name_ok_def)
  moreover have "\<not> (k \<noteq> [] \<and> is_ows (last k))" "trim_ows k = k"
    using k trim_ows_id by (auto simp: name_ok_def trimmed_def)
  ultimately show ?case using Cons by (simp add: kv trim_ows_Cons)
qed simp

lemma digits_text: "list_all is_ascii_digit s \<Longrightarrow> value_ok s \<and> \<not> bad_bytes s"
proof -
  assume d: "list_all is_ascii_digit s"
  have c: "is_ascii_digit c \<Longrightarrow> is_ascii c \<and> c \<noteq> LF \<and> \<not> is_ows c \<and> \<not> (byte c < 32 \<or> byte c = 127)" for c
    by (auto simp: ascii_classes is_ascii_def LF_def is_ows_def HTAB_def)
  then have "valid_utf8 s" using d by (intro valid_utf8_ascii) (auto simp: list_all_iff)
  moreover have "s \<noteq> [] \<Longrightarrow> \<not> is_ows (hd s)" using d c by (cases s) auto
  ultimately show ?thesis using d c by (auto simp: value_ok_def bad_bytes_def list_ex_iff list_all_iff)
qed

lemma head_wf_headers:
  assumes "head_wf h" "\<not> head_carries_control_byte h" shows "list_all header_ok (headers h)"
  using assms unfolding head_wf_def head_carries_control_byte_def list_all_iff list_ex_iff header_ok_def
  by fastforce

lemma valid_utf8_written: "list_all header_ok kvs \<Longrightarrow> valid_utf8 (concat (map header_line kvs))"
proof (induction kvs)
  case (Cons kv kvs)
  then have "valid_utf8 (header_line kv)"
    by (simp add: header_line_def header_ok_def name_ok_def value_ok_def CRLF_def valid_utf8_cut valid_utf8_Cons)
  with Cons show ?case by (simp add: valid_utf8_append)
qed simp

lemma added_headers_ok:
  "header_ok (''Content-Length'', fmt_nat 10 n)" "header_ok (''Connection'', ''close'')"
  "list_all header_ok IDENTITY_ENCODINGS"
proof -
  have "name_ok ''Content-Length'' \<and> \<not> bad_bytes ''Content-Length''" by code_simp
  then show "header_ok (''Content-Length'', fmt_nat 10 n)"
    using digits_text [of "fmt_nat 10 n"] fmt_nat_10_digits by (auto simp: header_ok_def list_all_iff)
  show "header_ok (''Connection'', ''close'')" "list_all header_ok IDENTITY_ENCODINGS" by code_simp+
qed

lemma sent_headers_ok:
  "head_wf h \<Longrightarrow> \<not> head_carries_control_byte h \<Longrightarrow> list_all header_ok ins \<Longrightarrow>
    list_all header_ok (sent_headers h ins fcl ka fid)"
  using head_wf_headers [of h] added_headers_ok
  by (auto simp: sent_headers_def list_all_iff split: option.split)

lemma parse_reserialized:
  assumes "parse_head bytes = Inr h" "inspect_framing h forwards_chunked = Inr f"
    and "list_all header_ok ins"
  shows "parse_head (reserialize_request h ins fcl ka fid) =
     Inr \<lparr>request_line = request_line h,
           headers = map (\<lambda>(k, v). (k, trim_ows v)) (sent_headers h ins fcl ka fid)\<rparr>"
    and "\<not> head_carries_control_byte \<lparr>request_line = request_line h,
           headers = map (\<lambda>(k, v). (k, trim_ows v)) (sent_headers h ins fcl ka fid)\<rparr>"
proof -
  have nc: "\<not> head_carries_control_byte h" using assms(2) by (auto simp: inspect_framing_def split: if_splits)
  have wf: "head_wf h" by (rule parse_head_wf [OF assms(1)])
  let ?kvs = "sent_headers h ins fcl ka fid"
  have ok: "list_all header_ok ?kvs" by (rule sent_headers_ok [OF wf nc assms(3)])
  have rl: "CR \<notin> set (request_line h)" "LF \<notin> set (request_line h)"
    using nc bad_bytes_CR [of "request_line h"] by (auto simp: head_carries_control_byte_def)
  have hl: "head_lines (reserialize_request h ins fcl ka fid) = request_line h # map bare_line ?kvs @ [[], []]"
  proof -
    have "head_lines (reserialize_request h ins fcl ka fid) =
        request_line h # head_lines (concat (map header_line ?kvs) @ CRLF)"
      unfolding reserialize_sent using rl by (rule head_lines_line)
    moreover have "head_lines CRLF = [[], []]" by (simp add: head_lines_def CRLF_def)
    ultimately show ?thesis using head_lines_written [OF ok] by simp
  qed
  have "valid_utf8 (reserialize_request h ins fcl ka fid)"
    unfolding reserialize_sent using wf valid_utf8_written [OF ok]
    by (simp add: head_wf_def CRLF_def valid_utf8_cut valid_utf8_Cons)
  with hl wf show "parse_head (reserialize_request h ins fcl ka fid) =
     Inr \<lparr>request_line = request_line h, headers = map (\<lambda>(k, v). (k, trim_ows v)) ?kvs\<rparr>"
    using parse_header_lines_written [OF ok, of "[[]]" "[]"] by (simp add: parse_head_def head_wf_def)
  have "bad_bytes (trim_ows v) \<Longrightarrow> bad_bytes v" for v
    using trim_ows_subset [of v] by (auto simp: bad_bytes_def list_ex_iff)
  then show "\<not> head_carries_control_byte \<lparr>request_line = request_line h,
      headers = map (\<lambda>(k, v). (k, trim_ows v)) ?kvs\<rparr>"
    using ok nc by (auto simp: head_carries_control_byte_def list_ex_iff list_all_iff header_ok_def)
qed


definition sample_request :: string where
  "sample_request = ''POST /v1 HTTP/1.1'' @ CRLF @ ''Host: api.test'' @ CRLF @ ''X_Api_Key: mine'' @ CRLF @
     ''Content-Length: 5'' @ CRLF @ CRLF"

definition sample_head :: http_head where
  "sample_head = \<lparr>request_line = ''POST /v1 HTTP/1.1'',
     headers = [(''Host'', ''api.test''), (''X_Api_Key'', ''mine''), (''Content-Length'', ''5'')]\<rparr>"

lemma sample_parsed:
  "parse_head sample_request = Inr sample_head"
  "inspect_framing sample_head True = Inr \<lparr>chunked = False, body_len = 5\<rparr>"
  "list_all header_ok [(''X-Api-Key'', ''s3cret'')]"
  by code_simp+


section \<open>An injected header is the only one of its name\<close>

lemma header_name_eq_map: "header_name_eq a b \<longleftrightarrow> map fold_name_char a = map fold_name_char b"
  unfolding header_name_eq_def by (auto simp: list_eq_iff_nth_eq list_all_length)

lemma eq_ignore_case_folds: "eq_ignore_case a b \<Longrightarrow> header_name_eq a b"
proof -
  have f: "fold_name_char (ascii_lower c) = fold_name_char c" for c
    by (simp add: fold_name_char_def ascii_lower_eq_iff ascii_classes)
  assume "eq_ignore_case a b"
  then have "map fold_name_char (map ascii_lower a) = map fold_name_char (map ascii_lower b)"
    by (simp add: eq_ignore_case_def to_ascii_lowercase_def)
  then show ?thesis by (simp add: header_name_eq_map comp_def f)
qed

lemma forwarded_not_injected:
  "forwarded ins fcl fid kv \<Longrightarrow> (name, v) \<in> set ins \<Longrightarrow> \<not> header_name_eq (fst kv) name"
  by (auto simp: forwarded_def list_ex_iff Let_def)

text \<open>The headers the proxy adds of itself.\<close>

definition added_names :: "string list" where
  "added_names = [''accept-encoding'', ''grpc-accept-encoding'', ''Content-Length'', ''Connection'']"

text \<open>An injected header is the only one of its name the upstream sees: over every spelling that folds
  onto it, the headers of the request written out are exactly the injections, whatever the client
  sent.\<close>

theorem injected_header_alone:
  assumes "(name, v) \<in> set ins" "list_all (\<lambda>a. \<not> header_name_eq a name) added_names"
  shows "filter (\<lambda>kv. header_name_eq (fst kv) name) (sent_headers h ins fcl ka fid) =
         filter (\<lambda>kv. header_name_eq (fst kv) name) ins"
proof -
  have "filter (\<lambda>kv. header_name_eq (fst kv) name) (filter (forwarded ins fcl fid) (headers h)) = []"
    using forwarded_not_injected [OF _ assms(1)] by (auto simp: filter_empty_conv)
  then show ?thesis using assms(2)
    by (simp add: sent_headers_def added_names_def IDENTITY_ENCODINGS_def split: option.split)
qed

theorem injected_header_alone_witness:
  "filter (\<lambda>kv. header_name_eq (fst kv) ''X-Api-Key'')
     (sent_headers sample_head [(''X-Api-Key'', ''s3cret'')] None False True) = [(''X-Api-Key'', ''s3cret'')]"
proof -
  have "list_all (\<lambda>a. \<not> header_name_eq a ''X-Api-Key'') added_names" by code_simp
  moreover have "header_name_eq ''X-Api-Key'' ''X-Api-Key''" by code_simp
  ultimately show ?thesis
    using injected_header_alone [of "''X-Api-Key''" "''s3cret''" "[(''X-Api-Key'', ''s3cret'')]"] by simp
qed

section \<open>One framing reaches the upstream\<close>

definition hcount :: "(string \<times> string) list \<Rightarrow> string \<Rightarrow> nat" where
  "hcount kvs name = length (filter (\<lambda>(k, v). eq_ignore_case k name) kvs)"

definition hfind :: "(string \<times> string) list \<Rightarrow> string \<Rightarrow> string option" where
  "hfind kvs name = map_option snd (List.find (\<lambda>(k, v). eq_ignore_case k name) kvs)"

lemma hcount_simps [simp]:
  "hcount [] n = 0" "hcount ((k, v) # kvs) n = (if eq_ignore_case k n then 1 else 0) + hcount kvs n"
  "hcount (a @ b) n = hcount a n + hcount b n"
  by (auto simp: hcount_def)

lemma hcount_trim [simp]: "hcount (map (\<lambda>(k, v). (k, trim_ows v)) kvs) n = hcount kvs n"
  by (induction kvs) auto

lemma hfind_none: "hcount kvs n = 0 \<longleftrightarrow> hfind kvs n = None"
  by (induction kvs) (auto simp: hfind_def)

lemma hfind_nil: "hfind [] n = None"
  by (simp add: hfind_def)

lemma hfind_append: "hfind (a @ b) n = (case hfind a n of Some v \<Rightarrow> Some v | None \<Rightarrow> hfind b n)"
  by (induction a) (auto simp: hfind_def)

lemma hfind_trim: "hfind (map (\<lambda>(k, v). (k, trim_ows v)) kvs) n = map_option trim_ows (hfind kvs n)"
  by (induction kvs) (auto simp: hfind_def)

lemma hcount_filter: "hcount (filter P kvs) n \<le> hcount kvs n"
  by (induction kvs) auto

lemma hfind_filter:
  "(\<And>k v. (k, v) \<in> set kvs \<Longrightarrow> eq_ignore_case k n \<Longrightarrow> P (k, v)) \<Longrightarrow>
     hfind (filter P kvs) n = hfind kvs n \<and> hcount (filter P kvs) n = hcount kvs n"
  by (induction kvs) (auto simp: hfind_def)

lemma hcount_filter_none:
  "(\<And>k v. (k, v) \<in> set kvs \<Longrightarrow> eq_ignore_case k n \<Longrightarrow> \<not> P (k, v)) \<Longrightarrow> hcount (filter P kvs) n = 0"
  by (induction kvs) auto

text \<open>The framing check over a list of headers.\<close>

lemma header_hcount: "header_count h n = hcount (headers h) n" "header_of h n = hfind (headers h) n"
  by (simp_all add: header_count_def hcount_def header_of_def hfind_def)

lemma content_length_trim [simp]: "content_length (trim_ows v) = content_length v"
  by (simp add: content_length_def)

lemma unat_u64_less: "unat (n :: u64) < 2 ^ 64"
  using unsigned_less [of n, where ?'a = nat] by simp

lemma content_length_fmt: "content_length (fmt_nat 10 (unat n)) = Some n"
proof -
  let ?s = "fmt_nat 10 (unat n)"
  have d: "list_all is_ascii_digit ?s" using fmt_nat_10_digits by (auto simp: list_all_iff)
  have "\<not> is_ows c" if "is_ascii_digit c" for c
    using that by (auto simp: is_ows_def HTAB_def ascii_classes)
  then have "trimmed ?s" using d by (auto simp: trimmed_def list_all_iff)
  then show ?thesis using d unat_u64_less [of n] by (simp add: content_length_def trim_ows_id)
qed

lemma inspect_framing_Inr:
  "inspect_framing h fc = Inr f \<longleftrightarrow>
     \<not> head_carries_control_byte h \<and> hcount (headers h) ''transfer-encoding'' \<le> 1 \<and>
     hcount (headers h) ''content-length'' \<le> 1 \<and> hcount (headers h) ''host'' \<le> 1 \<and>
     (if chunked f
      then fc \<and> body_len f = 0 \<and>
        (\<exists>v. hfind (headers h) ''transfer-encoding'' = Some v \<and> eq_ignore_case v ''chunked'')
      else hcount (headers h) ''transfer-encoding'' = 0 \<and>
        (case hfind (headers h) ''content-length'' of
           None \<Rightarrow> body_len f = 0 | Some v \<Rightarrow> content_length v = Some (body_len f)))"
  by (cases f) (auto simp: inspect_framing_def header_hcount hfind_none not_less split: option.splits if_splits)

definition framing_names :: "string list" where
  "framing_names = [''transfer-encoding'', ''content-length'', ''host'']"

lemma forwarded_framing:
  assumes "n \<in> set framing_names" "list_all (\<lambda>(name, v). \<not> header_name_eq n name) ins" "eq_ignore_case k n"
  shows "forwarded ins fcl fid (k, v) \<longleftrightarrow> fcl = None \<or> n = ''host''"
proof -
  have e: "eq_ignore_case k x = eq_ignore_case n x" for x using assms(3) by (simp add: eq_ignore_case_def)
  have h: "header_name_eq k x = header_name_eq n x" for x
    using eq_ignore_case_folds [OF assms(3)] by (simp add: header_name_eq_map)
  have i: "\<not> list_ex (\<lambda>(name, v). header_name_eq n name) ins"
    using assms(2) by (auto simp: list_ex_iff list_all_iff)
  have c: "list_all (\<lambda>n. \<not> (eq_ignore_case n ''connection'' \<or> eq_ignore_case n ''proxy-connection'' \<or>
         eq_ignore_case n ''proxy-authorization'' \<or> eq_ignore_case n ''expect'') \<and>
      \<not> list_ex (\<lambda>(name, v). header_name_eq n name) IDENTITY_ENCODINGS \<and>
      ((eq_ignore_case n ''transfer-encoding'' \<or> eq_ignore_case n ''content-length'') \<longleftrightarrow> n \<noteq> ''host''))
      framing_names" by code_simp
  show ?thesis unfolding forwarded_def Let_def fst_conv e h using i assms(1) c
    by (auto simp: list_all_iff Option.is_none_def)
qed

lemma hcount_injections:
  "list_all (\<lambda>(name, v). \<not> header_name_eq n name) ins \<Longrightarrow> hcount ins n = 0"
  using eq_ignore_case_folds [of _ n] by (induction ins) (auto simp: header_name_eq_map)

lemma hcount_added:
  "n \<in> set framing_names \<Longrightarrow> hcount (if fid then IDENTITY_ENCODINGS else []) n = 0 \<and>
     hcount (if ka then [] else [(''Connection'', ''close'')]) n = 0 \<and>
     hcount [(''Content-Length'', s)] n = (if n = ''content-length'' then 1 else 0)"
proof -
  have "list_all (\<lambda>n. hcount IDENTITY_ENCODINGS n = 0 \<and> \<not> eq_ignore_case ''Connection'' n \<and>
      (eq_ignore_case ''Content-Length'' n \<longleftrightarrow> n = ''content-length'')) framing_names" by code_simp
  then show "n \<in> set framing_names \<Longrightarrow> ?thesis" by (auto simp: list_all_iff)
qed

lemma framing_kept:
  assumes "n \<in> set framing_names" "list_all (\<lambda>(name, v). \<not> header_name_eq n name) ins" "fcl = None \<or> n = ''host''"
  shows "hfind (filter (forwarded ins fcl fid) (headers h)) n = hfind (headers h) n \<and>
    hcount (filter (forwarded ins fcl fid) (headers h)) n = hcount (headers h) n"
  using forwarded_framing [OF assms(1,2)] assms(3) by (intro hfind_filter) blast

lemma framing_dropped:
  assumes "n \<in> set framing_names" "list_all (\<lambda>(name, v). \<not> header_name_eq n name) ins" "fcl \<noteq> None" "n \<noteq> ''host''"
  shows "hcount (filter (forwarded ins fcl fid) (headers h)) n = 0"
  using forwarded_framing [OF assms(1,2)] assms(3,4) by (intro hcount_filter_none) blast

lemma sent_framing_count:
  assumes n: "n \<in> set framing_names" and i: "list_all (\<lambda>(name, v). \<not> header_name_eq n name) ins"
  shows "hcount (sent_headers h ins fcl ka fid) n =
      (if fcl = None then hcount (headers h) n
       else if n = ''content-length'' then 1 else if n = ''host'' then hcount (headers h) n else 0)"
proof -
  have "hcount (sent_headers h ins fcl ka fid) n =
      hcount (filter (forwarded ins fcl fid) (headers h)) n +
      hcount (case fcl of Some m \<Rightarrow> [(''Content-Length'', fmt_nat 10 (unat m))] | None \<Rightarrow> []) n"
    unfolding sent_headers_def hcount_simps(3) using hcount_injections [OF i] hcount_added [OF n] by simp
  moreover have "hcount (case fcl of Some m \<Rightarrow> [(''Content-Length'', fmt_nat 10 (unat m))] | None \<Rightarrow> []) n =
      (if fcl \<noteq> None \<and> n = ''content-length'' then 1 else 0)"
    using hcount_added [OF n, of fid ka] by (cases fcl) (simp_all del: hcount_simps(2))
  ultimately show ?thesis
    using framing_kept [OF n i, of fcl fid h] framing_dropped [OF n i, of fcl fid h] by (cases fcl; cases "n = ''host''") auto
qed

lemma sent_framing_find:
  assumes n: "n \<in> set framing_names" and i: "list_all (\<lambda>(name, v). \<not> header_name_eq n name) ins"
  shows "hfind (sent_headers h ins fcl ka fid) n =
      (case fcl of None \<Rightarrow> hfind (headers h) n
       | Some m \<Rightarrow> if n = ''content-length'' then Some (fmt_nat 10 (unat m))
                   else if n = ''host'' then hfind (headers h) n else None)"
proof -
  have cl: "hfind [(''Content-Length'', s)] n = (if n = ''content-length'' then Some s else None)" for s
    using hcount_added [OF n, of fid ka s] by (auto simp: hfind_def split: if_splits)
  have rest: "hfind ins n = None" "hfind (if fid then IDENTITY_ENCODINGS else []) n = None"
    "hfind (if ka then [] else [(''Connection'', ''close'')]) n = None"
    using hcount_injections [OF i] hcount_added [OF n] by (simp_all only: hfind_none)
  have all: "hfind (sent_headers h ins fcl ka fid) n =
      (case hfind (filter (forwarded ins fcl fid) (headers h)) n of Some v \<Rightarrow> Some v
       | None \<Rightarrow> hfind (case fcl of Some m \<Rightarrow> [(''Content-Length'', fmt_nat 10 (unat m))] | None \<Rightarrow> []) n)"
    unfolding sent_headers_def hfind_append rest by (simp split: option.split)
  show ?thesis
  proof (cases fcl)
    case None
    then show ?thesis using framing_kept [OF n i, of fcl fid h] all by (simp add: hfind_nil split: option.split)
  next
    case (Some m)
    have "hfind (filter (forwarded ins fcl fid) (headers h)) n = (if n = ''host'' then hfind (headers h) n else None)"
      using framing_kept [OF n i, of fcl fid h] framing_dropped [OF n i, of fcl fid h] Some by (simp add: hfind_none [symmetric])
    then show ?thesis using all cl Some by (auto split: option.split)
  qed
qed

lemmas sent_framing = sent_framing_count sent_framing_find

text \<open>What is forwarded parses with one framing: no transfer coding and one length, the declared one or
  that of the decoded body.\<close>

lemma sent_one_framing:
  assumes "parse_head bytes = Inr h" "inspect_framing h forwards_chunked = Inr f"
    and "list_all header_ok ins"
    and "list_all (\<lambda>n. list_all (\<lambda>(name, v). \<not> header_name_eq n name) ins) framing_names"
  shows "\<exists>h'. parse_head (reserialize_request h ins (if chunked f then Some len else None) ka fid) = Inr h' \<and>
    inspect_framing h' False = Inr \<lparr>chunked = False, body_len = (if chunked f then len else body_len f)\<rparr>"
proof -
  let ?fcl = "if chunked f then Some len else None"
  let ?kvs = "sent_headers h ins ?fcl ka fid"
  let ?h = "\<lparr>request_line = request_line h, headers = map (\<lambda>(k, v). (k, trim_ows v)) ?kvs\<rparr>"
  have p: "parse_head (reserialize_request h ins ?fcl ka fid) = Inr ?h"
    and nc: "\<not> head_carries_control_byte ?h"
    by (rule parse_reserialized [OF assms(1-3)])+
  have ins: "list_all (\<lambda>(name, v). \<not> header_name_eq n name) ins" if "n \<in> set framing_names" for n
    using assms(4) that by (simp add: list_all_iff)
  have n: "''transfer-encoding'' \<in> set framing_names" "''content-length'' \<in> set framing_names"
    "''host'' \<in> set framing_names" by (simp_all add: framing_names_def)
  note sent = sent_framing [OF n(1) ins [OF n(1)]] sent_framing [OF n(2) ins [OF n(2)]]
    sent_framing [OF n(3) ins [OF n(3)]]
  note h = assms(2) [unfolded inspect_framing_Inr]
  have "inspect_framing ?h False = Inr \<lparr>chunked = False, body_len = (if chunked f then len else body_len f)\<rparr>"
    using h nc content_length_fmt [of len] sent unfolding inspect_framing_Inr
    by (auto simp: hfind_trim split: option.splits if_splits)
  with p show ?thesis by blast
qed

end
