(* ===== verification/Byte_Reader.thy ===== *)
theory Byte_Reader
  imports Http_Head
begin

text \<open>
  The byte sources the proxy reads. A source is what its reads will find, one arrival per read of the
  underlying stream: some bytes, an interruption (\<open>ErrorKind::Interrupted\<close>), or any other error. A
  read takes at most what has arrived, so every segmentation of a stream is a source. The operations
  of \<open>std::io\<close> the proxy uses on it are here: \<open>read\<close>, \<open>take(n).read_until(b'\n')\<close>, \<open>read_exact\<close> and the
  loop they share with \<open>read_full\<close> of src/src/sandbox/proxy/wire.rs. The locale \<open>lossless_source\<close> is what
  a relay relies on: reads neither lose, invent nor reorder a byte.
\<close>

section \<open>Arrivals\<close>

datatype arrival = Bytes string | Interruption | Failure

type_synonym reader = "arrival list"

datatype io_fault = Interrupted | Broken | UnexpectedEof

fun arrived :: "arrival \<Rightarrow> string" where
  "arrived (Bytes s) = s"
| "arrived Interruption = []"
| "arrived Failure = []"

definition contents :: "reader \<Rightarrow> string" where
  "contents r = concat (map arrived r)"

lemma contents_simps [simp]:
  "contents [] = []" "contents (Bytes s # r) = s @ contents r"
  "contents (Interruption # r) = contents r" "contents (Failure # r) = contents r"
  by (simp_all add: contents_def)

definition unread :: "string \<Rightarrow> reader \<Rightarrow> reader" where
  "unread s r = (if s = [] then r else Bytes s # r)"

lemma contents_unread [simp]: "contents (unread s r) = s @ contents r"
  by (simp add: unread_def)

text \<open>A source that never fails and reports its end only at the end; it may be interrupted.\<close>

fun steady_arrival :: "arrival \<Rightarrow> bool" where
  "steady_arrival (Bytes s) = (s \<noteq> [])"
| "steady_arrival Interruption = True"
| "steady_arrival Failure = False"

definition steady :: "reader \<Rightarrow> bool" where
  "steady r = list_all steady_arrival r"

lemma steady_simps [simp]:
  "steady []" "steady (Bytes s # r) \<longleftrightarrow> s \<noteq> [] \<and> steady r"
  "steady (Interruption # r) = steady r" "\<not> steady (Failure # r)"
  by (simp_all add: steady_def)

lemma steady_unread [simp]: "steady (unread s r) = steady r"
  by (simp add: unread_def)

section \<open>The operations of a reader\<close>

text \<open>\<open>Read::read\<close> into a buffer of \<open>n\<close> bytes.\<close>

fun rd_read :: "nat \<Rightarrow> reader \<Rightarrow> (io_fault + string) \<times> reader" where
  "rd_read n [] = (Inr [], [])"
| "rd_read n (Bytes s # r) = (Inr (take n s), unread (drop n s) r)"
| "rd_read n (Interruption # r) = (Inl Interrupted, r)"
| "rd_read n (Failure # r) = (Inl Broken, r)"

text \<open>\<open>take(lim).read_until(b'\n', &mut buf)\<close>: what is appended to the buffer, and whether the call
  returned \<open>Ok\<close>. An interruption is retried; what an error leaves behind stays in the buffer.\<close>

fun read_until :: "nat \<Rightarrow> reader \<Rightarrow> string \<times> bool \<times> reader" where
  "read_until lim [] = ([], True, [])"
| "read_until lim (Interruption # r) =
     (if lim = 0 then ([], True, Interruption # r) else read_until lim r)"
| "read_until lim (Failure # r) =
     (if lim = 0 then ([], True, Failure # r) else ([], False, r))"
| "read_until lim (Bytes s # r) =
     (if lim = 0 then ([], True, Bytes s # r)
      else if s = [] then ([], True, r)
      else if LF \<in> set (take lim s) then
        (let k = Suc (length (takeWhile (\<lambda>c. c \<noteq> LF) s)) in (take k s, True, unread (drop k s) r))
      else if length s < lim then
        (let (l, ok, r') = read_until (lim - length s) r in (s @ l, ok, r'))
      else (take lim s, True, unread (drop lim s) r))"

text \<open>The loop that fills a buffer of \<open>n\<close> bytes as far as the stream goes, retrying interruptions.\<close>

fun fill :: "nat \<Rightarrow> reader \<Rightarrow> string \<times> bool \<times> reader" where
  "fill n [] = ([], True, [])"
| "fill n (Interruption # r) = (if n = 0 then ([], True, Interruption # r) else fill n r)"
| "fill n (Failure # r) = (if n = 0 then ([], True, Failure # r) else ([], False, r))"
| "fill n (Bytes s # r) =
     (if n = 0 then ([], True, Bytes s # r)
      else if s = [] then ([], True, r)
      else if length s < n then (let (d, ok, r') = fill (n - length s) r in (s @ d, ok, r'))
      else (take n s, True, unread (drop n s) r))"

definition read_full :: "nat \<Rightarrow> reader \<Rightarrow> (io_fault + string) \<times> reader" where
  "read_full n r = (let (d, ok, r') = fill n r in (if ok then Inr d else Inl Broken, r'))"

definition read_exact :: "nat \<Rightarrow> reader \<Rightarrow> (io_fault + string) \<times> reader" where
  "read_exact n r =
     (let (d, ok, r') = fill n r in
      (if \<not> ok then Inl Broken else if length d < n then Inl UnexpectedEof else Inr d, r'))"

section \<open>What the operations take\<close>

lemma take_line:
  assumes "LF \<in> set (take lim s)"
  defines "k \<equiv> Suc (length (takeWhile (\<lambda>c. c \<noteq> LF) s))"
  shows "k \<le> lim \<and> k \<le> length s \<and> take k s = takeWhile (\<lambda>c. c \<noteq> LF) s @ [LF] \<and>
    s = takeWhile (\<lambda>c. c \<noteq> LF) s @ LF # drop k s"
  using assms(1) unfolding k_def
proof (induction s arbitrary: lim)
  case (Cons c s)
  then show ?case by (cases lim) (auto split: if_splits)
qed simp

lemma read_until_contents:
  "read_until lim r = (l, ok, r') \<Longrightarrow> contents r = l @ contents r' \<and> length l \<le> lim"
proof (induction lim r arbitrary: l ok r' rule: read_until.induct)
  case (4 lim s r)
  then show ?case using take_line [of lim s]
    by (auto simp: Let_def split: if_splits prod.splits)
qed (auto split: if_splits)

lemma read_until_steady: "steady r \<Longrightarrow> read_until lim r = (l, ok, r') \<Longrightarrow> ok \<and> steady r'"
proof (induction lim r arbitrary: l ok r' rule: read_until.induct)
  case (4 lim s r)
  then show ?case by (auto simp: Let_def split: if_splits prod.splits)
qed (auto split: if_splits)

text \<open>On a steady source a line read is exactly the first line, if its end lies within the limit, and
  otherwise the whole limit or the whole stream.\<close>

definition line_of :: "nat \<Rightarrow> string \<Rightarrow> string" where
  "line_of lim s =
     (if LF \<in> set (take lim s) then takeWhile (\<lambda>c. c \<noteq> LF) s @ [LF] else take lim s)"

lemma line_of_append:
  "LF \<notin> set s \<Longrightarrow> length s < lim \<Longrightarrow> line_of lim (s @ t) = s @ line_of (lim - length s) t"
  by (auto simp: line_of_def takeWhile_append)

lemma read_until_line:
  "steady r \<Longrightarrow> read_until lim r = (l, ok, r') \<Longrightarrow> l = line_of lim (contents r)"
proof (induction lim r arbitrary: l ok r' rule: read_until.induct)
  case (4 lim s r)
  show ?case
  proof (cases "LF \<in> set (take lim s)")
    case True
    then have "LF \<in> set s" by (auto dest: in_set_takeD)
    then show ?thesis using True 4 take_line [OF True]
      by (auto simp: line_of_def Let_def takeWhile_append split: if_splits)
  next
    case False
    then show ?thesis using 4 line_of_append [of s lim "contents r"]
      by (auto simp: line_of_def Let_def split: if_splits prod.splits)
  qed
qed (auto simp: line_of_def split: if_splits)

lemma fill_contents: "fill n r = (d, ok, r') \<Longrightarrow> contents r = d @ contents r' \<and> length d \<le> n"
proof (induction n r arbitrary: d ok r' rule: fill.induct)
  case (4 n s r)
  then show ?case by (auto simp: Let_def split: if_splits prod.splits)
qed (auto split: if_splits)

lemma fill_steady: "steady r \<Longrightarrow> fill n r = (d, ok, r') \<Longrightarrow> ok \<and> steady r' \<and> d = take n (contents r)"
proof (induction n r arbitrary: d ok r' rule: fill.induct)
  case (4 n s r)
  then show ?case by (auto simp: Let_def split: if_splits prod.splits)
qed (auto split: if_splits)

section \<open>Sources that lose nothing\<close>

text \<open>A caller's sequence of reads, each into a buffer of its own size, and the bytes they delivered.\<close>

fun reads :: "(nat \<Rightarrow> 's \<Rightarrow> (io_fault + string) \<times> 's) \<Rightarrow> nat list \<Rightarrow> 's \<Rightarrow> (io_fault + string) list \<times> 's" where
  "reads pull [] s = ([], s)"
| "reads pull (n # ns) s =
     (let (res, s1) = pull n s; (outs, s2) = reads pull ns s1 in (res # outs, s2))"

fun delivered :: "(io_fault + string) list \<Rightarrow> string" where
  "delivered [] = []"
| "delivered (Inr out # outs) = out @ delivered outs"
| "delivered (Inl e # outs) = delivered outs"

definition unbroken :: "(io_fault + string) list \<Rightarrow> bool" where
  "unbroken outs = list_all (\<lambda>res. res \<noteq> Inl Broken \<and> res \<noteq> Inl UnexpectedEof) outs"

locale lossless_source =
  fixes pull :: "nat \<Rightarrow> 's \<Rightarrow> (io_fault + string) \<times> 's"
    and left :: "'s \<Rightarrow> string" and valid :: "'s \<Rightarrow> bool"
  assumes pull_valid: "valid s \<Longrightarrow> valid (snd (pull n s))"
    and pull_bytes: "valid s \<Longrightarrow> pull n s = (Inr out, s') \<Longrightarrow> left s = out @ left s' \<and> length out \<le> n"
    and pull_interrupted: "valid s \<Longrightarrow> pull n s = (Inl Interrupted, s') \<Longrightarrow> left s' = left s"
begin

lemma reads_lossless:
  "valid s \<Longrightarrow> reads pull ns s = (outs, s') \<Longrightarrow> unbroken outs \<Longrightarrow> left s = delivered outs @ left s'"
proof (induction ns arbitrary: s outs)
  case (Cons n ns)
  obtain res s1 outs' where r: "pull n s = (res, s1)" "reads pull ns s1 = (outs', s')" "outs = res # outs'"
    using Cons.prems(2) by (auto simp: Let_def split: prod.splits)
  moreover from r Cons.prems have "left s1 = delivered outs' @ left s'"
    using pull_valid [OF Cons.prems(1), of n] by (intro Cons.IH) (auto simp: unbroken_def)
  ultimately show ?case using Cons.prems pull_bytes pull_interrupted
    by (cases res; cases "projl res") (auto simp: unbroken_def)
qed (simp add: unbroken_def)

end

text \<open>A source whose reads come to an end: each read that is not yet at the end of it makes progress.\<close>

locale draining_source = lossless_source +
  fixes good :: "'s \<Rightarrow> bool" and settled :: "'s \<Rightarrow> bool" and weight :: "'s \<Rightarrow> nat"
  assumes good_valid: "good s \<Longrightarrow> valid s"
    and pull_settled: "settled s \<Longrightarrow> pull n s = (Inr [], s)"
    and pull_good: "good s \<Longrightarrow> good (snd (pull n s)) \<and> fst (pull n s) \<noteq> Inl Broken \<and>
          fst (pull n s) \<noteq> Inl UnexpectedEof"
    and pull_progress: "good s \<Longrightarrow> \<not> settled s \<Longrightarrow> 0 < n \<Longrightarrow> weight (snd (pull n s)) < weight s"
begin

lemma reads_settled: "settled s \<Longrightarrow> snd (reads pull ns s) = s"
  by (induction ns) (simp_all add: pull_settled split_beta Let_def)

lemma reads_drain:
  "good s \<Longrightarrow> list_all ((<) 0) ns \<Longrightarrow> weight s \<le> length ns \<Longrightarrow> settled (snd (reads pull ns s)) \<or> weight s = 0"
proof (induction ns arbitrary: s)
  case (Cons n ns)
  show ?case
  proof (cases "settled s")
    case True
    then show ?thesis using reads_settled [of s "n # ns"] by simp
  next
    case False
    let ?s = "snd (pull n s)"
    have "weight ?s < weight s" "good ?s" using Cons.prems False pull_progress pull_good by auto
    moreover have "settled ?s" if "weight ?s = 0"
      using that pull_progress [of ?s 1] calculation(2) by force
    ultimately have "settled (snd (reads pull ns ?s))"
      using Cons.IH [of ?s] Cons.prems reads_settled [of ?s ns] by fastforce
    then show ?thesis by (simp add: split_beta Let_def)
  qed
qed simp

lemma drained:
  assumes "good s" "list_all ((<) 0) ns" "weight s \<le> length ns"
  shows "settled (snd (reads pull ns s))"
proof (cases "weight s = 0")
  case True
  then have "settled s" using pull_progress [OF assms(1), of 1] by force
  then show ?thesis by (simp add: reads_settled)
next
  case False
  then show ?thesis using reads_drain [OF assms] by simp
qed

lemma reads_good: "good s \<Longrightarrow> good (snd (reads pull ns s)) \<and> unbroken (fst (reads pull ns s))"
  by (induction ns arbitrary: s) (use pull_good in \<open>auto simp: unbroken_def split_beta Let_def\<close>)

lemma reads_all_delivered:
  assumes "good s" "list_all ((<) 0) ns" "weight s \<le> length ns" "reads pull ns s = (outs, s')"
  shows "settled s' \<and> good s' \<and> left s = delivered outs @ left s'"
  using drained [OF assms(1-3)] reads_good [OF assms(1), of ns] assms(4)
    reads_lossless [OF good_valid [OF assms(1)] assms(4)] by simp

end

lemma rd_read_bytes: "rd_read n r = (Inr out, r') \<Longrightarrow> contents r = out @ contents r' \<and> length out \<le> n"
  by (induction n r rule: rd_read.induct) auto

lemma rd_read_interrupted: "rd_read n r = (Inl e, r') \<Longrightarrow> contents r' = contents r"
  by (induction n r rule: rd_read.induct) auto

lemma rd_read_steady:
  "steady r \<Longrightarrow> steady (snd (rd_read n r)) \<and> fst (rd_read n r) \<noteq> Inl Broken \<and> fst (rd_read n r) \<noteq> Inl UnexpectedEof"
  by (induction n r rule: rd_read.induct) auto

definition reader_weight :: "reader \<Rightarrow> nat" where
  "reader_weight r = length (contents r) + length r"

lemma rd_read_weight:
  "steady r \<Longrightarrow> r \<noteq> [] \<Longrightarrow> 0 < n \<Longrightarrow> reader_weight (snd (rd_read n r)) < reader_weight r"
  by (induction n r rule: rd_read.induct) (auto simp: reader_weight_def unread_def min_def not_le)

interpretation raw: draining_source rd_read contents "\<lambda>_. True" steady "\<lambda>r. r = []" reader_weight
  by unfold_locales (use rd_read_bytes rd_read_interrupted rd_read_steady rd_read_weight in auto)

end
