(* ===== verification/Http_Body.thy ===== *)
theory Http_Body
  imports Byte_Reader
begin

text \<open>
  Message bodies, src/src/sandbox/proxy/wire.rs: the bounded line reader, the decoder of a chunked
  request body with its cap, the copy of a body of known length, the readers of a head, and the
  \<open>FramedBody\<close> reader that relays a response verbatim and stops where the message ends.
\<close>

section \<open>Faults\<close>

datatype wire_fault =
  Io io_fault | LineTooLong | NoChunkSize | NoLineEnd | NotHex | SizeTooBig | NoChunkCrlf |
  EndedEarly | TrailersTooLong | OverCap | ShortBody | HeadCut | HeadTooLarge | WriteFailed

section \<open>Lines and sizes\<close>

definition CHUNK_LINE_MAX :: nat where
  "CHUNK_LINE_MAX = 8 * 1024"

definition TRAILER_LINES_MAX :: nat where
  "TRAILER_LINES_MAX = 64"

definition RELAY_CHUNK :: nat where
  "RELAY_CHUNK = 64 * 1024"

definition read_line_bounded :: "nat \<Rightarrow> reader \<Rightarrow> (wire_fault + string) \<times> reader" where
  "read_line_bounded mx r =
     (let (line, ok, r') = read_until (mx + 1) r in
      (if \<not> ok then Inl (Io Broken)
       else if mx < length line then Inl LineTooLong
       else Inr line, r'))"

definition parse_chunk_size :: "string \<Rightarrow> wire_fault + u64" where
  "parse_chunk_size line =
     (if \<not> ends_with [LF] line then Inl NoLineEnd
      else let size_field = before CHR '';'' (strip_eol line) in
        if size_field = [] \<or> \<not> list_all is_ascii_hexdigit size_field then Inl NotHex
        else case parse_digits 16 size_field of
               Some n \<Rightarrow> if n < 2 ^ 64 then Inr (of_nat n) else Inl SizeTooBig
             | None \<Rightarrow> Inl SizeTooBig)"

definition read_chunk_size_line :: "reader \<Rightarrow> (wire_fault + u64) \<times> reader" where
  "read_chunk_size_line r =
     (case read_line_bounded CHUNK_LINE_MAX r of
        (Inl e, r') \<Rightarrow> (Inl e, r')
      | (Inr line, r') \<Rightarrow> (if line = [] then Inl NoChunkSize else parse_chunk_size line, r'))"

definition read_chunk_crlf :: "reader \<Rightarrow> (wire_fault + unit) \<times> reader" where
  "read_chunk_crlf r =
     (case read_exact 2 r of
        (Inl e, r') \<Rightarrow> (Inl (Io e), r')
      | (Inr crlf, r') \<Rightarrow> (if crlf \<noteq> CRLF then Inl NoChunkCrlf else Inr (), r'))"

text \<open>\<open>for _ in 0..=TRAILER_LINES_MAX\<close>, with the rounds left as the argument.\<close>

fun trailer_rounds :: "nat \<Rightarrow> reader \<Rightarrow> (wire_fault + unit) \<times> reader" where
  "trailer_rounds 0 r = (Inl TrailersTooLong, r)"
| "trailer_rounds (Suc k) r =
     (case read_line_bounded CHUNK_LINE_MAX r of
        (Inl e, r') \<Rightarrow> (Inl e, r')
      | (Inr line, r') \<Rightarrow>
          if \<not> ends_with [LF] line then (Inl EndedEarly, r')
          else if strip_eol line = [] then (Inr (), r')
          else trailer_rounds k r')"

definition read_chunked_trailers :: "reader \<Rightarrow> (wire_fault + unit) \<times> reader" where
  "read_chunked_trailers r = trailer_rounds (TRAILER_LINES_MAX + 1) r"

text \<open>A size line that was read holds at least one byte, so the loop of the decoder comes to an end.\<close>

lemma read_line_bounded_contents:
  "read_line_bounded mx r = (res, r') \<Longrightarrow> \<exists>l. contents r = l @ contents r' \<and> (\<forall>line. res = Inr line \<longrightarrow> l = line)"
  by (auto simp: read_line_bounded_def Let_def split: prod.splits if_splits dest!: read_until_contents)

lemma size_line_shortens:
  "read_chunk_size_line r = (Inr n, r') \<Longrightarrow> length (contents r') < length (contents r)"
  by (auto simp: read_chunk_size_line_def split: prod.splits sum.splits if_splits
      dest!: read_line_bounded_contents)

lemma read_exact_contents: "read_exact n r = (res, r') \<Longrightarrow> \<exists>d. contents r = d @ contents r' \<and> (\<forall>x. res = Inr x \<longrightarrow> d = x)"
  by (auto simp: read_exact_def Let_def split: prod.splits if_splits dest!: fill_contents)

lemma chunk_crlf_contents: "read_chunk_crlf r = (res, r') \<Longrightarrow> length (contents r') \<le> length (contents r)"
  by (auto simp: read_chunk_crlf_def split: prod.splits sum.splits dest!: read_exact_contents)

section \<open>The decoder of a chunked body\<close>

function read_chunked :: "u64 \<Rightarrow> string \<Rightarrow> reader \<Rightarrow> (wire_fault + string) \<times> reader" where
  "read_chunked cap buf r =
     (case read_chunk_size_line r of
        (Inl e, r1) \<Rightarrow> (Inl e, r1)
      | (Inr sz, r1) \<Rightarrow>
          if sz = 0 then
            (case read_chunked_trailers r1 of
               (Inl e, r2) \<Rightarrow> (Inl e, r2) | (Inr _, r2) \<Rightarrow> (Inr buf, r2))
          else if 2 ^ 64 \<le> length buf + unat sz \<or> unat cap < length buf + unat sz then (Inl OverCap, r1)
          else
            (case read_exact (unat sz) r1 of
               (Inl e, r2) \<Rightarrow> (Inl (Io e), r2)
             | (Inr d, r2) \<Rightarrow>
                 (case read_chunk_crlf r2 of
                    (Inl e, r3) \<Rightarrow> (Inl e, r3)
                  | (Inr _, r3) \<Rightarrow> read_chunked cap (buf @ d) r3)))"
  by pat_completeness auto
termination
  by (relation "measure (\<lambda>(cap, buf, r). length (contents r))")
    (auto dest!: size_line_shortens [OF sym] read_exact_contents [OF sym] chunk_crlf_contents [OF sym])

definition read_chunked_body :: "reader \<Rightarrow> u64 \<Rightarrow> (wire_fault + string) \<times> reader" where
  "read_chunked_body r cap = read_chunked cap [] r"

section \<open>A body of known length\<close>

text \<open>The sink takes \<open>room\<close> more bytes and fails from then on.\<close>

record sink =
  written :: string
  room :: nat

definition write_all :: "string \<Rightarrow> sink \<Rightarrow> bool \<times> sink" where
  "write_all s w =
     (length s \<le> room w, w\<lparr>written := written w @ take (room w) s, room := room w - length s\<rparr>)"

function copy_exact :: "reader \<Rightarrow> sink \<Rightarrow> nat \<Rightarrow> (wire_fault + unit) \<times> reader \<times> sink" where
  "copy_exact r w n =
     (if n = 0 then (Inr (), r, w)
      else case rd_read (min n RELAY_CHUNK) r of
        (Inl e, r') \<Rightarrow> (Inl (Io e), r', w)
      | (Inr got, r') \<Rightarrow>
          if got = [] then (Inl ShortBody, r', w)
          else (case write_all got w of
                  (False, w') \<Rightarrow> (Inl WriteFailed, r', w')
                | (True, w') \<Rightarrow> copy_exact r' w' (n - length got)))"
  by pat_completeness auto
termination
  by (relation "measure (\<lambda>(r, w, n). n)") auto

section \<open>Heads\<close>

text \<open>The loop shared by \<open>read_head_buffered\<close> and \<open>read_response_head\<close>: the bytes read, and how it ended.\<close>

datatype head_end = Complete | Closed | ReadFailed | TooLarge

function head_loop :: "nat \<Rightarrow> string \<Rightarrow> reader \<Rightarrow> head_end \<times> string \<times> reader" where
  "head_loop mx buf r =
     (let (line, ok, r') = read_until (mx - length buf + 1) r in
      if \<not> ok then (ReadFailed, buf @ line, r')
      else if line = [] then (Closed, buf, r')
      else if mx < length buf + length line then (TooLarge, buf @ line, r')
      else if line = CRLF \<or> line = [LF] then (Complete, buf @ line, r')
      else head_loop mx (buf @ line) r')"
  by pat_completeness auto
termination
proof (relation "measure (\<lambda>(mx, buf, r). length (contents r))")
  fix mx :: nat and buf :: string and r x line y ok r'
  assume a: "x = read_until (mx - length buf + 1) r" "(line, y) = x" "(ok, r') = y" "line \<noteq> []"
  from a(1-3) have "read_until (mx - length buf + 1) r = (line, ok, r')" by simp
  from read_until_contents [OF this] a(4)
  show "((mx, buf @ line, r'), (mx, buf, r)) \<in> measure (\<lambda>(mx, buf, r). length (contents r))" by simp
qed simp

definition read_head_buffered :: "reader \<Rightarrow> nat \<Rightarrow> (wire_fault + string) \<times> reader" where
  "read_head_buffered r mx =
     (case head_loop mx [] r of
        (Complete, buf, r') \<Rightarrow> (Inr buf, r')
      | (Closed, buf, r') \<Rightarrow> (Inl HeadCut, r')
      | (ReadFailed, buf, r') \<Rightarrow> (Inl (Io Broken), r')
      | (TooLarge, buf, r') \<Rightarrow> (Inl HeadTooLarge, r'))"

definition read_response_head :: "reader \<Rightarrow> nat \<Rightarrow> (string \<times> bool) \<times> reader" where
  "read_response_head r mx = (let (e, buf, r') = head_loop mx [] r in ((buf, e = Complete), r'))"

section \<open>The reader that ends where the message ends\<close>

datatype body_state =
  BDone bool | BLength u64 | BChunkSize | BChunkData u64 | BChunkCrlf | BChunkTrailers | BToEof

record framed_body =
  fb_inner :: reader
  fb_state :: body_state
  fb_pending :: string
  fb_at :: nat

definition FramedBody_new :: "reader \<Rightarrow> body_framing \<Rightarrow> framed_body" where
  "FramedBody_new r f =
     \<lparr>fb_inner = r,
      fb_state =
        (case f of FrEmpty \<Rightarrow> BDone True | FrLength n \<Rightarrow> BLength n | FrChunked \<Rightarrow> BChunkSize | FrToEof \<Rightarrow> BToEof),
      fb_pending = [], fb_at = 0\<rparr>"

definition ended_as_framed :: "framed_body \<Rightarrow> bool" where
  "ended_as_framed b = (fb_state b = BDone True)"

definition framing_line :: "reader \<Rightarrow> string \<times> bool \<times> reader" where
  "framing_line r =
     (let (line, ok, r') = read_until (CHUNK_LINE_MAX + 1) r in
      (line, ok \<and> line \<noteq> [] \<and> length line \<le> CHUNK_LINE_MAX \<and> ends_with [LF] line, r'))"

text \<open>One round of the loop of \<open>read\<close> into a buffer of \<open>n\<close> bytes: what it returns, or \<open>None\<close> when the
  loop goes round again.\<close>

definition fb_round :: "nat \<Rightarrow> framed_body \<Rightarrow> (io_fault + string) option \<times> framed_body" where
  "fb_round n b =
     (if fb_at b < length (fb_pending b) then
        (let k = min (length (fb_pending b) - fb_at b) n; at' = fb_at b + k in
         (Some (Inr (take k (drop (fb_at b) (fb_pending b)))),
          if at' = length (fb_pending b) then b\<lparr>fb_pending := [], fb_at := 0\<rparr> else b\<lparr>fb_at := at'\<rparr>))
      else if n = 0 then (Some (Inr []), b)
      else case fb_state b of
        BDone _ \<Rightarrow> (Some (Inr []), b)
      | BToEof \<Rightarrow> (let (res, r') = rd_read n (fb_inner b) in (Some res, b\<lparr>fb_inner := r'\<rparr>))
      | BLength m \<Rightarrow>
          if m = 0 then (Some (Inr []), b\<lparr>fb_state := BDone True\<rparr>)
          else (case rd_read (min (unat m) n) (fb_inner b) of
                  (Inl e, r') \<Rightarrow> (Some (Inl e), b\<lparr>fb_inner := r'\<rparr>)
                | (Inr got, r') \<Rightarrow>
                    (Some (Inr got),
                     b\<lparr>fb_inner := r',
                       fb_state := if got = [] then BDone False else BLength (m - of_nat (length got))\<rparr>))
      | BChunkSize \<Rightarrow>
          (let (line, complete, r') = framing_line (fb_inner b);
               sz = (if complete then case parse_chunk_size line of Inr m \<Rightarrow> Some m | Inl _ \<Rightarrow> None else None) in
           (None, b\<lparr>fb_inner := r', fb_pending := line,
                    fb_state :=
                      (case sz of
                         Some m \<Rightarrow> if m = 0 then BChunkTrailers else BChunkData m
                       | None \<Rightarrow> if line = [] then BDone False else BToEof)\<rparr>))
      | BChunkData m \<Rightarrow>
          if m = 0 then (None, b\<lparr>fb_state := BChunkCrlf\<rparr>)
          else (case rd_read (min (unat m) n) (fb_inner b) of
                  (Inl e, r') \<Rightarrow> (Some (Inl e), b\<lparr>fb_inner := r'\<rparr>)
                | (Inr got, r') \<Rightarrow>
                    (Some (Inr got),
                     b\<lparr>fb_inner := r',
                       fb_state := if got = [] then BDone False else BChunkData (m - of_nat (length got))\<rparr>))
      | BChunkCrlf \<Rightarrow>
          (case read_full 2 (fb_inner b) of
             (Inl e, r') \<Rightarrow> (Some (Inl e), b\<lparr>fb_inner := r'\<rparr>)
           | (Inr crlf, r') \<Rightarrow>
               (None, b\<lparr>fb_inner := r', fb_pending := crlf,
                        fb_state := if crlf = CRLF then BChunkSize
                                    else if crlf = [] then BDone False else BToEof\<rparr>))
      | BChunkTrailers \<Rightarrow>
          (let (line, complete, r') = framing_line (fb_inner b) in
           (None, b\<lparr>fb_inner := r', fb_pending := line,
                    fb_state :=
                      (if \<not> complete then (if line = [] then BDone False else BToEof)
                       else if strip_eol line = [] then BDone True
                       else BChunkTrailers)\<rparr>)))"

text \<open>The loop comes to an end: a round that does not return takes bytes off the source, or ends the body,
  or moves on from the data of a chunk.\<close>

fun state_rank :: "body_state \<Rightarrow> nat" where
  "state_rank (BDone _) = 0"
| "state_rank BToEof = 0"
| "state_rank (BChunkData _) = 2"
| "state_rank _ = 1"

lemma framing_line_contents: "framing_line r = (line, complete, r') \<Longrightarrow> contents r = line @ contents r'"
  by (auto simp: framing_line_def Let_def split: prod.splits dest!: read_until_contents)

lemma framing_line_complete: "framing_line r = (line, True, r') \<Longrightarrow> line \<noteq> [] \<and> ends_with [LF] line"
  by (auto simp: framing_line_def Let_def split: prod.splits)

lemma read_full_contents: "read_full n r = (Inr d, r') \<Longrightarrow> contents r = d @ contents r'"
  by (auto simp: read_full_def Let_def split: prod.splits if_splits dest!: fill_contents)

lemma empty_line_simps [simp]: "parse_chunk_size [] = Inl NoLineEnd" "CRLF \<noteq> []" "strip_eol [] = []"
  by (simp_all add: parse_chunk_size_def ends_with_def strip_suffix_def CRLF_def strip_eol_def strip_last_def)

lemma fb_round_again:
  assumes "fb_round n b = (None, b')"
  shows "length (contents (fb_inner b')) < length (contents (fb_inner b)) \<or>
    length (contents (fb_inner b')) = length (contents (fb_inner b)) \<and>
    state_rank (fb_state b') < state_rank (fb_state b)"
  using assms
  by (auto simp: fb_round_def Let_def split: if_splits body_state.splits prod.splits sum.splits option.splits
      dest!: framing_line_contents read_full_contents)

function fb_read :: "nat \<Rightarrow> framed_body \<Rightarrow> (io_fault + string) \<times> framed_body" where
  "fb_read n b =
     (case fb_round n b of (Some res, b') \<Rightarrow> (res, b') | (None, b') \<Rightarrow> fb_read n b')"
  by pat_completeness auto
termination
  by (relation "measures [\<lambda>(n, b). length (contents (fb_inner b)), \<lambda>(n, b). state_rank (fb_state b)]")
    (use fb_round_again in fastforce)+

declare fb_read.simps [simp del] read_chunked.simps [simp del] copy_exact.simps [simp del] head_loop.simps [simp del]

section \<open>The relay is verbatim\<close>

definition fb_ok :: "framed_body \<Rightarrow> bool" where
  "fb_ok b = (fb_at b < length (fb_pending b) \<or> fb_at b = 0)"

text \<open>What the body has yet to hand out: framing bytes read ahead, and what the source still holds.\<close>

definition fb_left :: "framed_body \<Rightarrow> string" where
  "fb_left b = drop (fb_at b) (fb_pending b) @ contents (fb_inner b)"

lemma read_full_fault: "read_full n r = (Inl e, r') \<Longrightarrow> e = Broken"
  by (auto simp: read_full_def Let_def split: prod.splits if_splits)

lemma framed_new_ok [simp]: "fb_ok (FramedBody_new r f)" "fb_left (FramedBody_new r f) = contents r"
  "fb_inner (FramedBody_new r f) = r"
  by (simp_all add: FramedBody_new_def fb_ok_def fb_left_def)

lemma fb_round_left:
  assumes "fb_ok b" "fb_round n b = (res, b')"
  shows "fb_ok b' \<and>
    (case res of None \<Rightarrow> fb_left b' = fb_left b
     | Some (Inr out) \<Rightarrow> fb_left b = out @ fb_left b' \<and> length out \<le> n
     | Some (Inl e) \<Rightarrow> e = Interrupted \<longrightarrow> fb_left b' = fb_left b)"
proof (cases "fb_at b < length (fb_pending b)")
  case True
  let ?p = "drop (fb_at b) (fb_pending b)"
  have "take (min (length ?p) n) ?p @ drop (min (length ?p) n) ?p = ?p"
    by (rule append_take_drop_id)
  then show ?thesis using True assms
    by (auto simp: fb_round_def Let_def fb_ok_def fb_left_def min_def add.commute split: if_splits)
next
  case False
  then show ?thesis using assms
    by (auto simp: fb_round_def Let_def fb_ok_def fb_left_def
        split: if_splits body_state.splits prod.splits sum.splits
        dest!: rd_read_bytes rd_read_interrupted framing_line_contents read_full_contents read_full_fault)
qed

lemma fb_read_left:
  assumes "fb_ok b" "fb_read n b = (res, b')"
  shows "fb_ok b' \<and>
    (case res of Inr out \<Rightarrow> fb_left b = out @ fb_left b' \<and> length out \<le> n
     | Inl e \<Rightarrow> e = Interrupted \<longrightarrow> fb_left b' = fb_left b)"
  using assms
proof (induction n b rule: fb_read.induct)
  case (1 n b)
  obtain x b1 where r: "fb_round n b = (x, b1)" by force
  note l = fb_round_left [OF 1(2) r]
  show ?case
  proof (cases x)
    case None
    with 1 r l show ?thesis by (cases res) (auto simp: fb_read.simps [of n b])
  next
    case (Some y)
    with 1 r l show ?thesis by (auto simp: fb_read.simps [of n b])
  qed
qed

interpretation relayed: lossless_source fb_read fb_left fb_ok
proof
  show "fb_ok b \<Longrightarrow> fb_ok (snd (fb_read n b))" for b n
    using fb_read_left by (metis surjective_pairing)
  show "fb_ok b \<Longrightarrow> fb_read n b = (Inr out, b') \<Longrightarrow> fb_left b = out @ fb_left b' \<and> length out \<le> n" for b n out b'
    by (auto dest: fb_read_left)
  show "fb_ok b \<Longrightarrow> fb_read n b = (Inl Interrupted, b') \<Longrightarrow> fb_left b' = fb_left b" for b n b'
    by (auto dest: fb_read_left)
qed

text \<open>C19. The relay is verbatim: whatever the framing and the state it is in, however the stream arrives
  and whatever buffers the caller reads into, as long as no read failed the bytes delivered, those
  read ahead and those still to come are the stream, byte for byte and in order.\<close>

theorem relay_verbatim:
  assumes "reads fb_read ns (FramedBody_new r f) = (outs, b)" "unbroken outs"
  shows "delivered outs @ drop (fb_at b) (fb_pending b) @ contents (fb_inner b) = contents r"
  using relayed.reads_lossless [OF framed_new_ok(1) assms] unfolding framed_new_ok(2) by (simp add: fb_left_def)

theorem relay_verbatim_witness:
  "let (outs, b) = reads fb_read [1, 2, 1] (FramedBody_new [Bytes ''2'', Interruption, Bytes (CRLF @ ''ab'')] FrChunked)
   in delivered outs @ drop (fb_at b) (fb_pending b) @ contents (fb_inner b) = ''2'' @ CRLF @ ''ab''"
proof -
  let ?r = "[Bytes ''2'', Interruption, Bytes (CRLF @ ''ab'')]"
  let ?x = "reads fb_read [1, 2, 1] (FramedBody_new ?r FrChunked)"
  have "?x = (fst ?x, snd ?x)" by simp
  moreover have "unbroken (fst ?x)" by code_simp
  ultimately show ?thesis using relay_verbatim [of "[1, 2, 1]" ?r FrChunked "fst ?x" "snd ?x"]
    by (simp add: split_beta)
qed

section \<open>The grammar of a chunked body\<close>

definition is_line :: "string \<Rightarrow> bool" where
  "is_line l = (\<exists>t. l = t @ [LF] \<and> LF \<notin> set t \<and> length l \<le> CHUNK_LINE_MAX)"

inductive trailer_section :: "nat \<Rightarrow> string \<Rightarrow> bool" where
  blank: "is_line l \<Longrightarrow> strip_eol l = [] \<Longrightarrow> trailer_section 0 l"
| trailer: "is_line l \<Longrightarrow> strip_eol l \<noteq> [] \<Longrightarrow> trailer_section k t \<Longrightarrow> trailer_section (Suc k) (l @ t)"

text \<open>A message with \<open>k\<close> trailer lines, and the body it carries.\<close>

inductive chunked_wire :: "nat \<Rightarrow> string \<Rightarrow> string \<Rightarrow> bool" where
  last_chunk: "is_line l \<Longrightarrow> parse_chunk_size l = Inr 0 \<Longrightarrow> trailer_section k t \<Longrightarrow> chunked_wire k (l @ t) []"
| chunk: "is_line l \<Longrightarrow> parse_chunk_size l = Inr n \<Longrightarrow> n \<noteq> 0 \<Longrightarrow> length d = unat n \<Longrightarrow>
    chunked_wire k w body \<Longrightarrow> chunked_wire k (l @ d @ CRLF @ w) (d @ body)"

inductive_cases trailer_sectionE: "trailer_section k w"
inductive_cases chunked_wireE: "chunked_wire k w body"

lemma line_of_is_line: "is_line l \<Longrightarrow> line_of (CHUNK_LINE_MAX + 1) (l @ s) = l"
  by (auto simp: is_line_def line_of_def takeWhile_append)

lemma is_line_ends: "is_line l \<Longrightarrow> ends_with [LF] l \<and> l \<noteq> []"
  by (auto simp: is_line_def str_simps)

lemma line_of_split: "line_of lim s = l \<Longrightarrow> ends_with [LF] l \<Longrightarrow> \<exists>t. l = t @ [LF] \<and> LF \<notin> set t"
proof -
  assume l: "line_of lim s = l" "ends_with [LF] l"
  show ?thesis
  proof (cases "LF \<in> set (take lim s)")
    case True
    then show ?thesis using l(1) by (auto simp: line_of_def dest: set_takeWhileD)
  next
    case False
    then show ?thesis using l by (auto simp: line_of_def str_simps suffix_def)
  qed
qed

text \<open>The first line of a string is determined: what the reader takes is a line exactly when the string
  starts with one.\<close>

lemma bounded_line:
  assumes "steady r" "read_until (CHUNK_LINE_MAX + 1) r = (line, ok, r')"
  shows "contents r = line @ contents r' \<and> steady r' \<and> ok \<and>
    (length line \<le> CHUNK_LINE_MAX \<and> ends_with [LF] line \<longleftrightarrow> is_line line) \<and>
    (is_line l \<and> contents r = l @ s \<longrightarrow> line = l \<and> contents r' = s)"
proof -
  have c: "contents r = line @ contents r'" using read_until_contents [OF assms(2)] by simp
  have l: "line = line_of (CHUNK_LINE_MAX + 1) (contents r)" by (rule read_until_line [OF assms])
  have "is_line line" if "length line \<le> CHUNK_LINE_MAX" "ends_with [LF] line"
    using line_of_split [OF l [symmetric] that(2)] that(1) by (auto simp: is_line_def)
  moreover have "is_line line \<Longrightarrow> length line \<le> CHUNK_LINE_MAX \<and> ends_with [LF] line"
    using is_line_ends by (auto simp: is_line_def)
  moreover have "line = l \<and> contents r' = s" if "is_line l" "contents r = l @ s"
    using line_of_is_line [OF that(1), of s] l c that(2) by simp
  ultimately show ?thesis using c read_until_steady [OF assms] by blast
qed

lemma framing_line_steady:
  assumes "steady r" "framing_line r = (line, complete, r')"
  shows "contents r = line @ contents r' \<and> steady r' \<and> (complete \<longleftrightarrow> is_line line) \<and>
    (is_line l \<and> contents r = l @ s \<longrightarrow> complete \<and> line = l \<and> contents r' = s)"
proof -
  obtain ok where u: "read_until (CHUNK_LINE_MAX + 1) r = (line, ok, r')"
    "complete = (ok \<and> line \<noteq> [] \<and> length line \<le> CHUNK_LINE_MAX \<and> ends_with [LF] line)"
    using assms(2) by (auto simp: framing_line_def Let_def split: prod.splits)
  show ?thesis using bounded_line [OF assms(1) u(1), of l s] u(2) is_line_ends by blast
qed

section \<open>A body ends as framed exactly when the stream starts with such a message\<close>

text \<open>What the stream has to start with in each state for the body to end as framed.\<close>

fun wants :: "body_state \<Rightarrow> string \<Rightarrow> bool" where
  "wants (BDone f) w = (f \<and> w = [])"
| "wants (BLength n) w = (length w = unat n)"
| "wants BChunkSize w = (\<exists>k body. chunked_wire k w body)"
| "wants (BChunkData n) w =
     (\<exists>d w' k body. w = d @ CRLF @ w' \<and> length d = unat n \<and> chunked_wire k w' body)"
| "wants BChunkCrlf w = (\<exists>w' k body. w = CRLF @ w' \<and> chunked_wire k w' body)"
| "wants BChunkTrailers w = (\<exists>k. trailer_section k w)"
| "wants BToEof w = False"

definition frames :: "body_state \<Rightarrow> string \<Rightarrow> string \<Rightarrow> bool" where
  "frames st s rest = (\<exists>w. s = w @ rest \<and> wants st w)"

lemma frames_Done [simp]: "frames (BDone f) s rest \<longleftrightarrow> f \<and> s = rest" "\<not> frames BToEof s rest"
  by (auto simp: frames_def)

lemma length_cut:
  "got @ c = w @ rest \<Longrightarrow> length got \<le> length w \<Longrightarrow> \<exists>w'. w = got @ w' \<and> c = w' @ rest"
  by (auto simp: append_eq_append_conv2)

lemma unat_minus_length:
  "length got \<le> unat (m :: u64) \<Longrightarrow> unat (m - of_nat (length got)) = unat m - length got"
proof -
  assume a: "length got \<le> unat m"
  then have "length got < 2 ^ 64" using unsigned_less [of m, where ?'a = nat] by simp
  then have "unat (of_nat (length got) :: u64) = length got" by (simp add: unsigned_of_nat take_bit_nat_eq_self)
  then show ?thesis using a by (simp add: unat_sub word_le_nat_alt)
qed

lemma frames_Length:
  "length got \<le> unat m \<Longrightarrow> frames (BLength m) (got @ c) rest = frames (BLength (m - of_nat (length got))) c rest"
  by (auto simp: frames_def unat_minus_length dest!: length_cut)

lemma frames_Data:
  assumes "length got \<le> unat m"
  shows "frames (BChunkData m) (got @ c) rest = frames (BChunkData (m - of_nat (length got))) c rest"
proof
  assume "frames (BChunkData m) (got @ c) rest"
  then obtain d w k body where w: "got @ c = d @ CRLF @ w @ rest" "length d = unat m" "chunked_wire k w body"
    by (auto simp: frames_def)
  moreover obtain d' where "d = got @ d'" "c = d' @ CRLF @ w @ rest"
    using length_cut [OF w(1)] assms w(2) by auto
  ultimately show "frames (BChunkData (m - of_nat (length got))) c rest"
    using assms unfolding frames_def wants.simps
    by (intro exI [of _ "d' @ CRLF @ w"] conjI exI [of _ d'] exI [of _ w] exI [of _ k] exI [of _ body])
      (auto simp: unat_minus_length)
next
  assume "frames (BChunkData (m - of_nat (length got))) c rest"
  then obtain d w k body where "c = d @ CRLF @ w @ rest" "length d = unat m - length got" "chunked_wire k w body"
    using assms by (auto simp: frames_def unat_minus_length)
  then show "frames (BChunkData m) (got @ c) rest"
    using assms unfolding frames_def wants.simps
    by (intro exI [of _ "got @ d @ CRLF @ w"] conjI exI [of _ "got @ d"] exI [of _ w] exI [of _ k] exI [of _ body]) auto
qed

lemma frames_intros:
  "chunked_wire k w body \<Longrightarrow> frames BChunkSize (w @ rest) rest"
  "chunked_wire k w body \<Longrightarrow> frames BChunkCrlf (CRLF @ w @ rest) rest"
  "chunked_wire k w body \<Longrightarrow> length d = unat n \<Longrightarrow> frames (BChunkData n) (d @ CRLF @ w @ rest) rest"
  "trailer_section k w \<Longrightarrow> frames BChunkTrailers (w @ rest) rest"
  unfolding frames_def wants.simps by (metis append.assoc)+

lemma frames_chunk_size:
  assumes "is_line line" "parse_chunk_size line = Inr n"
  shows "frames BChunkSize (line @ c) rest =
    frames (if n = 0 then BChunkTrailers else BChunkData n) c rest"
proof
  assume "frames BChunkSize (line @ c) rest"
  then obtain w k body where w: "line @ c = w @ rest" "chunked_wire k w body" by (auto simp: frames_def)
  have same: "l = line" if "line @ c = l @ s" "is_line l" for l s
    using line_of_is_line [OF that(2), of s] line_of_is_line [OF assms(1), of c] that(1) by simp
  from w(2) show "frames (if n = 0 then BChunkTrailers else BChunkData n) c rest"
  proof (cases rule: chunked_wire.cases)
    case (last_chunk l t)
    then have "l = line" using same w(1) by simp
    then show ?thesis using last_chunk w(1) assms(2) by (auto simp: frames_def)
  next
    case (chunk l m d w' body')
    then have "l = line" using same w(1) by simp
    then show ?thesis using chunk w(1) assms(2) by (auto intro: frames_intros)
  qed
next
  assume f: "frames (if n = 0 then BChunkTrailers else BChunkData n) c rest"
  show "frames BChunkSize (line @ c) rest"
  proof (cases "n = 0")
    case True
    with f obtain t k where "c = t @ rest" "trailer_section k t" by (auto simp: frames_def)
    then show ?thesis using assms True unfolding frames_def
      by (intro exI [of _ "line @ t"]) (auto intro: last_chunk)
  next
    case False
    with f obtain d w k body where "c = d @ CRLF @ w @ rest" "length d = unat n" "chunked_wire k w body"
      by (auto simp: frames_def)
    then show ?thesis using assms False unfolding frames_def
      by (intro exI [of _ "line @ d @ CRLF @ w"]) (auto intro: chunk)
  qed
qed

lemma frames_no_size:
  assumes "\<And>l s n. is_line l \<Longrightarrow> c = l @ s \<Longrightarrow> parse_chunk_size l = Inr n \<Longrightarrow> False"
  shows "\<not> frames BChunkSize c rest"
proof
  assume "frames BChunkSize c rest"
  then obtain w k body where "c = w @ rest" "chunked_wire k w body" by (auto simp: frames_def)
  from this(2,1) show False by (cases rule: chunked_wire.cases) (use assms in auto)
qed

lemma frames_trailers:
  assumes "is_line line"
  shows "frames BChunkTrailers (line @ c) rest =
    frames (if strip_eol line = [] then BDone True else BChunkTrailers) c rest"
proof
  assume "frames BChunkTrailers (line @ c) rest"
  then obtain w k where w: "line @ c = w @ rest" "trailer_section k w" by (auto simp: frames_def)
  have same: "l = line" if "line @ c = l @ s" "is_line l" for l s
    using line_of_is_line [OF that(2), of s] line_of_is_line [OF assms(1), of c] that(1) by simp
  from w(2) show "frames (if strip_eol line = [] then BDone True else BChunkTrailers) c rest"
  proof (cases rule: trailer_section.cases)
    case blank
    then have "w = line" using same w(1) by simp
    then show ?thesis using blank w(1) by simp
  next
    case (trailer l k' t)
    then have "l = line" using same w(1) by simp
    then show ?thesis using trailer w(1) by (auto simp: frames_def)
  qed
next
  assume f: "frames (if strip_eol line = [] then BDone True else BChunkTrailers) c rest"
  show "frames BChunkTrailers (line @ c) rest"
  proof (cases "strip_eol line = []")
    case True
    then show ?thesis using f assms unfolding frames_def by (intro exI [of _ line]) (auto intro: blank)
  next
    case False
    with f obtain t k where "c = t @ rest" "trailer_section k t" by (auto simp: frames_def)
    then show ?thesis using assms False unfolding frames_def
      by (intro exI [of _ "line @ t"]) (auto intro: trailer)
  qed
qed

lemma frames_no_line: "\<not> frames BChunkTrailers c rest" if "\<And>l s. is_line l \<Longrightarrow> c = l @ s \<Longrightarrow> False"
proof
  assume "frames BChunkTrailers c rest"
  then obtain w k where "c = w @ rest" "trailer_section k w" by (auto simp: frames_def)
  from this(2,1) show False by (cases rule: trailer_section.cases) (use that in auto)
qed

lemma frames_crlf:
  "frames BChunkCrlf (CRLF @ c) rest = frames BChunkSize c rest"
  "take 2 c \<noteq> CRLF \<Longrightarrow> \<not> frames BChunkCrlf c rest"
  "frames (BChunkData 0) c rest = frames BChunkCrlf c rest"
  by (auto simp: frames_def CRLF_def, blast+)

lemma rd_read_steady_end: "steady r \<Longrightarrow> rd_read n r = (Inr [], r') \<Longrightarrow> 0 < n \<Longrightarrow> r = []"
  by (induction n r rule: rd_read.induct) auto

lemma frames_short: "m \<noteq> 0 \<Longrightarrow> \<not> frames (BLength m) [] rest" "m \<noteq> 0 \<Longrightarrow> \<not> frames (BChunkData m) [] rest"
  "frames (BLength 0) c rest \<longleftrightarrow> c = rest"
  by (auto simp: frames_def unat_eq_0 CRLF_def)

lemma read_full_steady:
  "steady r \<Longrightarrow> read_full n r = (res, r') \<Longrightarrow> steady r' \<and> res = Inr (take n (contents r)) \<and> contents r' = drop n (contents r)"
proof -
  assume a: "steady r" "read_full n r = (res, r')"
  obtain d ok r1 where f: "fill n r = (d, ok, r1)" by (metis surjective_pairing)
  note fill_steady [OF a(1) f] fill_contents [OF f]
  then show ?thesis using a(2) f by (auto simp: read_full_def)
qed

lemma reader_shortens:
  "length (snd (rd_read n r)) \<le> length r" "length (snd (snd (read_until n r))) \<le> length r"
  "length (snd (snd (fill n r))) \<le> length r"
proof -
  have u: "length (unread s r) \<le> Suc (length r)" for s r by (simp add: unread_def)
  show "length (snd (rd_read n r)) \<le> length r" by (induction n r rule: rd_read.induct) (auto simp: u)
  show "length (snd (snd (read_until n r))) \<le> length r"
    by (induction n r rule: read_until.induct) (auto simp: u Let_def split_beta)
  show "length (snd (snd (fill n r))) \<le> length r"
    by (induction n r rule: fill.induct) (auto simp: u Let_def split_beta)
qed

lemma framing_line_shortens: "framing_line r = (line, c, r') \<Longrightarrow> length r' \<le> length r"
  using reader_shortens(2) [of "CHUNK_LINE_MAX + 1" r] by (auto simp: framing_line_def Let_def split_beta)

lemma read_full_shortens: "read_full n r = (res, r') \<Longrightarrow> length r' \<le> length r"
  using reader_shortens(3) [of n r] by (auto simp: read_full_def Let_def split_beta)

text \<open>No round changes what the rest of the stream has to be for the body to end as framed.\<close>

definition keeps_frame :: "framed_body \<Rightarrow> framed_body \<Rightarrow> string \<Rightarrow> bool" where
  "keeps_frame b b' rest \<longleftrightarrow> steady (fb_inner b') \<and> length (fb_inner b') \<le> length (fb_inner b) \<and>
     frames (fb_state b') (contents (fb_inner b')) rest = frames (fb_state b) (contents (fb_inner b)) rest"

lemma read_keeps_frame:
  assumes "rd_read (min (unat m) n) (fb_inner b) = (res, r')" "steady (fb_inner b)" "m \<noteq> 0" "0 < n"
    and "(st, fb_state b) \<in> {(BLength (m - of_nat (length got)), BLength m), (BChunkData (m - of_nat (length got)), BChunkData m)}"
  shows "res = Inl e \<Longrightarrow> keeps_frame b (b\<lparr>fb_inner := r'\<rparr>) rest"
    and "res = Inr got \<Longrightarrow> keeps_frame b (b\<lparr>fb_inner := r', fb_state := if got = [] then BDone False else st\<rparr>) rest"
proof -
  have s: "steady r'" "length r' \<le> length (fb_inner b)"
    using rd_read_steady [OF assms(2), of "min (unat m) n"] reader_shortens(1) [of "min (unat m) n" "fb_inner b"] assms(1)
    by simp_all
  show "res = Inl e \<Longrightarrow> keeps_frame b (b\<lparr>fb_inner := r'\<rparr>) rest"
    using s rd_read_interrupted assms(1) by (auto simp: keeps_frame_def)
  assume g: "res = Inr got"
  have c: "contents (fb_inner b) = got @ contents r'" "length got \<le> unat m"
    using rd_read_bytes [OF assms(1) [unfolded g]] by auto
  have "0 < min (unat m) n" using assms(3,4) by (simp add: unat_gt_0)
  then have e: "got = [] \<Longrightarrow> fb_inner b = []" using rd_read_steady_end assms(1,2) g by auto
  show "keeps_frame b (b\<lparr>fb_inner := r', fb_state := if got = [] then BDone False else st\<rparr>) rest"
    using s c e assms(3,5) frames_short frames_Length [OF c(2)] frames_Data [OF c(2)]
    by (auto simp: keeps_frame_def)
qed

lemma framing_line_facts:
  assumes "framing_line r = (line, complete, r')" "steady r"
  shows "contents r = line @ contents r'" "steady r'" "complete \<longleftrightarrow> is_line line" "length r' \<le> length r"
  using framing_line_steady [OF assms(2,1)] framing_line_shortens [OF assms(1)] by blast+

lemma size_keeps_frame:
  assumes "framing_line (fb_inner b) = (line, complete, r')" "steady (fb_inner b)" "fb_state b = BChunkSize"
    and "sz = (if complete then case parse_chunk_size line of Inr m \<Rightarrow> Some m | Inl _ \<Rightarrow> None else None)"
  shows "keeps_frame b (b\<lparr>fb_inner := r', fb_pending := line,
     fb_state := (case sz of Some m \<Rightarrow> if m = 0 then BChunkTrailers else BChunkData m
                  | None \<Rightarrow> if line = [] then BDone False else BToEof)\<rparr>) rest"
proof (cases sz)
  case None
  have "\<not> frames BChunkSize (contents (fb_inner b)) rest"
  proof (rule frames_no_size)
    fix l s n assume l: "is_line l" "contents (fb_inner b) = l @ s" "parse_chunk_size l = Inr n"
    then have "complete \<and> line = l" using framing_line_steady [OF assms(2,1)] by blast
    then show False using None assms(4) l(3) by simp
  qed
  then show ?thesis using None assms(3) framing_line_facts [OF assms(1,2)] by (simp add: keeps_frame_def)
next
  case (Some m)
  then have "is_line line" "parse_chunk_size line = Inr m" "contents (fb_inner b) = line @ contents r'"
    using framing_line_facts [OF assms(1,2)] assms(4) by (auto split: if_splits sum.splits)
  then show ?thesis using Some assms(3) frames_chunk_size [of line m] framing_line_facts [OF assms(1,2)]
    by (simp add: keeps_frame_def)
qed

lemma crlf_keeps_frame:
  assumes "read_full 2 (fb_inner b) = (Inr crlf, r')" "steady (fb_inner b)" "fb_state b = BChunkCrlf"
  shows "keeps_frame b (b\<lparr>fb_inner := r', fb_pending := crlf,
     fb_state := if crlf = CRLF then BChunkSize else if crlf = [] then BDone False else BToEof\<rparr>) rest"
proof -
  have s: "steady r'" "crlf = take 2 (contents (fb_inner b))" "contents (fb_inner b) = crlf @ contents r'"
    using read_full_steady [OF assms(2,1)] by auto
  then show ?thesis using read_full_shortens [OF assms(1)] assms(3) frames_crlf(2) [of "contents (fb_inner b)" rest]
    by (auto simp: keeps_frame_def frames_crlf(1))
qed

lemma trailers_keep_frame:
  assumes "framing_line (fb_inner b) = (line, complete, r')" "steady (fb_inner b)" "fb_state b = BChunkTrailers"
  shows "keeps_frame b (b\<lparr>fb_inner := r', fb_pending := line,
     fb_state := (if \<not> complete then (if line = [] then BDone False else BToEof)
                  else if strip_eol line = [] then BDone True else BChunkTrailers)\<rparr>) rest"
proof (cases complete)
  case True
  then show ?thesis using assms(3) framing_line_facts [OF assms(1,2)] frames_trailers [of line]
    by (simp add: keeps_frame_def)
next
  case False
  have "\<not> frames BChunkTrailers (contents (fb_inner b)) rest"
    using framing_line_steady [OF assms(2,1)] False by (intro frames_no_line) blast
  then show ?thesis using False assms(3) framing_line_facts [OF assms(1,2)] by (simp add: keeps_frame_def)
qed

lemma read_round_frames:
  assumes "fb_round n b = (res, b')" "\<not> fb_at b < length (fb_pending b)" "steady (fb_inner b)" "0 < n"
    and "fb_state b \<in> {BLength m, BChunkData m}" "m \<noteq> 0"
  shows "keeps_frame b b' rest"
proof -
  obtain x r' where x: "rd_read (min (unat m) n) (fb_inner b) = (x, r')" by force
  show ?thesis
  proof (cases x)
    case (Inl e)
    then have "b' = b\<lparr>fb_inner := r'\<rparr>" using assms x by (auto simp: fb_round_def)
    then show ?thesis using read_keeps_frame(1) [OF x assms(3,6,4) _ Inl] assms(5) by auto
  next
    case (Inr got)
    then consider "fb_state b = BLength m"
        "b' = b\<lparr>fb_inner := r', fb_state := if got = [] then BDone False else BLength (m - of_nat (length got))\<rparr>"
      | "fb_state b = BChunkData m"
        "b' = b\<lparr>fb_inner := r', fb_state := if got = [] then BDone False else BChunkData (m - of_nat (length got))\<rparr>"
      using assms x by (auto simp: fb_round_def)
    then show ?thesis using read_keeps_frame(2) [OF x assms(3,6,4) _ Inr] by cases auto
  qed
qed

lemma fb_round_frames:
  assumes "fb_round n b = (res, b')" "steady (fb_inner b)"
  shows "keeps_frame b b' rest"
proof (cases "fb_at b < length (fb_pending b) \<or> n = 0")
  case True
  then show ?thesis using assms by (auto simp: fb_round_def Let_def keeps_frame_def split: if_splits)
next
  case False
  then have n: "\<not> fb_at b < length (fb_pending b)" "0 < n" by auto
  have same: "keeps_frame b b rest" using assms(2) by (simp add: keeps_frame_def)
  show ?thesis
  proof (cases "fb_state b")
    case (BLength m)
    then show ?thesis using assms n same read_round_frames [OF assms(1) _ assms(2) n(2), of m]
      by (cases "m = 0") (auto simp: fb_round_def keeps_frame_def frames_short split: prod.splits sum.splits)
  next
    case (BChunkData m)
    then show ?thesis using assms n read_round_frames [OF assms(1) _ assms(2) n(2), of m]
      by (cases "m = 0") (auto simp: fb_round_def keeps_frame_def frames_crlf)
  next
    case BChunkCrlf
    then show ?thesis using assms n crlf_keeps_frame [OF _ assms(2)] read_full_steady [OF assms(2)]
      by (auto simp: fb_round_def split: prod.splits sum.splits)
  next
    case BToEof
    then show ?thesis using assms n rd_read_steady [OF assms(2), of n] reader_shortens(1) [of n "fb_inner b"]
      by (auto simp: fb_round_def keeps_frame_def split: prod.splits)
  qed (use assms n same size_keeps_frame [OF _ assms(2)] trailers_keep_frame [OF _ assms(2)] in
      \<open>auto simp: fb_round_def Let_def split: prod.splits\<close>)
qed

section \<open>Reading to the end\<close>

definition fb_good :: "framed_body \<Rightarrow> bool" where
  "fb_good b = (fb_ok b \<and> steady (fb_inner b))"

definition fb_settled :: "framed_body \<Rightarrow> bool" where
  "fb_settled b \<longleftrightarrow> fb_at b \<ge> length (fb_pending b) \<and>
     (case fb_state b of BDone _ \<Rightarrow> True | BToEof \<Rightarrow> fb_inner b = [] | _ \<Rightarrow> False)"

definition fb_weight :: "framed_body \<Rightarrow> nat" where
  "fb_weight b = length (fb_left b) + length (fb_inner b) + (if state_rank (fb_state b) = 0 then 0 else 1)"

lemma fb_round_none_rank: "fb_round n b = (None, b') \<Longrightarrow> state_rank (fb_state b) \<noteq> 0"
  by (auto simp: fb_round_def Let_def split: if_splits body_state.splits prod.splits)

lemma rd_read_fault: "steady r \<Longrightarrow> rd_read n r = (Inl e, r') \<Longrightarrow> e = Interrupted"
  by (induction n r rule: rd_read.induct) auto

lemma read_full_no_fault: "steady r \<Longrightarrow> read_full n r = (Inl e, r') \<Longrightarrow> False"
  using read_full_steady by blast

lemma fb_round_result:
  "fb_round n b = (Some x, b') \<Longrightarrow> steady (fb_inner b) \<Longrightarrow> x \<noteq> Inl Broken \<and> x \<noteq> Inl UnexpectedEof"
  by (cases "fb_at b < length (fb_pending b) \<or> n = 0"; cases "fb_state b")
    (auto simp: fb_round_def Let_def split: if_splits prod.splits sum.splits
      dest: rd_read_fault read_full_no_fault)

lemma rd_read_progress:
  "steady r \<Longrightarrow> rd_read k r = (res, r') \<Longrightarrow> 0 < k \<Longrightarrow>
    reader_weight r' < reader_weight r \<or> r = [] \<and> res = Inr [] \<and> r' = []"
  using rd_read_weight [of r k] by (cases r) auto

lemma read_round_progress:
  assumes "fb_round n b = (Some x, b')" "steady (fb_inner b)" "0 < n" "\<not> fb_at b < length (fb_pending b)"
    and "fb_state b \<in> {BLength m, BChunkData m}" "m \<noteq> 0"
  shows "fb_pending b' = fb_pending b \<and> fb_at b' = fb_at b \<and>
    (reader_weight (fb_inner b') < reader_weight (fb_inner b) \<or>
     fb_inner b' = fb_inner b \<and> state_rank (fb_state b') = 0)"
proof -
  obtain res r' where x: "rd_read (min (unat m) n) (fb_inner b) = (res, r')" by force
  have "0 < min (unat m) n" using assms(3,6) by (simp add: unat_gt_0)
  note p = rd_read_progress [OF assms(2) x this]
  show ?thesis
  proof (cases "fb_inner b = []")
    case True
    then show ?thesis using x assms by (auto simp: fb_round_def)
  next
    case False
    then show ?thesis using x p assms by (cases res) (auto simp: fb_round_def)
  qed
qed

lemma fb_round_progress:
  assumes "fb_round n b = (Some x, b')" "steady (fb_inner b)" "0 < n" "\<not> fb_settled b" "\<not> fb_at b < length (fb_pending b)"
  shows "fb_pending b' = fb_pending b \<and> fb_at b' = fb_at b \<and>
    (reader_weight (fb_inner b') < reader_weight (fb_inner b) \<and>
       (state_rank (fb_state b) = 0 \<longrightarrow> state_rank (fb_state b') = 0) \<or>
     fb_inner b' = fb_inner b \<and> state_rank (fb_state b) \<noteq> 0 \<and> state_rank (fb_state b') = 0)"
proof (cases "fb_state b")
  case (BLength m)
  then show ?thesis using assms read_round_progress [OF assms(1-3,5), of m]
    by (cases "m = 0") (auto simp: fb_round_def)
next
  case (BChunkData m)
  then show ?thesis using assms read_round_progress [OF assms(1-3,5), of m]
    by (cases "m = 0") (auto simp: fb_round_def)
next
  case BToEof
  obtain res r' where x: "rd_read n (fb_inner b) = (res, r')" by force
  then show ?thesis using BToEof assms rd_read_progress [OF assms(2) x assms(3)]
    by (auto simp: fb_round_def fb_settled_def)
qed (use assms read_full_no_fault in \<open>auto simp: fb_round_def Let_def fb_settled_def split: prod.splits sum.splits\<close>)

lemma fb_round_weight:
  assumes "fb_round n b = (res, b')" "fb_good b"
  shows "fb_good b'"
    and "res = None \<Longrightarrow> fb_weight b' \<le> fb_weight b \<and> (fb_settled b' \<longrightarrow> fb_weight b' < fb_weight b)"
    and "res = Some x \<Longrightarrow> x \<noteq> Inl Broken \<and> x \<noteq> Inl UnexpectedEof"
    and "res = Some x \<Longrightarrow> 0 < n \<Longrightarrow> \<not> fb_settled b \<Longrightarrow> fb_weight b' < fb_weight b"
proof -
  have l: "fb_ok b'" "res = None \<Longrightarrow> fb_left b' = fb_left b"
    using fb_round_left [of b n res b'] assms by (auto simp: fb_good_def)
  have k: "keeps_frame b b' []" using fb_round_frames [OF assms(1)] assms(2) by (simp add: fb_good_def)
  show "fb_good b'" using l k by (simp add: fb_good_def keeps_frame_def)
  show "fb_weight b' \<le> fb_weight b \<and> (fb_settled b' \<longrightarrow> fb_weight b' < fb_weight b)" if "res = None"
    using that l k fb_round_none_rank [of n b b'] assms(1)
    by (auto simp: fb_weight_def keeps_frame_def fb_settled_def split: body_state.splits)
  show "x \<noteq> Inl Broken \<and> x \<noteq> Inl UnexpectedEof" if "res = Some x"
    using fb_round_result assms that by (auto simp: fb_good_def)
  assume a: "res = Some x" "0 < n" "\<not> fb_settled b"
  show "fb_weight b' < fb_weight b"
  proof (cases "fb_at b < length (fb_pending b)")
    case True
    then show ?thesis using assms(1) a(1,2)
      by (auto simp: fb_round_def fb_weight_def fb_left_def Let_def split: if_splits)
  next
    case False
    then show ?thesis using fb_round_progress [of n b x b'] assms a
      by (auto simp: fb_good_def fb_weight_def fb_left_def reader_weight_def)
  qed
qed

lemma fb_read_settled: "fb_settled b \<Longrightarrow> fb_read n b = (Inr [], b)"
  by (auto simp: fb_settled_def fb_read.simps [of n b] fb_round_def split: body_state.splits)

lemma fb_read_weight:
  assumes "fb_good b"
  shows "fb_good (snd (fb_read n b)) \<and> fst (fb_read n b) \<noteq> Inl Broken \<and> fst (fb_read n b) \<noteq> Inl UnexpectedEof \<and>
    (0 < n \<longrightarrow> \<not> fb_settled b \<longrightarrow> fb_weight (snd (fb_read n b)) < fb_weight b)"
  using assms
proof (induction n b rule: fb_read.induct)
  case (1 n b)
  obtain res b1 where r: "fb_round n b = (res, b1)" by force
  note w = fb_round_weight [OF r 1(2)]
  show ?case
  proof (cases res)
    case None
    have "fb_read n b = fb_read n b1" using r None by (simp add: fb_read.simps [of n b])
    moreover note 1(1) [OF r [symmetric] None w(1)]
    moreover have "fb_settled b1 \<Longrightarrow> fb_read n b1 = (Inr [], b1)" by (rule fb_read_settled)
    ultimately show ?thesis using w(2) [OF None] by fastforce
  next
    case (Some x)
    then show ?thesis using r w by (simp add: fb_read.simps [of n b])
  qed
qed

interpretation framed: draining_source fb_read fb_left fb_ok fb_good fb_settled fb_weight
  by unfold_locales (use fb_read_weight fb_read_settled in \<open>auto simp: fb_good_def\<close>)

lemma fb_read_frames:
  assumes "fb_good b"
  shows "frames (fb_state (snd (fb_read n b))) (contents (fb_inner (snd (fb_read n b)))) rest =
    frames (fb_state b) (contents (fb_inner b)) rest"
  using assms
proof (induction n b rule: fb_read.induct)
  case (1 n b)
  obtain res b1 where r: "fb_round n b = (res, b1)" by force
  have k: "keeps_frame b b1 rest" using fb_round_frames [OF r] 1(2) by (simp add: fb_good_def)
  show ?case
  proof (cases res)
    case None
    have "fb_read n b = fb_read n b1" using r None by (simp add: fb_read.simps [of n b])
    then show ?thesis using 1(1) [OF r [symmetric] None fb_round_weight(1) [OF r 1(2)]] k
      by (simp add: keeps_frame_def)
  next
    case (Some x)
    then show ?thesis using r k by (simp add: fb_read.simps [of n b] keeps_frame_def)
  qed
qed

lemma fb_reads_frames:
  "fb_good b \<Longrightarrow> frames (fb_state (snd (reads fb_read ns b))) (contents (fb_inner (snd (reads fb_read ns b)))) rest =
    frames (fb_state b) (contents (fb_inner b)) rest"
  by (induction ns arbitrary: b) (use fb_read_frames framed.pull_good in \<open>auto simp: split_beta Let_def\<close>)

lemma fb_settled_frames:
  "fb_settled b \<Longrightarrow> frames (fb_state b) (contents (fb_inner b)) rest \<longleftrightarrow> ended_as_framed b \<and> fb_left b = rest"
  by (auto simp: fb_settled_def ended_as_framed_def fb_left_def split: body_state.splits)

text \<open>The messages a framing admits.\<close>

fun framed_message :: "body_framing \<Rightarrow> string \<Rightarrow> bool" where
  "framed_message FrEmpty w = (w = [])"
| "framed_message (FrLength n) w = (length w = unat n)"
| "framed_message FrChunked w = (\<exists>k body. chunked_wire k w body)"
| "framed_message FrToEof w = False"

lemma frames_new: "frames (fb_state (FramedBody_new r f)) s rest \<longleftrightarrow> (\<exists>w. s = w @ rest \<and> framed_message f w)"
  by (cases f) (auto simp: FramedBody_new_def frames_def)

text \<open>C17. Reading a body to its end, into any buffers and over any segmentation of the stream, it is
  reported as ended where its framing said exactly when the stream starts with a message of that
  framing, and then exactly that message was delivered and what follows it is still in the reader.\<close>

theorem ended_as_framed_iff:
  assumes "steady r" "list_all ((<) 0) ns" "length (contents r) + length r < length ns"
    and "reads fb_read ns (FramedBody_new r f) = (outs, b)"
  shows "(ended_as_framed b \<longleftrightarrow> (\<exists>w rest. contents r = w @ rest \<and> framed_message f w)) \<and>
    (ended_as_framed b \<longrightarrow> framed_message f (delivered outs) \<and> contents r = delivered outs @ contents (fb_inner b))"
proof -
  let ?b = "FramedBody_new r f"
  have g: "fb_good ?b" using assms(1) by (simp add: fb_good_def)
  have "fb_weight ?b \<le> length ns" using assms(3) by (simp add: fb_weight_def)
  from framed.reads_all_delivered [OF g assms(2) this assms(4)]
  have d: "fb_settled b" "contents r = delivered outs @ fb_left b" by simp_all
  have f: "ended_as_framed b \<and> fb_left b = rest \<longleftrightarrow> (\<exists>w. contents r = w @ rest \<and> framed_message f w)" for rest
    using fb_reads_frames [OF g, of ns rest] fb_settled_frames [OF d(1)] assms(4) frames_new [of r f] by simp
  have "framed_message f (delivered outs)" if "ended_as_framed b"
    using f [of "fb_left b"] that d(2) by auto
  moreover have "fb_left b = contents (fb_inner b)" using d(1) by (simp add: fb_settled_def fb_left_def)
  ultimately show ?thesis using f d(2) by (metis (no_types))
qed

definition sample_body :: reader where
  "sample_body = [Bytes ''2'', Interruption, Bytes (CRLF @ ''ab''), Bytes (CRLF @ ''0'' @ CRLF @ CRLF @ ''HTTP'')]"

theorem ended_as_framed_iff_witness:
  "\<exists>outs b. reads fb_read (replicate 30 3) (FramedBody_new sample_body FrChunked) = (outs, b) \<and>
     (\<exists>k body. chunked_wire k (delivered outs) body) \<and>
     ''2'' @ CRLF @ ''ab'' @ CRLF @ ''0'' @ CRLF @ CRLF @ ''HTTP'' = delivered outs @ contents (fb_inner b)"
proof -
  obtain outs b where r: "reads fb_read (replicate 30 3) (FramedBody_new sample_body FrChunked) = (outs, b)"
    by (metis surjective_pairing)
  have "ended_as_framed (snd (reads fb_read (replicate 30 3) (FramedBody_new sample_body FrChunked)))" by code_simp
  moreover have s: "steady sample_body" by code_simp
  moreover have "length (contents sample_body) + length sample_body < 30"
    "contents sample_body = ''2'' @ CRLF @ ''ab'' @ CRLF @ ''0'' @ CRLF @ CRLF @ ''HTTP''"
    by (simp_all add: sample_body_def CRLF_def)
  moreover have "list_all ((<) 0) (replicate 30 (3 :: nat))" by code_simp
  ultimately show ?thesis using r ended_as_framed_iff [OF s _ _ r] by auto
qed

section \<open>The decoder decodes exactly the grammar\<close>

lemma read_line_steady:
  assumes "steady r" "read_line_bounded CHUNK_LINE_MAX r = (res, r')"
  shows "steady r'"
    and "res = Inr line \<Longrightarrow> contents r = line @ contents r'"
    and "res = Inr line \<Longrightarrow> ends_with [LF] line \<longleftrightarrow> is_line line"
    and "is_line l \<Longrightarrow> contents r = l @ s \<Longrightarrow> res = Inr l \<and> contents r' = s"
proof -
  obtain line' ok where u: "read_until (CHUNK_LINE_MAX + 1) r = (line', ok, r')"
    "res = (if \<not> ok then Inl (Io Broken) else if CHUNK_LINE_MAX < length line' then Inl LineTooLong else Inr line')"
    using assms(2) by (auto simp: read_line_bounded_def Let_def split: prod.splits)
  have b: "contents r = line' @ contents r'" "steady r'" ok
    "length line' \<le> CHUNK_LINE_MAX \<and> ends_with [LF] line' \<longleftrightarrow> is_line line'"
    using bounded_line [OF assms(1) u(1)] by blast+
  show "steady r'" by (rule b)
  show "res = Inr line \<Longrightarrow> contents r = line @ contents r'" using b(1) u(2) by (simp split: if_splits)
  show "res = Inr line \<Longrightarrow> ends_with [LF] line \<longleftrightarrow> is_line line" using b(4) u(2) by (simp split: if_splits)
  show "res = Inr l \<and> contents r' = s" if "is_line l" "contents r = l @ s"
  proof -
    have "line' = l \<and> contents r' = s" using bounded_line [OF assms(1) u(1)] that by blast
    then show ?thesis using u(2) b that(1) by (simp add: is_line_def)
  qed
qed

lemma line_determined: "is_line l \<Longrightarrow> is_line l' \<Longrightarrow> l @ s = l' @ s' \<Longrightarrow> l' = l \<and> s' = s"
  using line_of_is_line [of l s] line_of_is_line [of l' s'] by auto

text \<open>The stream starts with a trailer section of \<open>k\<close> lines, or with a message that has one, before \<open>rest\<close>.\<close>

definition trailers_before :: "nat \<Rightarrow> string \<Rightarrow> string \<Rightarrow> bool" where
  "trailers_before k s rest = (\<exists>t. s = t @ rest \<and> trailer_section k t)"

definition message_before :: "nat \<Rightarrow> string \<Rightarrow> string \<Rightarrow> string \<Rightarrow> bool" where
  "message_before k body s rest = (\<exists>w. s = w @ rest \<and> chunked_wire k w body)"

lemma trailers_before_line:
  assumes "is_line l"
  shows "trailers_before k (l @ c) rest \<longleftrightarrow>
    (if strip_eol l = [] then k = 0 \<and> c = rest else \<exists>j. k = Suc j \<and> trailers_before j c rest)"
proof
  assume "trailers_before k (l @ c) rest"
  then obtain t where t: "l @ c = t @ rest" "trailer_section k t" by (auto simp: trailers_before_def)
  from t(2) show "if strip_eol l = [] then k = 0 \<and> c = rest else \<exists>j. k = Suc j \<and> trailers_before j c rest"
  proof (cases rule: trailer_section.cases)
    case blank
    then show ?thesis using line_determined [OF assms, of t c rest] t(1) by simp
  next
    case (trailer l' j t')
    then show ?thesis using line_determined [OF assms, of l' c "t' @ rest"] t(1)
      by (auto simp: trailers_before_def)
  qed
next
  assume a: "if strip_eol l = [] then k = 0 \<and> c = rest else \<exists>j. k = Suc j \<and> trailers_before j c rest"
  show "trailers_before k (l @ c) rest"
  proof (cases "strip_eol l = []")
    case True
    then show ?thesis using a assms blank by (auto simp: trailers_before_def)
  next
    case False
    with a obtain j t where "k = Suc j" "c = t @ rest" "trailer_section j t" by (auto simp: trailers_before_def)
    then show ?thesis using trailer [OF assms False, of j t] unfolding trailers_before_def
      by (intro exI [of _ "l @ t"]) simp
  qed
qed

lemma trailers_before_has_line: "trailers_before k s rest \<Longrightarrow> \<exists>l c. is_line l \<and> s = l @ c"
proof -
  assume "trailers_before k s rest"
  then obtain t where t: "trailer_section k t" "s = t @ rest" by (auto simp: trailers_before_def)
  from t(1) show ?thesis by (cases rule: trailer_section.cases) (use t(2) in auto)
qed

lemma trailer_rounds_iff:
  "steady r \<Longrightarrow> (\<exists>r'. trailer_rounds j r = (Inr (), r') \<and> contents r' = rest) \<longleftrightarrow>
    (\<exists>k < j. trailers_before k (contents r) rest)"
proof (induction j arbitrary: r)
  case (Suc j)
  obtain res r1 where l: "read_line_bounded CHUNK_LINE_MAX r = (res, r1)" by force
  note s = read_line_steady [OF Suc.prems l]
  show ?case
  proof (cases "\<exists>line. res = Inr line \<and> is_line line")
    case False
    then have "\<not> trailers_before k (contents r) rest" for k
      using s(4) trailers_before_has_line by blast
    moreover have "fst (trailer_rounds (Suc j) r) \<noteq> Inr ()" using False l s(3) by (cases res) auto
    ultimately show ?thesis by (metis fst_conv)
  next
    case True
    then obtain line where line: "res = Inr line" "is_line line" "ends_with [LF] line" using s(3) by blast
    then have c: "contents r = line @ contents r1" using s(2) by blast
    have e: "trailer_rounds (Suc j) r = (if strip_eol line = [] then (Inr (), r1) else trailer_rounds j r1)"
      using l line by simp
    show ?thesis unfolding c trailers_before_line [OF line(2)] e using Suc.IH [OF s(1)]
      by (cases "strip_eol line = []") (auto simp: less_Suc_eq_0_disj)
  qed
qed simp

lemma message_before_line:
  assumes "is_line l" "parse_chunk_size l = Inr n"
  shows "message_before k body (l @ c) rest \<longleftrightarrow>
    (if n = 0 then body = [] \<and> trailers_before k c rest
     else \<exists>d c' body'. c = d @ CRLF @ c' \<and> length d = unat n \<and> body = d @ body' \<and> message_before k body' c' rest)"
    (is "_ \<longleftrightarrow> ?r")
proof
  assume "message_before k body (l @ c) rest"
  then obtain w where w: "l @ c = w @ rest" "chunked_wire k w body" by (auto simp: message_before_def)
  from w(2) show ?r
  proof (cases rule: chunked_wire.cases)
    case (last_chunk l' t)
    then show ?thesis using line_determined [OF assms(1), of l' c "t @ rest"] w(1) assms(2)
      by (auto simp: trailers_before_def)
  next
    case (chunk l' m d w' body')
    then show ?thesis using line_determined [OF assms(1), of l' c "d @ CRLF @ w' @ rest"] w(1) assms(2)
      by (auto simp: message_before_def)
  qed
next
  assume a: ?r
  show "message_before k body (l @ c) rest"
  proof (cases "n = 0")
    case True
    with a obtain t where "c = t @ rest" "trailer_section k t" "body = []" by (auto simp: trailers_before_def)
    then show ?thesis using last_chunk [OF assms(1)] assms(2) True unfolding message_before_def
      by (intro exI [of _ "l @ t"]) simp
  next
    case False
    with a obtain d w body' where "c = d @ CRLF @ w @ rest" "length d = unat n" "body = d @ body'" "chunked_wire k w body'"
      by (auto simp: message_before_def)
    then show ?thesis using chunk [OF assms False] unfolding message_before_def
      by (intro exI [of _ "l @ d @ CRLF @ w"]) simp
  qed
qed

lemma message_before_has_line:
  "message_before k body s rest \<Longrightarrow> \<exists>l c n. is_line l \<and> s = l @ c \<and> parse_chunk_size l = Inr n"
proof -
  assume "message_before k body s rest"
  then obtain w where w: "chunked_wire k w body" "s = w @ rest" by (auto simp: message_before_def)
  from w(1) show ?thesis by (cases rule: chunked_wire.cases) (use w(2) in auto)
qed

lemma size_line_steady:
  assumes "steady r" "read_chunk_size_line r = (res, r1)"
  shows "steady r1"
    and "res = Inr n \<Longrightarrow> \<exists>l. is_line l \<and> parse_chunk_size l = Inr n \<and> contents r = l @ contents r1"
    and "is_line l \<Longrightarrow> contents r = l @ s \<Longrightarrow> parse_chunk_size l = Inr n \<Longrightarrow> res = Inr n \<and> contents r1 = s"
proof -
  obtain x where l: "read_line_bounded CHUNK_LINE_MAX r = (x, r1)"
    "res = (case x of Inl e \<Rightarrow> Inl e | Inr line \<Rightarrow> if line = [] then Inl NoChunkSize else parse_chunk_size line)"
    using assms(2) by (auto simp: read_chunk_size_line_def split: prod.splits sum.splits)
  note s = read_line_steady [OF assms(1) l(1)]
  show "steady r1" by (rule s)
  show "\<exists>l. is_line l \<and> parse_chunk_size l = Inr n \<and> contents r = l @ contents r1" if r: "res = Inr n"
  proof -
    obtain line where x: "x = Inr line" "parse_chunk_size line = Inr n"
      using r l(2) by (auto split: sum.splits if_splits)
    moreover from this have "ends_with [LF] line" by (auto simp: parse_chunk_size_def split: if_splits)
    ultimately show ?thesis using s(2,3) by blast
  qed
  show "res = Inr n \<and> contents r1 = s" if "is_line l" "contents r = l @ s" "parse_chunk_size l = Inr n"
    using s(4) [OF that(1,2)] that(3) is_line_ends [OF that(1)] l(2) by simp
qed

lemma read_exact_steady:
  assumes "steady r" "read_exact n r = (res, r1)"
  shows "steady r1"
    and "res = Inr d \<longleftrightarrow> length d = n \<and> contents r = d @ contents r1"
    and "contents r = d @ s \<Longrightarrow> length d = n \<Longrightarrow> res = Inr d \<and> contents r1 = s"
proof -
  obtain d' ok where f: "fill n r = (d', ok, r1)"
    "res = (if \<not> ok then Inl Broken else if length d' < n then Inl UnexpectedEof else Inr d')"
    using assms(2) by (auto simp: read_exact_def Let_def split: prod.splits)
  have s: "ok" "steady r1" "d' = take n (contents r)" using fill_steady [OF assms(1) f(1)] by auto
  have c: "contents r = d' @ contents r1" "length d' \<le> n" using fill_contents [OF f(1)] by auto
  show "steady r1" by (rule s)
  have *: "res = Inr d \<and> contents r1 = s" if "contents r = d @ s" "length d = n" for d s
  proof -
    have "d' = d" unfolding s(3) that(1) using that(2) by simp
    then show ?thesis using s(1) c(1) that f(2) by simp
  qed
  have "length d = n \<and> contents r = d @ contents r1" if "res = Inr d"
    using that f(2) c by (simp split: if_splits)
  then show "res = Inr d \<longleftrightarrow> length d = n \<and> contents r = d @ contents r1" using * by blast
  show "contents r = d @ s \<Longrightarrow> length d = n \<Longrightarrow> res = Inr d \<and> contents r1 = s" by (rule *)
qed

lemma chunk_crlf_steady:
  assumes "steady r" "read_chunk_crlf r = (res, r1)"
  shows "steady r1" and "res = Inr () \<longleftrightarrow> contents r = CRLF @ contents r1"
    and "contents r = CRLF @ s \<Longrightarrow> res = Inr () \<and> contents r1 = s"
proof -
  obtain x where x: "read_exact 2 r = (x, r1)"
    "res = (case x of Inl e \<Rightarrow> Inl (Io e) | Inr crlf \<Rightarrow> if crlf \<noteq> CRLF then Inl NoChunkCrlf else Inr ())"
    using assms(2) by (auto simp: read_chunk_crlf_def split: prod.splits sum.splits)
  note s = read_exact_steady [OF assms(1) x(1)]
  have two: "length CRLF = 2" by (simp add: CRLF_def)
  show "steady r1" by (rule s)
  show "res = Inr () \<and> contents r1 = s" if "contents r = CRLF @ s" using s(3) [OF that two] x(2) by simp
  have "res = Inr () \<longleftrightarrow> x = Inr CRLF" using x(2) by (auto split: sum.splits if_splits)
  then show "res = Inr () \<longleftrightarrow> contents r = CRLF @ contents r1" using s(2) [of CRLF] two by simp
qed

text \<open>One round of the decoder's loop, on a chunk that holds data.\<close>

lemma read_chunked_data:
  assumes "steady r" "read_chunk_size_line r = (Inr n, r1)" "n \<noteq> 0" "length buf + unat n \<le> unat cap"
    and "contents r1 = d @ CRLF @ c" "length d = unat n"
  obtains r3 where "read_chunked cap buf r = read_chunked cap (buf @ d) r3" "steady r3" "contents r3 = c"
proof -
  obtain x r2 where x: "read_exact (unat n) r1 = (x, r2)" by force
  note s1 = size_line_steady(1) [OF assms(1,2)]
  have d: "x = Inr d" "contents r2 = CRLF @ c" using read_exact_steady(3) [OF s1 x assms(5,6)] by auto
  obtain y r3 where y: "read_chunk_crlf r2 = (y, r3)" by force
  note s2 = read_exact_steady(1) [OF s1 x]
  have c: "y = Inr ()" "contents r3 = c" using chunk_crlf_steady(3) [OF s2 y d(2)] by auto
  have "unat cap < 2 ^ 64" using unsigned_less [of cap, where ?'a = nat] by simp
  then have "read_chunked cap buf r = read_chunked cap (buf @ d) r3"
    using assms(2-4) x y d(1) c(1) by (simp add: read_chunked.simps [of cap buf r])
  then show thesis using that chunk_crlf_steady(1) [OF s2 y] c(2) by blast
qed

lemma read_chunked_fails:
  assumes "steady r" "read_chunk_size_line r = (Inr n, r1)" "n \<noteq> 0"
    and "read_chunked cap buf r = (Inr out, r')"
  obtains d c where "contents r1 = d @ CRLF @ c" "length d = unat n" "length buf + unat n \<le> unat cap"
proof -
  obtain x r2 where x: "read_exact (unat n) r1 = (x, r2)" by force
  note s1 = size_line_steady(1) [OF assms(1,2)]
  obtain y r3 where y: "read_chunk_crlf r2 = (y, r3)" by force
  note s2 = read_exact_steady(1) [OF s1 x]
  have "length buf + unat n \<le> unat cap" and xy: "\<exists>d. x = Inr d" "y = Inr ()"
    using assms(2-4) x y by (auto simp: read_chunked.simps [of cap buf r] split: if_splits sum.splits)
  moreover from xy obtain d where "x = Inr d" by blast
  moreover have "contents r2 = CRLF @ contents r3" using chunk_crlf_steady(2) [OF s2 y] xy by simp
  moreover have "length d = unat n \<and> contents r1 = d @ contents r2"
    using read_exact_steady(2) [OF s1 x] \<open>x = Inr d\<close> by blast
  ultimately show thesis using that by metis
qed

lemma read_chunked_last:
  assumes "steady r" "read_chunk_size_line r = (Inr 0, r1)"
  shows "(\<exists>r'. read_chunked cap buf r = (Inr out, r') \<and> contents r' = rest) \<longleftrightarrow>
    out = buf \<and> (\<exists>k \<le> TRAILER_LINES_MAX. trailers_before k (contents r1) rest)"
proof -
  have "read_chunked cap buf r = (Inr out, r') \<longleftrightarrow> out = buf \<and> read_chunked_trailers r1 = (Inr (), r')" for r'
    using assms(2) by (auto simp: read_chunked.simps [of cap buf r] split: prod.splits sum.splits)
  then show ?thesis
    using trailer_rounds_iff [OF size_line_steady(1) [OF assms], of "TRAILER_LINES_MAX + 1" rest]
    by (auto simp: read_chunked_trailers_def less_Suc_eq_le)
qed

lemma read_chunked_no_size:
  assumes "steady r" "\<And>n. fst (read_chunk_size_line r) \<noteq> Inr n"
  shows "fst (read_chunked cap buf r) \<noteq> Inr out" "\<not> message_before k body (contents r) rest"
proof -
  obtain e r1 where l: "read_chunk_size_line r = (Inl e, r1)"
    using assms(2) by (metis eq_fst_iff sum.exhaust)
  show "fst (read_chunked cap buf r) \<noteq> Inr out" using l by (simp add: read_chunked.simps [of cap buf r])
  show "\<not> message_before k body (contents r) rest"
  proof
    assume "message_before k body (contents r) rest"
    then obtain l c n where "is_line l" "contents r = l @ c" "parse_chunk_size l = Inr n"
      using message_before_has_line by blast
    then show False using size_line_steady(3) [OF assms(1) l] by blast
  qed
qed

definition decodes :: "u64 \<Rightarrow> string \<Rightarrow> reader \<Rightarrow> string \<Rightarrow> string \<Rightarrow> bool" where
  "decodes cap buf r out rest = (\<exists>r'. read_chunked cap buf r = (Inr out, r') \<and> contents r' = rest)"

definition decodable :: "u64 \<Rightarrow> string \<Rightarrow> string \<Rightarrow> string \<Rightarrow> string \<Rightarrow> bool" where
  "decodable cap buf s out rest =
     (\<exists>k body. k \<le> TRAILER_LINES_MAX \<and> out = buf @ body \<and> length out \<le> unat cap \<and> message_before k body s rest)"

lemma decodes_chunk:
  assumes "steady r" "read_chunk_size_line r = (Inr n, r1)" "n \<noteq> 0"
    and "is_line l" "parse_chunk_size l = Inr n" "contents r = l @ contents r1"
    and ih: "\<And>d c. contents r1 = d @ CRLF @ c \<Longrightarrow> length d = unat n \<Longrightarrow> length buf + unat n \<le> unat cap \<Longrightarrow>
      decodes cap buf r out rest = decodable cap (buf @ d) c out rest"
  shows "decodes cap buf r out rest = decodable cap buf (contents r) out rest"
proof
  assume a: "decodes cap buf r out rest"
  then obtain d c where d: "contents r1 = d @ CRLF @ c" "length d = unat n" "length buf + unat n \<le> unat cap"
    using read_chunked_fails [OF assms(1-3)] unfolding decodes_def by blast
  then show "decodable cap buf (contents r) out rest"
    using ih [OF d] a assms(3) unfolding assms(6) decodable_def message_before_line [OF assms(4,5)]
    by (metis append.assoc)
next
  assume "decodable cap buf (contents r) out rest"
  then obtain k d c body where d: "contents r1 = d @ CRLF @ c" "length d = unat n" "out = buf @ d @ body"
    "length out \<le> unat cap" "message_before k body c rest" "k \<le> TRAILER_LINES_MAX"
    unfolding decodable_def assms(6) message_before_line [OF assms(4,5)] using assms(3) by auto
  then show "decodes cap buf r out rest" using ih [OF d(1,2)] by (auto simp: decodable_def)
qed

lemma read_chunked_iff:
  assumes "steady r" "length buf \<le> unat cap"
  shows "decodes cap buf r out rest = decodable cap buf (contents r) out rest"
  using assms
proof (induction "length (contents r)" arbitrary: buf r rule: less_induct)
  case less
  show ?case
  proof (cases "\<exists>n. fst (read_chunk_size_line r) = Inr n")
    case False
    then show ?thesis using read_chunked_no_size [OF less.prems(1)] unfolding decodes_def decodable_def
      by (metis fst_conv)
  next
    case True
    then obtain n r1 where n: "read_chunk_size_line r = (Inr n, r1)" by (metis prod.collapse)
    obtain l where l: "is_line l" "parse_chunk_size l = Inr n" "contents r = l @ contents r1"
      using size_line_steady(2) [OF less.prems(1) n] by blast
    show ?thesis
    proof (cases "n = 0")
      case True
      then show ?thesis
        using read_chunked_last [OF less.prems(1), of r1 cap buf out rest] n less.prems(2)
          message_before_line [OF l(1,2)]
        unfolding l(3) decodes_def decodable_def by auto
    next
      case False
      show ?thesis
      proof (rule decodes_chunk [OF less.prems(1) n False l])
        fix d c assume d: "contents r1 = d @ CRLF @ c" "length d = unat n" "length buf + unat n \<le> unat cap"
        obtain r3 where r3: "read_chunked cap buf r = read_chunked cap (buf @ d) r3" "steady r3" "contents r3 = c"
          using read_chunked_data [OF less.prems(1) n False d(3,1,2)] by blast
        have "length (contents r3) < length (contents r)" using size_line_shortens [OF n] d(1) r3(3) by simp
        from less.hyps [OF this r3(2), of "buf @ d"] d r3
        show "decodes cap buf r out rest = decodable cap (buf @ d) c out rest" by (simp add: decodes_def)
      qed
    qed
  qed
qed

text \<open>C18. The decoder of a request body returns a body exactly when the stream starts with a chunked message
  that carries it, with at most 64 trailer lines and a body within the cap, and it leaves the stream
  right behind that message, however the bytes arrive.\<close>

theorem read_chunked_body_iff:
  assumes "steady r"
  shows "(\<exists>r'. read_chunked_body r cap = (Inr body, r') \<and> contents r' = rest) \<longleftrightarrow>
    (\<exists>k w. k \<le> TRAILER_LINES_MAX \<and> length body \<le> unat cap \<and> contents r = w @ rest \<and> chunked_wire k w body)"
  using read_chunked_iff [OF assms, of "[]" cap body rest]
  by (auto simp: read_chunked_body_def message_before_def decodes_def decodable_def)

theorem read_chunked_body_iff_witness:
  "\<exists>k w. k \<le> TRAILER_LINES_MAX \<and> length ''ab'' \<le> unat (9 :: u64) \<and>
     ''2'' @ CRLF @ ''ab'' @ CRLF @ ''0'' @ CRLF @ CRLF @ ''HTTP'' = w @ ''HTTP'' \<and> chunked_wire k w ''ab''"
proof -
  have "read_chunked_body sample_body 9 = (Inr ''ab'', [Bytes ''HTTP''])" by code_simp
  moreover have "contents sample_body = ''2'' @ CRLF @ ''ab'' @ CRLF @ ''0'' @ CRLF @ CRLF @ ''HTTP''" "steady sample_body"
    by (simp_all add: sample_body_def CRLF_def)
  ultimately show ?thesis using read_chunked_body_iff [of sample_body 9 "''ab''" "''HTTP''"] by auto
qed

section \<open>Heads end at their first blank line\<close>

definition blank_line :: "string \<Rightarrow> bool" where
  "blank_line l = (l = CRLF \<or> l = [LF])"

definition whole_line :: "string \<Rightarrow> bool" where
  "whole_line l = (\<exists>t. l = t @ [LF] \<and> LF \<notin> set t)"

inductive head_block :: "string \<Rightarrow> bool" where
  blank: "blank_line l \<Longrightarrow> head_block l"
| line: "whole_line l \<Longrightarrow> \<not> blank_line l \<Longrightarrow> head_block h \<Longrightarrow> head_block (l @ h)"

lemma blank_whole: "blank_line l \<Longrightarrow> whole_line l"
  by (auto simp: blank_line_def whole_line_def CRLF_def CR_def LF_def)

lemma whole_line_of: "whole_line l \<Longrightarrow> length l \<le> lim \<Longrightarrow> line_of lim (l @ s) = l"
  by (auto simp: whole_line_def line_of_def takeWhile_append)

lemma line_of_whole: "line_of lim s = l \<Longrightarrow> ends_with [LF] l \<Longrightarrow> whole_line l"
  using line_of_split by (auto simp: whole_line_def)

lemma whole_line_determined: "whole_line l \<Longrightarrow> whole_line l' \<Longrightarrow> l @ s = l' @ s' \<Longrightarrow> l' = l \<and> s' = s"
  using whole_line_of [of l "length l + length l'" s] whole_line_of [of l' "length l + length l'" s'] by auto

lemma head_block_first: "head_block h \<Longrightarrow> \<exists>l t. whole_line l \<and> h = l @ t"
  by (induction rule: head_block.induct) (use blank_whole in auto)

lemma head_block_line:
  assumes "whole_line l"
  shows "head_block h \<and> l @ c = h @ rest \<longleftrightarrow>
    (if blank_line l then h = l \<and> c = rest else \<exists>h'. h = l @ h' \<and> head_block h' \<and> c = h' @ rest)"
proof
  assume a: "head_block h \<and> l @ c = h @ rest"
  from a [THEN conjunct1] show "if blank_line l then h = l \<and> c = rest else \<exists>h'. h = l @ h' \<and> head_block h' \<and> c = h' @ rest"
  proof (cases rule: head_block.cases)
    case blank
    then show ?thesis using whole_line_determined [OF assms blank_whole, of h c rest] a by auto
  next
    case (line l' h')
    then show ?thesis using whole_line_determined [OF assms line(2), of c "h' @ rest"] a by auto
  qed
qed (use assms in \<open>auto split: if_splits intro: head_block.intros\<close>)

lemma head_loop_extends: "head_loop mx buf r = (e, out, r') \<Longrightarrow> \<exists>h. out = buf @ h"
proof (induction mx buf r rule: head_loop.induct)
  case (1 mx buf r)
  obtain line ok r1 where u: "read_until (mx - length buf + 1) r = (line, ok, r1)" by (metis surjective_pairing)
  show ?case
  proof (cases "ok \<and> line \<noteq> [] \<and> length buf + length line \<le> mx \<and> line \<noteq> CRLF \<and> line \<noteq> [LF]")
    case True
    then have "head_loop mx buf r = head_loop mx (buf @ line) r1"
      using u by (simp add: head_loop.simps [of mx buf r])
    then show ?thesis using 1(1) [OF u [symmetric] refl refl] 1(2) True by auto
  next
    case False
    then show ?thesis using 1(2) u
      by (simp add: head_loop.simps [of mx buf r] split: if_splits) auto
  qed
qed

text \<open>Without a line end there is no head: the rest of the stream is too long, or it is over.\<close>

lemma head_loop_cut:
  assumes "steady r" "LF \<notin> set (contents r)"
  shows "fst (head_loop mx buf r) \<noteq> Complete"
  using assms
proof (induction mx buf r rule: head_loop.induct)
  case (1 mx buf r)
  obtain line ok r1 where u: "read_until (mx - length buf + 1) r = (line, ok, r1)" by (metis surjective_pairing)
  have s: ok "steady r1" "contents r = line @ contents r1"
    using read_until_steady [OF 1(2) u] read_until_contents [OF u] by auto
  then have "line \<noteq> CRLF" "line \<noteq> [LF]" "LF \<notin> set (contents r1)" using 1(3) by (auto simp: CRLF_def)
  then show ?case using 1(1) [OF u [symmetric] refl refl] s(1,2) u
    by (auto simp: head_loop.simps [of mx buf r])
qed

lemma head_loop_no_line:
  assumes "steady r" "read_until (mx - length buf + 1) r = (line, ok, r1)"
    and "\<not> (whole_line line \<and> length buf + length line \<le> mx)" "length buf \<le> mx"
  shows "fst (head_loop mx buf r) \<noteq> Complete"
proof -
  let ?lim = "mx - length buf + 1"
  have s: ok "steady r1" "line = line_of ?lim (contents r)" "contents r = line @ contents r1"
    using read_until_steady [OF assms(1,2)] read_until_line [OF assms(1,2)] read_until_contents [OF assms(2)] by auto
  show ?thesis
  proof (cases "mx < length buf + length line \<or> line = []")
    case True
    then show ?thesis using assms(2) s(1) by (cases "line = []") (simp_all add: head_loop.simps [of mx buf r])
  next
    case False
    then have "\<not> whole_line line" using assms(3) by simp
    have lf: "LF \<notin> set (take ?lim (contents r))"
    proof
      assume "LF \<in> set (take ?lim (contents r))"
      then have "line = takeWhile (\<lambda>c. c \<noteq> LF) (contents r) @ [LF]" using s(3) by (simp add: line_of_def)
      then show False using \<open>\<not> whole_line line\<close> by (auto simp: whole_line_def dest: set_takeWhileD)
    qed
    then have "line = take ?lim (contents r)" using s(3) by (simp only: line_of_def if_False)
    then have "length line = min (length (contents r)) ?lim" by (simp only: length_take)
    then have "length (contents r) \<le> ?lim" using False assms(4) by linarith
    then have "LF \<notin> set (contents r)" using lf by simp
    then show ?thesis by (rule head_loop_cut [OF assms(1)])
  qed
qed

lemma head_loop_iff:
  assumes "steady r" "length buf \<le> mx"
  shows "(\<exists>r'. head_loop mx buf r = (Complete, buf @ h, r') \<and> contents r' = rest) \<longleftrightarrow>
    head_block h \<and> contents r = h @ rest \<and> length buf + length h \<le> mx"
  using assms
proof (induction "length (contents r)" arbitrary: buf r h rule: less_induct)
  case less
  let ?lim = "mx - length buf + 1"
  obtain line ok r1 where u: "read_until ?lim r = (line, ok, r1)" by (metis surjective_pairing)
  have s: ok "steady r1" "line = line_of ?lim (contents r)" "contents r = line @ contents r1" "length line \<le> ?lim"
    using read_until_steady [OF less.prems(1) u] read_until_line [OF less.prems(1) u] read_until_contents [OF u] by auto
  show ?case
  proof (cases "whole_line line \<and> length buf + length line \<le> mx")
    case False
    have "fst (head_loop mx buf r) \<noteq> Complete"
      by (rule head_loop_no_line [OF less.prems(1) u False less.prems(2)])
    moreover have "\<not> (head_block h \<and> contents r = h @ rest \<and> length buf + length h \<le> mx)"
    proof
      assume a: "head_block h \<and> contents r = h @ rest \<and> length buf + length h \<le> mx"
      then obtain l t where l: "whole_line l" "h = l @ t" using head_block_first by blast
      moreover from l(2) a have "length l \<le> ?lim" by auto
      ultimately have "line = l" using whole_line_of [OF l(1), of ?lim "t @ rest"] s(3) a by simp
      then show False using False l a by simp
    qed
    ultimately show ?thesis by (metis fst_conv)
  next
    case True
    then have nonempty: "line \<noteq> []" by (auto simp: whole_line_def)
    have e: "head_loop mx buf r = (if blank_line line then (Complete, buf @ line, r1) else head_loop mx (buf @ line) r1)"
      using u s(1) nonempty True by (simp add: head_loop.simps [of mx buf r] blank_line_def)
    have "length (contents r1) < length (contents r)" using s(4) nonempty by simp
    note ih = less.hyps [OF this s(2), of "buf @ line"]
    note block = head_block_line [OF True [THEN conjunct1], of h "contents r1" rest]
    show ?thesis
    proof (cases "blank_line line")
      case True
      then show ?thesis unfolding e s(4) using block \<open>whole_line line \<and> _\<close> by auto
    next
      case False
      have "(\<exists>r'. head_loop mx (buf @ line) r1 = (Complete, buf @ h, r') \<and> contents r' = rest) \<longleftrightarrow>
          (\<exists>h' r'. h = line @ h' \<and> head_loop mx (buf @ line) r1 = (Complete, (buf @ line) @ h', r') \<and> contents r' = rest)"
        using head_loop_extends [of mx "buf @ line" r1 Complete] by (metis append.assoc same_append_eq)
      then show ?thesis unfolding e s(4) using block False ih True by auto
    qed
  qed
qed

lemma read_head_complete:
  "read_head_buffered r mx = (Inr head, r') \<longleftrightarrow> head_loop mx [] r = (Complete, head, r')"
  "read_response_head r mx = ((head, True), r') \<longleftrightarrow> head_loop mx [] r = (Complete, head, r')"
  by (auto simp: read_head_buffered_def read_response_head_def split: prod.splits head_end.splits)

lemma head_loop_read:
  assumes "steady r"
  shows "(\<exists>r'. head_loop mx [] r = (Complete, head, r') \<and> contents r' = rest) \<longleftrightarrow>
      head_block head \<and> contents r = head @ rest \<and> length head \<le> mx"
  using head_loop_iff [OF assms, of "[]" mx head rest] by simp

text \<open>A head is read exactly when the stream starts with lines up to a first blank one that fit the
  limit; what is read is that head, and what follows it is left in the reader. The request side and
  the response side read heads alike.\<close>

theorem read_head_iff:
  assumes "steady r"
  shows "((\<exists>r'. read_head_buffered r mx = (Inr head, r') \<and> contents r' = rest) \<longleftrightarrow>
      head_block head \<and> contents r = head @ rest \<and> length head \<le> mx) \<and>
    ((\<exists>r'. read_response_head r mx = ((head, True), r') \<and> contents r' = rest) \<longleftrightarrow>
      head_block head \<and> contents r = head @ rest \<and> length head \<le> mx)"
  unfolding read_head_complete using head_loop_read [OF assms] by simp

theorem read_head_iff_witness:
  "head_block (''GET / HTTP/1.1'' @ CRLF @ CRLF) \<and>
   contents [Bytes ''GET / HT'', Interruption, Bytes (''TP/1.1'' @ CRLF), Bytes (CRLF @ ''body'')] =
     (''GET / HTTP/1.1'' @ CRLF @ CRLF) @ ''body''"
proof -
  let ?r = "[Bytes ''GET / HT'', Interruption, Bytes (''TP/1.1'' @ CRLF), Bytes (CRLF @ ''body'')]"
  have "read_head_buffered ?r 100 = (Inr (''GET / HTTP/1.1'' @ CRLF @ CRLF), [Bytes ''body''])" by code_simp
  moreover have "steady ?r" by code_simp
  ultimately show ?thesis
    using read_head_iff [of ?r 100 "''GET / HTTP/1.1'' @ CRLF @ CRLF" "''body''"] by auto
qed

section \<open>Copying a body of known length\<close>

text \<open>Whatever happens, what reaches the sink is a prefix of the stream; the copy succeeds only with
  exactly \<open>n\<close> bytes, and it does succeed on an uninterrupted stream that holds them.\<close>

lemma write_all_written: "write_all s w = (ok, w') \<Longrightarrow> \<exists>e t. s = e @ t \<and> written w' = written w @ e \<and> (ok \<longrightarrow> t = [])"
  by (rule exI [of _ "take (room w) s"], rule exI [of _ "drop (room w) s"]) (auto simp: write_all_def)

lemma copy_exact_prefix:
  "copy_exact r w n = (res, r', w') \<Longrightarrow>
    \<exists>e t. contents r = e @ t \<and> written w' = written w @ e \<and> length e \<le> n \<and>
      (res = Inr () \<longrightarrow> length e = n \<and> t = contents r')"
proof (induction r w n rule: copy_exact.induct)
  case (1 r w n)
  show ?case
  proof (cases "n = 0")
    case False
    obtain x r1 where x: "rd_read (min n RELAY_CHUNK) r = (x, r1)" by force
    show ?thesis
    proof (cases x)
      case (Inr got)
      then have g: "contents r = got @ contents r1" "length got \<le> n" using rd_read_bytes x by force+
      obtain ok w1 where ww: "write_all got w = (ok, w1)" by force
      obtain e t where e: "got = e @ t" "written w1 = written w @ e" "ok \<longrightarrow> t = []"
        using write_all_written [OF ww] by blast
      show ?thesis
      proof (cases "got \<noteq> [] \<and> ok")
        case True
        then have rec: "copy_exact r1 w1 (n - length got) = (res, r', w')"
          using 1(2) False x Inr ww by (simp add: copy_exact.simps [of r w n])
        obtain e' t' where e': "contents r1 = e' @ t'" "written w' = written w1 @ e'" "length e' \<le> n - length got"
          "res = Inr () \<longrightarrow> length e' = n - length got \<and> t' = contents r'"
          using 1(1) [OF False x [symmetric] Inr _ ww [symmetric] _ rec] True by blast
        then show ?thesis using g e True by (intro exI [of _ "got @ e'"] exI [of _ t']) auto
      next
        case False
        then show ?thesis using 1(2) \<open>n \<noteq> 0\<close> x Inr ww g e
          by (auto simp: copy_exact.simps [of r w n] intro: exI [of _ e] split: if_splits)
      qed
    qed (use 1(2) x False in \<open>auto simp: copy_exact.simps [of r w n]\<close>)
  qed (use 1(2) in \<open>simp add: copy_exact.simps\<close>)
qed

lemma copy_exact_succeeds:
  assumes "steady r" "Interruption \<notin> set r" "n \<le> length (contents r)" "n \<le> room w"
  shows "fst (copy_exact r w n) = Inr ()"
  using assms
proof (induction r w n rule: copy_exact.induct)
  case (1 r w n)
  show ?case
  proof (cases "n = 0")
    case False
    then obtain s r0 where r: "r = Bytes s # r0" using 1(2-4) by (cases r; cases "hd r") auto
    let ?k = "min n RELAY_CHUNK"
    let ?r1 = "unread (drop ?k s) r0"
    let ?w1 = "w\<lparr>written := written w @ take ?k s, room := room w - length (take ?k s)\<rparr>"
    have k: "0 < ?k" using False by (simp add: RELAY_CHUNK_def)
    have x: "rd_read ?k r = (Inr (take ?k s), ?r1)" using r by simp
    have s: "s \<noteq> []" using 1(2) r by simp
    have len: "length (take ?k s) \<le> n" by simp
    have ww: "write_all (take ?k s) w = (True, ?w1)" using 1(5) len by (simp add: write_all_def)
    have st: "steady ?r1" "Interruption \<notin> set ?r1" using 1(2,3) r by (auto simp: unread_def)
    have c: "length (contents r) = length (take ?k s) + length (contents ?r1)" using r by simp
    have "n - length (take ?k s) \<le> length (contents ?r1)" "n - length (take ?k s) \<le> room ?w1"
      using c 1(4) by linarith (use 1(5) in \<open>simp add: diff_le_mono\<close>)
    then have "fst (copy_exact ?r1 ?w1 (n - length (take ?k s))) = Inr ()"
      using s k by (intro 1(1) [OF False x [symmetric] refl _ ww [symmetric] refl st]) auto
    then show ?thesis using False x ww s k by (simp add: copy_exact.simps [of r w n])
  qed (simp add: copy_exact.simps)
qed

section \<open>One request reaches the upstream\<close>

lemma whole_line_crlf: "LF \<notin> set s \<Longrightarrow> whole_line (s @ CRLF) \<and> (blank_line (s @ CRLF) \<longleftrightarrow> s = [])"
  by (auto simp: whole_line_def blank_line_def CRLF_def CR_def LF_def)

lemma head_block_headers: "list_all header_ok kvs \<Longrightarrow> head_block (concat (map header_line kvs) @ CRLF)"
proof (induction kvs)
  case Nil
  then show ?case by (simp add: head_block.blank blank_line_def)
next
  case (Cons kv kvs)
  have "LF \<notin> set (bare_line kv)" "bare_line kv \<noteq> []"
    using Cons.prems by (auto simp: bare_line_def header_ok_def name_ok_def value_ok_def LF_def)
  then show ?case using Cons whole_line_crlf [of "bare_line kv"] head_block.line [of "header_line kv"]
    by (simp add: header_line_bare [of kv])
qed

lemma reserialized_block:
  assumes "parse_head bytes = Inr h" "inspect_framing h forwards_chunked = Inr f" "list_all header_ok ins"
  shows "head_block (reserialize_request h ins fcl ka fid)"
proof -
  have wf: "head_wf h" by (rule parse_head_wf [OF assms(1)])
  have nc: "\<not> head_carries_control_byte h" using assms(2) by (auto simp: inspect_framing_def split: if_splits)
  have "LF \<notin> set (request_line h)" "request_line h \<noteq> []" using wf by (simp_all add: head_wf_def)
  then show ?thesis
    using whole_line_crlf [of "request_line h"] head_block_headers [OF sent_headers_ok [OF wf nc assms(3)], of fcl ka fid]
      head_block.line [of "request_line h @ CRLF"] by (simp add: reserialize_sent)
qed

lemma inspect_framing_anywhere: "inspect_framing h False = Inr f \<Longrightarrow> inspect_framing h c = Inr f"
  by (auto simp: inspect_framing_Inr)

section \<open>The size line\<close>

lemma strip_last_snoc [simp]: "strip_last c (s @ [c]) = s" "d \<noteq> c \<Longrightarrow> strip_last c (s @ [d]) = s @ [d]"
  by (simp_all add: strip_last_def)

lemma strip_eol_crlf: "strip_eol (s @ CRLF) = s"
  using strip_last_snoc(1) [of LF "s @ [CR]"] by (simp add: strip_eol_def CRLF_def)

lemma strip_eol_lf: "strip_eol (s @ [LF]) = strip_last CR s"
  by (simp add: strip_eol_def)

lemma hexdigit_plain: "is_ascii_hexdigit c \<Longrightarrow> c \<noteq> CHR '';'' \<and> c \<noteq> CR"
  by (auto simp: ascii_classes CR_def)

lemma size_field_before:
  assumes "ds \<noteq> []" "list_all is_ascii_hexdigit ds" "ext = [] \<or> hd ext = CHR '';''"
  shows "before CHR '';'' (ds @ ext) = ds" "before CHR '';'' (strip_last CR (ds @ ext)) = ds"
proof -
  have ds: "CHR '';'' \<notin> set ds" "last ds \<noteq> CR"
    using assms(1,2) hexdigit_plain last_in_set [OF assms(1)] by (auto simp: list_all_iff)
  show *: "before CHR '';'' (ds @ ext) = ds"
    using ds assms(3) by (cases ext) simp_all
  show "before CHR '';'' (strip_last CR (ds @ ext)) = ds"
  proof (cases "ext = []")
    case True
    then show ?thesis using ds assms(1) by (simp add: strip_last_def)
  next
    case False
    then obtain e where e: "ext = CHR '';'' # e" using assms(3) by (cases ext) auto
    have "strip_last CR (ds @ ext) = ds @ CHR '';'' # (if e \<noteq> [] \<and> last e = CR then butlast e else e)"
      by (auto simp: e strip_last_def CR_def butlast_append)
    then show ?thesis using ds by simp
  qed
qed

text \<open>A chunk size is read off a line exactly when the line is one or more hex digits that fit 64
  bits, then nothing or a semicolon and anything, then LF or CRLF; the size is the number written.\<close>

theorem parse_chunk_size_iff:
  "parse_chunk_size l = Inr n \<longleftrightarrow>
     (\<exists>ds ext eol. l = ds @ ext @ eol \<and> eol \<in> {CRLF, [LF]} \<and> (ext = [] \<or> hd ext = CHR '';'') \<and>
        ds \<noteq> [] \<and> list_all is_ascii_hexdigit ds \<and> parse_digits 16 ds = Some (unat n))"
proof
  assume p: "parse_chunk_size l = Inr n"
  then have "ends_with [LF] l" by (auto simp: parse_chunk_size_def split: if_splits)
  then obtain t where t: "l = t @ [LF]" by (auto simp: str_simps suffix_def)
  let ?s = "strip_eol l"
  let ?ds = "before CHR '';'' ?s"
  have ds: "?ds \<noteq> []" "list_all is_ascii_hexdigit ?ds" "parse_digits 16 ?ds = Some (unat n)"
    using p by (auto simp: parse_chunk_size_def Let_def unat_of_nat split: if_splits option.splits)
  obtain ext where ext: "?s = ?ds @ ext" "ext = [] \<or> hd ext = CHR '';''"
    by (rule that [of "dropWhile (\<lambda>c. c \<noteq> CHR '';'') ?s"])
      (use hd_dropWhile [of "\<lambda>c. c \<noteq> CHR '';''" ?s] in \<open>auto simp: before_def\<close>)
  have "\<exists>eol \<in> {CRLF, [LF]}. l = ?s @ eol"
    unfolding t strip_eol_lf by (cases t rule: rev_cases) (auto simp: strip_last_def CRLF_def)
  then obtain eol where eol: "eol \<in> {CRLF, [LF]}" "l = ?ds @ ext @ eol" using ext(1) by (metis append.assoc)
  show "\<exists>ds ext eol. l = ds @ ext @ eol \<and> eol \<in> {CRLF, [LF]} \<and> (ext = [] \<or> hd ext = CHR '';'') \<and>
        ds \<noteq> [] \<and> list_all is_ascii_hexdigit ds \<and> parse_digits 16 ds = Some (unat n)"
    by (intro exI conjI) (rule eol(2) eol(1) ext(2) ds)+
next
  assume "\<exists>ds ext eol. l = ds @ ext @ eol \<and> eol \<in> {CRLF, [LF]} \<and> (ext = [] \<or> hd ext = CHR '';'') \<and>
        ds \<noteq> [] \<and> list_all is_ascii_hexdigit ds \<and> parse_digits 16 ds = Some (unat n)"
  then obtain ds ext eol where l: "l = (ds @ ext) @ eol" "eol = CRLF \<or> eol = [LF]" "ext = [] \<or> hd ext = CHR '';''"
    "ds \<noteq> []" "list_all is_ascii_hexdigit ds" "parse_digits 16 ds = Some (unat n)" by auto
  have "before CHR '';'' (strip_eol l) = ds" "ends_with [LF] l"
    using l(1,2) size_field_before [OF l(4,5,3)] strip_eol_crlf [of "ds @ ext"] strip_eol_lf [of "ds @ ext"]
    by (auto simp: str_simps suffix_def CRLF_def)
  moreover have "unat n < 2 ^ 64" using unsigned_less [of n, where ?'a = nat] by simp
  ultimately show "parse_chunk_size l = Inr n" using l by (simp add: parse_chunk_size_def)
qed

end
