(* ===== verification/Secret_Needle.thy ===== *)
theory Secret_Needle
  imports Http_Body
begin

text \<open>
  Secret values on the wire and in text, src/src/sandbox/proxy/inject.rs (\<open>SecretNeedle\<close>),
  src/src/sandbox/proxy/mod.rs (the masking and the relay that masks) and src/src/sandbox/redact.rs
  (the named substitution). The substring searcher is the crate \<open>memchr\<close>: it is the parameter
  \<open>finder\<close> of the definitions, and the locale \<open>substring_finder\<close> states what its documentation says,
  that it returns the offset of the first occurrence.
\<close>

section \<open>Needles\<close>

record secret_needle =
  sn_name :: string
  sn_bytes :: string
  sn_fail :: "u32 list"
  sn_observed :: bool
  sn_dest :: "string list option"

text \<open>The inner loop of the Knuth-Morris-Pratt walk, one byte further. The table always holds a shorter
  length than the one it is asked for, which is what ends the loop (\<open>failure_table_longest\<close>).\<close>

function kmp_step :: "string \<Rightarrow> u32 list \<Rightarrow> char \<Rightarrow> nat \<Rightarrow> nat" where
  "kmp_step p fail b matched =
     (if 0 < matched then
        if p ! matched \<noteq> b then
          if unat (fail ! (matched - 1)) < matched then kmp_step p fail b (unat (fail ! (matched - 1)))
          else 0
        else matched + 1
      else if p ! matched = b then matched + 1 else matched)"
  by pat_completeness auto
termination
  by (relation "measure (\<lambda>(p, fail, b, matched). matched)") auto

declare kmp_step.simps [simp del]

definition failure_table :: "string \<Rightarrow> u32 list" where
  "failure_table p =
     fst (foldl (\<lambda>(fail, matched) i.
            let matched = kmp_step p fail (p ! i) matched in (fail[i := of_nat matched], matched))
          (replicate (length p) 0, 0) [1..<length p])"

definition needle_named :: "string \<Rightarrow> string \<Rightarrow> secret_needle" where
  "needle_named name bytes =
     \<lparr>sn_name = name, sn_bytes = bytes, sn_fail = failure_table bytes, sn_observed = False, sn_dest = None\<rparr>"

definition needle_learned :: "string \<Rightarrow> string \<Rightarrow> string list \<Rightarrow> secret_needle" where
  "needle_learned name bytes service =
     (needle_named name bytes)\<lparr>sn_observed := True, sn_dest := Some service\<rparr>"

definition prefix_suffix_len :: "secret_needle \<Rightarrow> string \<Rightarrow> nat" where
  "prefix_suffix_len n window =
     (let p = sn_bytes n in
      if length p < 2 then 0
      else let from = length window - (length p - 1) in
        foldl (\<lambda>matched b. kmp_step p (sn_fail n) b matched) 0 (drop from window))"

definition host_key :: "string \<Rightarrow> string" where
  "host_key host = canonical_host host"

definition scanned_for :: "secret_needle \<Rightarrow> string \<Rightarrow> bool" where
  "scanned_for n host =
     (case sn_dest n of
        None \<Rightarrow> True
      | Some service \<Rightarrow> \<not> list_ex (\<lambda>entry. shared_credential_covers entry (host_key host)) service)"

definition masks_record_for :: "secret_needle \<Rightarrow> string \<Rightarrow> bool" where
  "masks_record_for n host = (\<not> sn_observed n \<or> \<not> scanned_for n host)"

definition find_in :: "(string \<Rightarrow> string \<Rightarrow> nat option) \<Rightarrow> secret_needle \<Rightarrow> string \<Rightarrow> nat \<Rightarrow> nat option" where
  "find_in finder n haystack from =
     (if sn_bytes n = [] \<or> length haystack < from then None
      else map_option (\<lambda>at. from + at) (finder (sn_bytes n) (drop from haystack)))"

section \<open>Masking in place\<close>

definition STAR :: char where
  "STAR = CHR ''*''"

lemma find_in_from: "find_in finder n buf from = Some found \<Longrightarrow> from \<le> found \<and> from \<le> length buf \<and> sn_bytes n \<noteq> []"
  by (auto simp: find_in_def split: if_splits)

function mask_loop :: "(string \<Rightarrow> string \<Rightarrow> nat option) \<Rightarrow> secret_needle \<Rightarrow> string \<Rightarrow> nat \<Rightarrow> string" where
  "mask_loop finder n buf at =
     (case find_in finder n buf at of
        None \<Rightarrow> buf
      | Some found \<Rightarrow>
          let len = length (sn_bytes n) in
          mask_loop finder n (map (\<lambda>(i, c). if found \<le> i \<and> i < found + len then STAR else c) (enumerate 0 buf))
            (found + len))"
  by pat_completeness auto
termination
proof (relation "measure (\<lambda>(finder, n, buf, at). Suc (length buf) - at)")
  fix finder n buf at x2 x
  assume "find_in finder n buf at = Some x2" "x = length (sn_bytes n)"
  then show "((finder, n, map (\<lambda>(i, c). if x2 \<le> i \<and> i < x2 + x then STAR else c) (enumerate 0 buf), x2 + x),
      (finder, n, buf, at)) \<in> measure (\<lambda>(finder, n, buf, at). Suc (length buf) - at)"
    using find_in_from [of finder n buf at x2] by (auto simp: neq_Nil_conv)
qed simp

declare mask_loop.simps [simp del]

definition mask_each :: "(string \<Rightarrow> string \<Rightarrow> nat option) \<Rightarrow> string \<Rightarrow> secret_needle list \<Rightarrow> string" where
  "mask_each finder buf needles =
     foldl (\<lambda>buf n. let len = length (sn_bytes n) in
              if len = 0 \<or> length buf < len then buf else mask_loop finder n buf 0) buf needles"

definition redact_in_place :: "(string \<Rightarrow> string \<Rightarrow> nat option) \<Rightarrow> string \<Rightarrow> secret_needle list \<Rightarrow> string" where
  "redact_in_place finder buf needles = mask_each finder buf needles"

definition redact_record_in_place ::
  "(string \<Rightarrow> string \<Rightarrow> nat option) \<Rightarrow> string \<Rightarrow> secret_needle list \<Rightarrow> string \<Rightarrow> string" where
  "redact_record_in_place finder buf needles host =
     mask_each finder buf (filter (\<lambda>n. masks_record_for n host) needles)"

section \<open>The relay that masks\<close>

definition needle_prefix_suffix :: "string \<Rightarrow> secret_needle list \<Rightarrow> nat" where
  "needle_prefix_suffix window needles = fold max (map (\<lambda>n. prefix_suffix_len n window) needles) 0"

text \<open>The loops of \<open>pump_to_eof\<close> and \<open>pump_redacting\<close>, on what the reads of the source return one after
  the other; a source with nothing more to return is at its end.\<close>

fun pump_to_eof :: "(io_fault + string) list \<Rightarrow> sink \<Rightarrow> (wire_fault + unit) \<times> sink" where
  "pump_to_eof [] w = (Inr (), w)"
| "pump_to_eof (Inl e # rs) w =
     (case e of
        UnexpectedEof \<Rightarrow> (Inr (), w) | Interrupted \<Rightarrow> pump_to_eof rs w | Broken \<Rightarrow> (Inl (Io Broken), w))"
| "pump_to_eof (Inr d # rs) w =
     (if d = [] then (Inr (), w)
      else case write_all d w of
             (False, w') \<Rightarrow> (Inl WriteFailed, w') | (True, w') \<Rightarrow> pump_to_eof rs w')"

definition pump_end :: "string \<Rightarrow> sink \<Rightarrow> (wire_fault + unit) \<times> sink" where
  "pump_end window w = (case write_all window w of (ok, w') \<Rightarrow> (if ok then Inr () else Inl WriteFailed, w'))"

fun pump_loop ::
  "(string \<Rightarrow> string \<Rightarrow> nat option) \<Rightarrow> secret_needle list \<Rightarrow> string \<Rightarrow> (io_fault + string) list \<Rightarrow> sink \<Rightarrow>
    (wire_fault + unit) \<times> sink" where
  "pump_loop finder needles window [] w = pump_end window w"
| "pump_loop finder needles window (Inl e # rs) w =
     (case e of
        UnexpectedEof \<Rightarrow> pump_end window w
      | Interrupted \<Rightarrow> pump_loop finder needles window rs w
      | Broken \<Rightarrow> (Inl (Io Broken), w))"
| "pump_loop finder needles window (Inr d # rs) w =
     (if d = [] then pump_end window w
      else let window = redact_in_place finder (window @ d) needles;
               split = length window - needle_prefix_suffix window needles in
        case write_all (take split window) w of
          (False, w') \<Rightarrow> (Inl WriteFailed, w')
        | (True, w') \<Rightarrow> pump_loop finder needles (drop split window) rs w')"

definition pump_redacting ::
  "(string \<Rightarrow> string \<Rightarrow> nat option) \<Rightarrow> (io_fault + string) list \<Rightarrow> sink \<Rightarrow> secret_needle list \<Rightarrow>
    (wire_fault + unit) \<times> sink" where
  "pump_redacting finder rs w needles = pump_loop finder needles [] rs w"

section \<open>The named substitution\<close>

definition MIN_LEN_DEFAULT :: nat where
  "MIN_LEN_DEFAULT = 8"

datatype placeholder = Plain | Nonced string

fun Placeholder_render :: "placeholder \<Rightarrow> string \<Rightarrow> string" where
  "Placeholder_render Plain name = ''${'' @ name @ ''}''"
| "Placeholder_render (Nonced nonce) name = ''${'' @ name @ ''@'' @ nonce @ ''}''"

function named_loop ::
  "(string \<Rightarrow> string \<Rightarrow> nat option) \<Rightarrow> secret_needle \<Rightarrow> string \<Rightarrow> string \<Rightarrow> nat \<Rightarrow> string \<Rightarrow> nat \<Rightarrow> string \<times> nat" where
  "named_loop finder n repl out i next_out count =
     (case find_in finder n out i of
        None \<Rightarrow> (next_out @ drop i out, count)
      | Some at \<Rightarrow>
          named_loop finder n repl out (at + length (sn_bytes n))
            (next_out @ take (at - i) (drop i out) @ repl) (count + 1))"
  by pat_completeness auto
termination
proof (relation "measure (\<lambda>(finder, n, repl, out, i, next_out, count). Suc (length out) - i)")
  fix finder n repl out i next_out count x2
  assume "find_in finder n out i = Some x2"
  then show "((finder, n, repl, out, x2 + length (sn_bytes n), next_out @ take (x2 - i) (drop i out) @ repl, count + 1),
      (finder, n, repl, out, i, next_out, count)) \<in>
      measure (\<lambda>(finder, n, repl, out, i, next_out, count). Suc (length out) - i)"
    using find_in_from [of finder n out i x2] by (auto simp: neq_Nil_conv)
qed simp

declare named_loop.simps [simp del]

definition redact_one ::
  "(string \<Rightarrow> string \<Rightarrow> nat option) \<Rightarrow> placeholder \<Rightarrow> string \<times> nat \<Rightarrow> secret_needle \<Rightarrow> string \<times> nat" where
  "redact_one finder ph oc n =
     (let (out, count) = oc in
      if find_in finder n out 0 = None then (out, count)
      else named_loop finder n (Placeholder_render ph (sn_name n)) out 0 [] count)"

definition redact_named ::
  "(string \<Rightarrow> string \<Rightarrow> nat option) \<Rightarrow> string \<Rightarrow> secret_needle list \<Rightarrow> placeholder \<Rightarrow> string \<times> nat" where
  "redact_named finder buf needles ph =
     foldl (redact_one finder ph) (buf, 0)
       (rev (sort_key (\<lambda>n. length (sn_bytes n)) (rev needles)))"

definition redact_string ::
  "(string \<Rightarrow> string \<Rightarrow> nat option) \<Rightarrow> string \<Rightarrow> secret_needle list \<Rightarrow> placeholder \<Rightarrow> string \<times> nat" where
  "redact_string finder text needles ph =
     (let (bytes, count) = redact_named finder text needles ph in (utf8_lossy bytes, count))"

section \<open>The walk finds the longest overlap\<close>

text \<open>\<open>m\<close> is the longest prefix of \<open>p\<close> that \<open>t\<close> ends in.\<close>

definition longest_overlap :: "string \<Rightarrow> string \<Rightarrow> nat \<Rightarrow> bool" where
  "longest_overlap p t m \<longleftrightarrow>
     m \<le> length p \<and> suffix (take m p) t \<and> (\<forall>k. k \<le> length p \<longrightarrow> suffix (take k p) t \<longrightarrow> k \<le> m)"

text \<open>A table is right up to \<open>j\<close> when its entries are the longest overlaps of the prefixes of \<open>p\<close> with
  themselves.\<close>

definition table_ok :: "string \<Rightarrow> u32 list \<Rightarrow> nat \<Rightarrow> bool" where
  "table_ok p fail j \<longleftrightarrow>
     (\<forall>i. 0 < i \<longrightarrow> i \<le> j \<longrightarrow> longest_overlap p (tl (take i p)) (unat (fail ! (i - 1))))"

lemma longest_overlap_length: "longest_overlap p t m \<Longrightarrow> m \<le> length t"
  using suffix_length_le [of "take m p" t] by (auto simp: longest_overlap_def)

lemma longest_overlap_Nil: "longest_overlap p [] 0"
  by (auto simp: longest_overlap_def)

lemma suffix_snoc_take:
  assumes "0 < k" "k \<le> length p" "suffix (take k p) (t @ [c])"
  shows "p ! (k - 1) = c \<and> suffix (take (k - 1) p) t"
proof -
  have "take k p = take (k - 1) p @ [p ! (k - 1)]"
    using assms(1,2) take_Suc_conv_app_nth [of "k - 1" p] by simp
  then show ?thesis using assms(3) by (simp add: suffix_snoc)
qed

lemma suffix_of_suffix_shorter:
  "suffix (take k p) t \<Longrightarrow> suffix (take m p) t \<Longrightarrow> k < m \<Longrightarrow> m \<le> length p \<Longrightarrow> suffix (take k p) (tl (take m p))"
proof -
  assume a: "suffix (take k p) t" "suffix (take m p) t" "k < m" "m \<le> length p"
  then have "suffix (take k p) (take m p)" by (intro suffix_length_suffix [OF a(1,2)]) simp
  then obtain u where "take m p = u @ take k p" by (auto simp: suffix_def)
  moreover from this a(3,4) have "u \<noteq> []" by (cases u) (auto dest: arg_cong [where f = length])
  ultimately show ?thesis by (cases u) (auto simp: suffix_def)
qed

lemma kmp_step_longest_aux:
  assumes "suffix (take m p) t" "m < length p" "table_ok p fail m"
    and "\<And>k. 0 < k \<Longrightarrow> k \<le> length p \<Longrightarrow> suffix (take k p) (t @ [c]) \<Longrightarrow> k - 1 \<le> m"
  shows "longest_overlap p (t @ [c]) (kmp_step p fail c m)"
  using assms
proof (induction m rule: less_induct)
  case (less m)
  have hit: "longest_overlap p (t @ [c]) (Suc m)" if "p ! m = c"
  proof -
    have "take (Suc m) p = take m p @ [c]" using that less.prems(2) by (simp add: take_Suc_conv_app_nth)
    then have "suffix (take (Suc m) p) (t @ [c])" using less.prems(1) by simp
    moreover have "k \<le> Suc m" if "k \<le> length p" "suffix (take k p) (t @ [c])" for k
      using less.prems(4) [OF _ that] by (cases k) simp_all
    ultimately show ?thesis using less.prems(2) by (simp add: longest_overlap_def)
  qed
  show ?case
  proof (cases "p ! m = c")
    case True
    then have "kmp_step p fail c m = Suc m" by (cases "m = 0"; subst kmp_step.simps) auto
    then show ?thesis using hit True by simp
  next
    case miss: False
    have below: "k - 1 < m" if "0 < k" "k \<le> length p" "suffix (take k p) (t @ [c])" for k
      using less.prems(4) [OF that] suffix_snoc_take [OF that] miss by (cases "k - 1 = m") auto
    show ?thesis
    proof (cases "m = 0")
      case True
      then have "kmp_step p fail c m = 0" using miss by (subst kmp_step.simps) auto
      moreover have "k \<le> 0" if "k \<le> length p" "suffix (take k p) (t @ [c])" for k
        using below [OF _ that] True by (cases k) simp_all
      ultimately show ?thesis by (simp add: longest_overlap_def)
    next
      case False
      let ?f = "unat (fail ! (m - 1))"
      have f: "longest_overlap p (tl (take m p)) ?f" using less.prems(3) False by (simp add: table_ok_def)
      have lt: "?f < m" using longest_overlap_length [OF f] less.prems(2) False by simp
      have "suffix (tl (take m p)) (take m p)" by (cases "take m p") (auto simp: suffix_Cons)
      moreover have "suffix (take ?f p) (tl (take m p))" using f by (simp add: longest_overlap_def)
      ultimately have sf: "suffix (take ?f p) t" using less.prems(1) suffix_order.trans by blast
      have "k - 1 \<le> ?f" if "0 < k" "k \<le> length p" "suffix (take k p) (t @ [c])" for k
      proof -
        have "suffix (take (k - 1) p) (tl (take m p))"
          using suffix_of_suffix_shorter [of "k - 1" p t m] suffix_snoc_take [OF that] below [OF that] less.prems(1,2) by simp
        then show ?thesis using f that(2) by (simp add: longest_overlap_def)
      qed
      moreover have "table_ok p fail ?f" using less.prems(3) lt by (auto simp: table_ok_def)
      ultimately have "longest_overlap p (t @ [c]) (kmp_step p fail c ?f)"
        using less.IH [OF lt sf] lt less.prems(2) by simp
      moreover have "kmp_step p fail c m = kmp_step p fail c ?f" using False miss lt by (subst kmp_step.simps) auto
      ultimately show ?thesis by simp
    qed
  qed
qed

lemma kmp_step_longest:
  assumes "longest_overlap p t m" "m < length p" "table_ok p fail m"
  shows "longest_overlap p (t @ [c]) (kmp_step p fail c m)"
proof (rule kmp_step_longest_aux [OF _ assms(2,3)])
  show "suffix (take m p) t" using assms(1) by (simp add: longest_overlap_def)
  show "k - 1 \<le> m" if "0 < k" "k \<le> length p" "suffix (take k p) (t @ [c])" for k
    using suffix_snoc_take [OF that] assms(1) that(2) by (simp add: longest_overlap_def)
qed

lemma kmp_walk_longest:
  assumes "table_ok p fail (length p - 1)" "length t < length p"
  shows "longest_overlap p t (foldl (\<lambda>m b. kmp_step p fail b m) 0 t)"
  using assms(2)
proof (induction t rule: rev_induct)
  case (snoc c t)
  let ?m = "foldl (\<lambda>m b. kmp_step p fail b m) 0 t"
  have m: "longest_overlap p t ?m" using snoc by simp
  then have lt: "?m < length p" using longest_overlap_length [OF m] snoc.prems by simp
  moreover have "table_ok p fail ?m" using assms(1) lt by (auto simp: table_ok_def)
  ultimately show ?case using kmp_step_longest [OF m] by simp
qed (simp add: longest_overlap_Nil)

lemma failure_table_loop:
  assumes "length p \<le> 2 ^ 32" "j < length p"
  shows "case foldl (\<lambda>(fail, matched) i.
            let matched = kmp_step p fail (p ! i) matched in (fail[i := of_nat matched], matched))
          (replicate (length p) 0, 0) [1..<Suc j] of (fail, matched) \<Rightarrow>
      length fail = length p \<and> table_ok p fail (Suc j) \<and> longest_overlap p (tl (take (Suc j) p)) matched"
  using assms(2)
proof (induction j)
  case 0
  then have "take (Suc 0) p = [hd p]" by (cases p) auto
  then show ?case using 0 by (auto simp: table_ok_def longest_overlap_Nil le_Suc_eq)
next
  case (Suc j)
  let ?step = "\<lambda>(fail, matched) i.
      let matched = kmp_step p fail (p ! i) matched in (fail[i := of_nat matched :: u32], matched)"
  obtain fail m where fm: "foldl ?step (replicate (length p) 0, 0) [1..<Suc j] = (fail, m)" by fastforce
  have ih: "length fail = length p" "table_ok p fail (Suc j)" "longest_overlap p (tl (take (Suc j) p)) m"
    using Suc fm by auto
  let ?m = "kmp_step p fail (p ! Suc j) m"
  have t: "tl (take (Suc (Suc j)) p) = tl (take (Suc j) p) @ [p ! Suc j]"
    using Suc.prems by (simp add: take_Suc_conv_app_nth tl_append split: list.split)
  have m: "m \<le> j" using longest_overlap_length [OF ih(3)] Suc.prems by simp
  have new: "longest_overlap p (tl (take (Suc (Suc j)) p)) ?m"
    unfolding t using ih m Suc.prems by (intro kmp_step_longest) (auto simp: table_ok_def)
  have "?m \<le> Suc j" using longest_overlap_length [OF new] Suc.prems by simp
  then have u: "unat (of_nat ?m :: u32) = ?m" using assms(1) Suc.prems by (simp add: unat_of_nat)
  have "table_ok p (fail[Suc j := of_nat ?m]) (Suc (Suc j))"
    unfolding table_ok_def
  proof (intro allI impI)
    fix i assume i: "0 < i" "i \<le> Suc (Suc j)"
    show "longest_overlap p (tl (take i p)) (unat (fail[Suc j := of_nat ?m] ! (i - 1)))"
      using i ih(1,2) new u Suc.prems by (cases "i = Suc (Suc j)") (auto simp: table_ok_def nth_list_update)
  qed
  then show ?case using fm ih(1) new by (simp add: Let_def)
qed

lemma failure_table_longest:
  "length p \<le> 2 ^ 32 \<Longrightarrow> table_ok p (failure_table p) (length p)"
  using failure_table_loop [of p "length p - 1"]
  by (cases p) (auto simp: failure_table_def table_ok_def split: prod.splits)

text \<open>The reference: every length is tried.\<close>

definition held_back :: "string \<Rightarrow> string \<Rightarrow> nat" where
  "held_back p window = last (filter (\<lambda>k. ends_with (take k p) window) [0..<max 1 (length p)])"

lemma held_back_eq:
  assumes "m < max 1 (length p)" "suffix (take m p) w" "\<And>k. k < length p \<Longrightarrow> suffix (take k p) w \<Longrightarrow> k \<le> m"
  shows "held_back p w = m"
proof -
  let ?n = "max 1 (length p)"
  have "[0..<?n] = [0..<m] @ m # [Suc m..<?n]" using assms(1) upt_add_eq_append [of 0 m "?n - m"] by (simp add: upt_conv_Cons)
  moreover have "filter (\<lambda>k. ends_with (take k p) w) [Suc m..<?n] = []"
    unfolding filter_empty_conv str_simps using assms(3) by (fastforce simp: less_max_iff_disj)
  ultimately show ?thesis using assms(2) by (simp add: held_back_def str_simps)
qed

definition needle_built :: "secret_needle \<Rightarrow> bool" where
  "needle_built n = (sn_fail n = failure_table (sn_bytes n) \<and> length (sn_bytes n) \<le> 2 ^ 32)"

lemma built_constructors:
  "length bytes \<le> 2 ^ 32 \<Longrightarrow> needle_built (needle_named name bytes)"
  "length bytes \<le> 2 ^ 32 \<Longrightarrow> needle_built (needle_learned name bytes service)"
  by (simp_all add: needle_built_def needle_named_def needle_learned_def)

lemma prefix_suffix_len_spec:
  assumes "needle_built n"
  shows "prefix_suffix_len n w < max 1 (length (sn_bytes n)) \<and> suffix (take (prefix_suffix_len n w) (sn_bytes n)) w \<and>
    (\<forall>k < length (sn_bytes n). suffix (take k (sn_bytes n)) w \<longrightarrow> k \<le> prefix_suffix_len n w)"
proof (cases "length (sn_bytes n) < 2")
  case True
  then show ?thesis by (auto simp: prefix_suffix_len_def)
next
  case False
  let ?p = "sn_bytes n"
  let ?t = "drop (length w - (length ?p - 1)) w"
  let ?m = "prefix_suffix_len n w"
  have "table_ok ?p (sn_fail n) (length ?p - 1)"
    using failure_table_longest [of ?p] assms by (auto simp: needle_built_def table_ok_def)
  then have m: "longest_overlap ?p ?t ?m"
    using kmp_walk_longest [of ?p "sn_fail n" ?t] False by (simp add: prefix_suffix_len_def Let_def)
  have "?m < length ?p" using longest_overlap_length [OF m] False by simp
  moreover have "suffix (take ?m ?p) w"
    using m suffix_drop suffix_order.trans unfolding longest_overlap_def by metis
  moreover have "k \<le> ?m" if k: "k < length ?p" "suffix (take k ?p) w" for k
  proof -
    have "k \<le> length ?t" using k suffix_length_le [OF k(2)] by auto
    then have "suffix (take k ?p) ?t"
      using suffix_length_suffix [OF k(2) suffix_drop] k(1) by simp
    then show ?thesis using m k(1) by (simp add: longest_overlap_def)
  qed
  ultimately show ?thesis by simp
qed

text \<open>What the relay holds back for a needle is exactly the longest tail of the window that spells the
  beginning of it: the failure-table walk over the last bytes of the window answers what trying every
  length would, for every needle the constructors build.\<close>

theorem prefix_suffix_len_longest:
  assumes "length bytes \<le> 2 ^ 32"
  shows "prefix_suffix_len (needle_named name bytes) window = held_back bytes window \<and>
    prefix_suffix_len (needle_learned name bytes service) window = held_back bytes window"
proof -
  have "prefix_suffix_len n window = held_back (sn_bytes n) window" if "needle_built n" for n
    using prefix_suffix_len_spec [OF that, of window] by (intro held_back_eq [symmetric]) auto
  from this [OF built_constructors(1) [OF assms]] this [OF built_constructors(2) [OF assms]]
  show ?thesis by (simp add: needle_named_def needle_learned_def)
qed

theorem prefix_suffix_len_longest_witness:
  "prefix_suffix_len (needle_named ''k'' ''abcabd'') ''xxabcab'' = 5"
proof -
  have "held_back ''abcabd'' ''xxabcab'' = 5" by code_simp
  then show ?thesis using prefix_suffix_len_longest [of "''abcabd''" "''k''" "''xxabcab''"] by simp
qed

section \<open>The searcher\<close>

definition found_at :: "string \<Rightarrow> string \<Rightarrow> nat \<Rightarrow> bool" where
  "found_at p s i \<longleftrightarrow> i + length p \<le> length s \<and> take (length p) (drop i s) = p"

lemma sublist_found_at: "sublist p s \<longleftrightarrow> (\<exists>i. found_at p s i)"
proof
  assume "sublist p s"
  then obtain a b where "s = a @ p @ b" by (auto simp: sublist_def)
  then show "\<exists>i. found_at p s i" by (intro exI [of _ "length a"]) (simp add: found_at_def)
next
  assume "\<exists>i. found_at p s i"
  then obtain i where i: "i + length p \<le> length s" "take (length p) (drop i s) = p" by (auto simp: found_at_def)
  then have "s = take i s @ p @ drop (length p) (drop i s)"
    by (metis append_take_drop_id)
  then show "sublist p s" unfolding sublist_def by blast
qed

lemma found_at_drop: "from \<le> length s \<Longrightarrow> found_at p (drop from s) i \<longleftrightarrow> found_at p s (from + i)"
  by (auto simp: found_at_def add.commute)

locale substring_finder =
  fixes finder :: "string \<Rightarrow> string \<Rightarrow> nat option"
  assumes finder_Some: "p \<noteq> [] \<Longrightarrow> finder p s = Some i \<Longrightarrow> found_at p s i \<and> (\<forall>j < i. \<not> found_at p s j)"
    and finder_None: "p \<noteq> [] \<Longrightarrow> finder p s = None \<Longrightarrow> \<not> found_at p s j"
begin

lemma find_in_Some:
  assumes "find_in finder n buf from = Some i"
  shows "sn_bytes n \<noteq> [] \<and> from \<le> i \<and> found_at (sn_bytes n) buf i \<and>
    (\<forall>j. from \<le> j \<longrightarrow> j < i \<longrightarrow> \<not> found_at (sn_bytes n) buf j)"
proof -
  have n: "sn_bytes n \<noteq> []" "from \<le> length buf" and f: "finder (sn_bytes n) (drop from buf) = Some (i - from)" "from \<le> i"
    using assms by (auto simp: find_in_def split: if_splits)
  have "\<not> found_at (sn_bytes n) buf j" if "from \<le> j" "j < i" for j
    using finder_Some [OF n(1) f(1)] found_at_drop [OF n(2), of "sn_bytes n" "j - from"] that by simp
  then show ?thesis using finder_Some [OF n(1) f(1)] found_at_drop [OF n(2), of "sn_bytes n" "i - from"] n f(2) by simp
qed

lemma find_in_None:
  assumes "find_in finder n buf from = None" "sn_bytes n \<noteq> []" "from \<le> j"
  shows "\<not> found_at (sn_bytes n) buf j"
proof (cases "from \<le> length buf")
  case True
  then show ?thesis
    using assms finder_None [OF assms(2), of "drop from buf" "j - from"] found_at_drop [OF True, of "sn_bytes n" "j - from"]
    by (simp add: find_in_def)
next
  case False
  then show ?thesis using assms(2,3) by (simp add: found_at_def)
qed

end

text \<open>Trying each offset from the left is such a searcher.\<close>

definition first_at :: "string \<Rightarrow> string \<Rightarrow> nat option" where
  "first_at p s = List.find (\<lambda>i. i + length p \<le> length s \<and> take (length p) (drop i s) = p) [0..<Suc (length s)]"

interpretation left_to_right: substring_finder first_at
proof
  fix p s :: string and i
  assume "first_at p s = Some i"
  then show "found_at p s i \<and> (\<forall>j<i. \<not> found_at p s j)"
    unfolding first_at_def find_Some_iff found_at_def by (auto simp del: upt_Suc)
next
  fix p s :: string and j
  assume "p \<noteq> []" "first_at p s = None"
  then show "\<not> found_at p s j"
    unfolding first_at_def find_None_iff found_at_def by auto
qed

section \<open>Masking removes every needle\<close>

definition starred :: "string \<Rightarrow> string \<Rightarrow> bool" where
  "starred s t = list_all2 (\<lambda>x y. y = x \<or> y = STAR) s t"

lemma starred_refl [simp]: "starred s s"
  by (simp add: starred_def list_all2_refl)

lemma starred_trans: "starred a b \<Longrightarrow> starred b c \<Longrightarrow> starred a c"
  unfolding starred_def by (rule list_all2_trans [of "\<lambda>x y. y = x \<or> y = STAR" "\<lambda>x y. y = x \<or> y = STAR"]) auto

lemma starred_length: "starred a b \<Longrightarrow> length b = length a"
  by (simp add: starred_def list_all2_lengthD)

lemma starred_append: "starred a b \<Longrightarrow> starred c d \<Longrightarrow> starred (a @ c) (b @ d)"
  by (simp add: starred_def list_all2_appendI)

lemma starred_nth: "starred a b \<Longrightarrow> i < length a \<Longrightarrow> b ! i \<noteq> STAR \<Longrightarrow> b ! i = a ! i"
  by (auto simp: starred_def list_all2_conv_all_nth)

text \<open>What is found in a masked text, and holds no star, was there before.\<close>

lemma starred_same:
  assumes "starred a b" "STAR \<notin> set b" shows "b = a"
proof (rule nth_equalityI)
  show l: "length b = length a" by (rule starred_length [OF assms(1)])
  show "b ! i = a ! i" if "i < length b" for i
    using starred_nth [OF assms(1)] nth_mem [OF that] assms(2) that l by metis
qed

lemma starred_take_drop: "starred a b \<Longrightarrow> starred (take n a) (take n b)" "starred a b \<Longrightarrow> starred (drop n a) (drop n b)"
  by (simp_all add: starred_def list_all2_takeI list_all2_dropI)

lemma found_unmasked: "starred a b \<Longrightarrow> STAR \<notin> set p \<Longrightarrow> found_at p b i \<Longrightarrow> found_at p a i"
proof -
  assume a: "starred a b" "STAR \<notin> set p" "found_at p b i"
  have "starred (take (length p) (drop i a)) (take (length p) (drop i b))"
    by (intro starred_take_drop a(1))
  then have "take (length p) (drop i b) = take (length p) (drop i a)"
    using a(2,3) by (intro starred_same) (simp_all add: found_at_def)
  then show ?thesis using a(3) starred_length [OF a(1)] by (simp add: found_at_def)
qed

lemma suffix_unmasked: "starred a b \<Longrightarrow> STAR \<notin> set u \<Longrightarrow> suffix u b \<Longrightarrow> suffix u a"
proof -
  assume a: "starred a b" "STAR \<notin> set u" "suffix u b"
  then obtain v where v: "b = v @ u" by (auto simp: suffix_def)
  have "starred (drop (length v) a) (drop (length v) b)" by (intro starred_take_drop a(1))
  then have "u = drop (length v) a" using starred_same a(2) v by simp
  then show ?thesis by (simp add: suffix_drop)
qed

definition mask_at :: "nat \<Rightarrow> nat \<Rightarrow> string \<Rightarrow> string" where
  "mask_at found len buf = map (\<lambda>(i, c). if found \<le> i \<and> i < found + len then STAR else c) (enumerate 0 buf)"

lemma mask_at_simps [simp]:
  "length (mask_at found len buf) = length buf" "starred buf (mask_at found len buf)"
  by (auto simp: mask_at_def starred_def list_all2_conv_all_nth nth_enumerate_eq)

lemma mask_at_nth: "i < length buf \<Longrightarrow> found \<le> i \<Longrightarrow> i < found + len \<Longrightarrow> mask_at found len buf ! i = STAR"
  by (simp add: mask_at_def nth_enumerate_eq)

lemma found_at_nth: "found_at p s i \<Longrightarrow> k < length p \<Longrightarrow> s ! (i + k) = p ! k"
  by (metis add_leD1 found_at_def nth_drop nth_take)

lemma mask_at_found:
  assumes "found_at p buf found" "STAR \<notin> set p" "p \<noteq> []"
    and "\<And>j. j < found \<Longrightarrow> \<not> found_at p buf j" "j < found + length p"
  shows "\<not> found_at p (mask_at found (length p) buf) j"
proof
  assume a: "found_at p (mask_at found (length p) buf) j"
  then have "\<not> j < found" using assms(4) found_unmasked [OF mask_at_simps(2) assms(2)] by blast
  then have "mask_at found (length p) buf ! (j + 0) = STAR"
    using assms(1,5) a by (intro mask_at_nth) (auto simp: found_at_def)
  moreover have "mask_at found (length p) buf ! (j + 0) = p ! 0" using found_at_nth [OF a, of 0] assms(3) by simp
  ultimately show False using assms(2,3) by (metis length_greater_0_conv nth_mem)
qed

lemma mask_loop_unfold:
  "mask_loop finder n buf at =
     (case find_in finder n buf at of
        None \<Rightarrow> buf
      | Some found \<Rightarrow>
          mask_loop finder n (mask_at found (length (sn_bytes n)) buf) (found + length (sn_bytes n)))"
  by (simp add: mask_loop.simps [of finder n buf at] mask_at_def Let_def split: option.split)

definition plain_needle :: "secret_needle \<Rightarrow> bool" where
  "plain_needle n = (STAR \<notin> set (sn_bytes n))"

definition clean_of :: "secret_needle list \<Rightarrow> string \<Rightarrow> bool" where
  "clean_of needles s = list_all (\<lambda>n. sn_bytes n = [] \<or> \<not> sublist (sn_bytes n) s) needles"

lemma clean_of_starred:
  "list_all plain_needle needles \<Longrightarrow> starred a b \<Longrightarrow> clean_of needles a \<Longrightarrow> clean_of needles b"
  unfolding clean_of_def plain_needle_def list_all_iff sublist_found_at using found_unmasked [of a b] by blast

context substring_finder
begin

lemma mask_loop_clean:
  assumes "plain_needle n" "sn_bytes n \<noteq> []" "\<And>j. j < at \<Longrightarrow> \<not> found_at (sn_bytes n) buf j"
  shows "starred buf (mask_loop finder n buf at) \<and> \<not> sublist (sn_bytes n) (mask_loop finder n buf at)"
  using assms(3)
proof (induction "Suc (length buf) - at" arbitrary: buf at rule: less_induct)
  case less
  show ?case
  proof (cases "find_in finder n buf at")
    case None
    then have "\<not> found_at (sn_bytes n) buf j" for j
      using less.prems find_in_None [OF None assms(2)] by (cases "j < at") auto
    then show ?thesis using None by (simp add: mask_loop_unfold sublist_found_at)
  next
    case (Some found)
    let ?len = "length (sn_bytes n)"
    let ?buf = "mask_at found ?len buf"
    note f = find_in_Some [OF Some]
    have first: "\<not> found_at (sn_bytes n) buf j" if "j < found" for j
      using f less.prems that by (cases "j < at") auto
    have "\<not> found_at (sn_bytes n) ?buf j" if "j < found + ?len" for j
      using f first that assms(1,2) by (intro mask_at_found) (auto simp: plain_needle_def)
    moreover have "Suc (length ?buf) - (found + ?len) < Suc (length buf) - at"
      using f assms(2) by (auto simp: found_at_def neq_Nil_conv)
    ultimately have "starred ?buf (mask_loop finder n ?buf (found + ?len)) \<and>
        \<not> sublist (sn_bytes n) (mask_loop finder n ?buf (found + ?len))"
      using less.hyps by blast
    moreover have "mask_loop finder n buf at = mask_loop finder n ?buf (found + ?len)"
      using Some by (simp add: mask_loop_unfold [of finder n buf at])
    ultimately show ?thesis using starred_trans [OF mask_at_simps(2) [of buf found ?len]] by simp
  qed
qed

lemma mask_each_clean:
  assumes "list_all plain_needle needles"
  shows "starred buf (mask_each finder buf needles) \<and> clean_of needles (mask_each finder buf needles)"
  using assms
proof (induction needles rule: rev_induct)
  case (snoc n needles)
  let ?b = "mask_each finder buf needles"
  let ?c = "mask_each finder buf (needles @ [n])"
  have ih: "starred buf ?b" "clean_of needles ?b" using snoc by simp_all
  have c: "?c = (if sn_bytes n = [] \<or> length ?b < length (sn_bytes n) then ?b else mask_loop finder n ?b 0)"
    by (simp add: mask_each_def Let_def)
  have "starred ?b ?c \<and> (sn_bytes n = [] \<or> \<not> sublist (sn_bytes n) ?c)"
  proof (cases "sn_bytes n = [] \<or> length ?b < length (sn_bytes n)")
    case True
    then show ?thesis unfolding c using sublist_length_le [of "sn_bytes n" ?b] by auto
  next
    case False
    then show ?thesis unfolding c using mask_loop_clean [of n 0 ?b] snoc.prems by simp
  qed
  moreover from this have "clean_of needles ?c" using clean_of_starred [of needles ?b ?c] ih(2) snoc.prems by simp
  ultimately show ?case using starred_trans [OF ih(1)] by (simp add: clean_of_def)
qed (simp add: mask_each_def clean_of_def)

end

section \<open>No needle crosses the relay\<close>

lemma needle_prefix_suffix_ge: "n \<in> set needles \<Longrightarrow> prefix_suffix_len n w \<le> needle_prefix_suffix w needles"
proof -
  have f: "a \<le> fold max xs a" for a :: nat and xs
    by (induction xs arbitrary: a) (auto intro: order_trans [OF max.cobounded2])
  have "x \<in> set xs \<Longrightarrow> x \<le> fold max xs a" for x a :: nat and xs
  proof (induction xs arbitrary: a)
    case (Cons y xs)
    then show ?case using f [of "max y a" xs] by auto
  qed simp
  then show "n \<in> set needles \<Longrightarrow> ?thesis" by (simp add: needle_prefix_suffix_def)
qed

lemma needle_prefix_suffix_le:
  assumes "list_all needle_built needles" shows "needle_prefix_suffix w needles \<le> length w"
proof -
  have p: "prefix_suffix_len n w \<le> length w" if "n \<in> set needles" for n
  proof -
    have "needle_built n" using assms that by (simp add: list_all_iff)
    from prefix_suffix_len_spec [OF this, of w] show ?thesis
      using suffix_length_le [of "take (prefix_suffix_len n w) (sn_bytes n)" w] by (cases "sn_bytes n") auto
  qed
  have "fold max xs a \<le> b" if "a \<le> b" "\<forall>x \<in> set xs. x \<le> b" for xs and a b :: nat
    using that by (induction xs arbitrary: a) auto
  then show ?thesis using p by (simp add: needle_prefix_suffix_def)
qed

text \<open>What was written, \<open>e\<close>, and the carry \<open>c\<close>: no needle lies in them, and a tail that begins a needle
  lies in the carry.\<close>

definition pump_inv :: "secret_needle list \<Rightarrow> string \<Rightarrow> string \<Rightarrow> bool" where
  "pump_inv needles e c \<longleftrightarrow> clean_of needles (e @ c) \<and>
     (\<forall>n \<in> set needles. \<forall>k < length (sn_bytes n). suffix (take k (sn_bytes n)) (e @ c) \<longrightarrow> k \<le> length c)"

lemma found_at_append: "found_at p (a @ b) i \<Longrightarrow> i + length p \<le> length a \<Longrightarrow> found_at p a i"
  by (simp add: found_at_def)

lemma found_at_right: "found_at p (a @ b) i \<Longrightarrow> length a \<le> i \<Longrightarrow> found_at p b (i - length a)"
  by (auto simp: found_at_def)

lemma found_at_spans:
  assumes "pump_inv needles e c" "n \<in> set needles" "x = take k (sn_bytes n)"
    and "found_at x ((e @ c) @ d) i" "length (e @ c) < i + length x"
  shows "length e \<le> i"
proof (cases "i < length (e @ c)")
  case True
  let ?j = "length (e @ c) - i"
  have j: "?j < length x" "?j < length (sn_bytes n)" using True assms(3,5) by auto
  have "take ?j (take (length x) (drop i ((e @ c) @ d))) = take ?j x" using assms(4) unfolding found_at_def by metis
  then have "take ?j x = take ?j (drop i ((e @ c) @ d))" using j(1) by simp
  also have "drop i ((e @ c) @ d) = drop i (e @ c) @ d" using True by simp
  also have "take ?j (drop i (e @ c) @ d) = drop i (e @ c)" by simp
  finally have "suffix (take ?j x) (e @ c)" using suffix_drop by metis
  moreover have "take ?j x = take ?j (sn_bytes n)" using j assms(3) by (simp add: min_def split: if_splits)
  ultimately have "?j \<le> length c" using assms(1,2) j(2) by (simp add: pump_inv_def)
  then show ?thesis using True by simp
qed simp

lemma take_plain: "plain_needle n \<Longrightarrow> STAR \<notin> set (take k (sn_bytes n))"
  by (auto simp: plain_needle_def dest: in_set_takeD)

text \<open>The same once the rest of the window has been masked.\<close>

lemma found_at_masked:
  assumes "pump_inv needles e c" "starred (c @ d) w" "n \<in> set needles" "plain_needle n"
    and "found_at (take k (sn_bytes n)) (e @ w) i"
  shows "length (e @ c) < i + length (take k (sn_bytes n)) \<Longrightarrow> length e \<le> i"
    and "length (sn_bytes n) \<le> k \<Longrightarrow> sn_bytes n \<noteq> [] \<Longrightarrow> length e \<le> i"
proof -
  have "starred ((e @ c) @ d) (e @ w)" using starred_append [OF starred_refl assms(2), of e] by simp
  then have g: "found_at (take k (sn_bytes n)) ((e @ c) @ d) i"
    by (rule found_unmasked [OF _ take_plain [OF assms(4)] assms(5)])
  note s = found_at_spans [OF assms(1,3) refl g]
  show "length (e @ c) < i + length (take k (sn_bytes n)) \<Longrightarrow> length e \<le> i" by (rule s)
  assume k: "length (sn_bytes n) \<le> k" "sn_bytes n \<noteq> []"
  then have "\<not> found_at (sn_bytes n) (e @ c) i"
    using assms(1,3) by (auto simp: pump_inv_def clean_of_def list_all_iff sublist_found_at)
  then show "length e \<le> i" using s g k(1) found_at_append [of "sn_bytes n" "e @ c" d i] by fastforce
qed

context substring_finder
begin

lemma pump_step_inv:
  assumes "list_all plain_needle needles" "list_all needle_built needles" "pump_inv needles e c" "d \<noteq> []"
    and "w = redact_in_place finder (c @ d) needles" "m = length w - needle_prefix_suffix w needles"
  shows "pump_inv needles (e @ take m w) (drop m w) \<and> starred (c @ d) w"
proof -
  have w: "starred (c @ d) w" "clean_of needles w"
    using mask_each_clean [OF assms(1)] assms(5) by (simp_all add: redact_in_place_def)
  have len: "length (drop m w) = needle_prefix_suffix w needles"
    using needle_prefix_suffix_le [OF assms(2), of w] assms(6) by simp
  note span = found_at_masked [OF assms(3) w(1)]
  have plain: "plain_needle n" if "n \<in> set needles" for n using assms(1) that by (simp add: list_all_iff)
  have "\<not> found_at (sn_bytes n) (e @ w) i" if n: "n \<in> set needles" "sn_bytes n \<noteq> []" for n i
  proof
    assume f: "found_at (sn_bytes n) (e @ w) i"
    then have "length e \<le> i" using span(2) [OF n(1) plain [OF n(1)], of "length (sn_bytes n)" i] n(2) by simp
    then show False using found_at_right [OF f] w(2) n by (auto simp: clean_of_def list_all_iff sublist_found_at)
  qed
  then have "clean_of needles (e @ w)" by (auto simp: clean_of_def list_all_iff sublist_found_at)
  moreover have "k \<le> length (drop m w)"
    if n: "n \<in> set needles" and k: "k < length (sn_bytes n)" "suffix (take k (sn_bytes n)) (e @ w)" for n k
  proof -
    let ?u = "take k (sn_bytes n)"
    obtain z where z: "e @ w = z @ ?u" using k(2) by (auto simp: suffix_def)
    then have "found_at ?u (e @ w) (length z)" unfolding z found_at_def by (simp add: min_def)
    moreover have "length (e @ c) < length z + length ?u"
      using arg_cong [OF z, of length] starred_length [OF w(1)] assms(4) by (cases d) auto
    ultimately have "length e \<le> length z" by (rule span(1) [OF n plain [OF n]])
    then have "suffix ?u w" using z by (auto simp: suffix_def append_eq_append_conv2)
    then have "k \<le> prefix_suffix_len n w"
      using prefix_suffix_len_spec [of n w] assms(2) n k(1) by (auto simp: list_all_iff)
    then show ?thesis unfolding len using needle_prefix_suffix_ge [OF n] le_trans by blast
  qed
  ultimately show ?thesis using w(1) by (simp add: pump_inv_def)
qed

end

text \<open>The bytes a source delivers before its end, or before the error that ends the relay.\<close>

fun until_end :: "(io_fault + string) list \<Rightarrow> string" where
  "until_end [] = []"
| "until_end (Inl e # rs) = (if e = Interrupted then until_end rs else [])"
| "until_end (Inr d # rs) = (if d = [] then [] else d @ until_end rs)"

lemma clean_of_prefix: "clean_of needles (a @ b) \<Longrightarrow> clean_of needles a"
proof -
  have "sublist p a \<Longrightarrow> sublist p (a @ b)" for p unfolding sublist_def by (metis append.assoc)
  then show "clean_of needles (a @ b) \<Longrightarrow> ?thesis" unfolding clean_of_def list_all_iff by blast
qed

lemma starred_split:
  assumes "starred (c @ d) w" "starred (drop m w @ rest) out"
  shows "starred (c @ d @ rest) (take m w @ out)"
proof -
  have "starred ((c @ d) @ rest) (w @ rest)" by (rule starred_append [OF assms(1) starred_refl])
  moreover have "starred (take m w @ drop m w @ rest) (take m w @ out)" by (rule starred_append [OF starred_refl assms(2)])
  moreover have "take m w @ drop m w @ rest = w @ rest" by (simp only: append_assoc [symmetric] append_take_drop_id)
  ultimately show ?thesis using starred_trans by simp
qed

lemma pump_end_clean:
  "pump_end c w = (res, w') \<Longrightarrow> clean_of needles (e @ c) \<Longrightarrow>
    \<exists>out. written w' = written w @ out \<and> clean_of needles (e @ out) \<and> (res = Inr () \<longrightarrow> out = c)"
proof -
  assume a: "pump_end c w = (res, w')" "clean_of needles (e @ c)"
  obtain ok where k: "write_all c w = (ok, w')" "res = Inr () \<longrightarrow> ok"
    using a(1) by (auto simp: pump_end_def split: prod.splits if_splits)
  from write_all_written [OF k(1)] obtain x t where "c = x @ t" "written w' = written w @ x" "ok \<longrightarrow> t = []" by blast
  then show ?thesis using clean_of_prefix [of needles "e @ x" t] a(2) k(2) by auto
qed

context substring_finder
begin

lemma pump_loop_clean:
  assumes "list_all plain_needle needles" "list_all needle_built needles"
  shows "pump_loop finder needles c rs w = (res, w') \<Longrightarrow> pump_inv needles e c \<Longrightarrow>
    \<exists>out. written w' = written w @ out \<and> clean_of needles (e @ out) \<and> (res = Inr () \<longrightarrow> starred (c @ until_end rs) out)"
proof (induction rs arbitrary: c w e)
  case Nil
  then show ?case using pump_end_clean [of c w res w' needles e] by (auto simp: pump_inv_def)
next
  case (Cons r rs)
  have ended: "\<exists>out. written w' = written w @ out \<and> clean_of needles (e @ out) \<and> (res = Inr () \<longrightarrow> starred c out)"
    if "pump_end c w = (res, w')"
    using pump_end_clean [OF that, of needles e] Cons.prems(2) by (auto simp: pump_inv_def)
  show ?case
  proof (cases r)
    case (Inl f)
    then show ?thesis using Cons ended clean_of_prefix [of needles e c]
      by (cases f) (auto simp: pump_inv_def)
  next
    case (Inr d)
    show ?thesis
    proof (cases "d = []")
      case True
      then show ?thesis using Inr Cons.prems(1) ended by simp
    next
      case False
      let ?w = "redact_in_place finder (c @ d) needles"
      let ?m = "length ?w - needle_prefix_suffix ?w needles"
      have s: "pump_inv needles (e @ take ?m ?w) (drop ?m ?w)" "starred (c @ d) ?w"
        using pump_step_inv [OF assms Cons.prems(2) False refl refl] by auto
      obtain ok w1 where w1: "write_all (take ?m ?w) w = (ok, w1)" by force
      obtain x t where x: "take ?m ?w = x @ t" "written w1 = written w @ x" "ok \<longrightarrow> t = []"
        using write_all_written [OF w1] by blast
      show ?thesis
      proof (cases ok)
        case True
        then have "pump_loop finder needles (drop ?m ?w) rs w1 = (res, w')"
          using Cons.prems(1) Inr False w1 by (simp add: Let_def)
        from Cons.IH [OF this s(1)] obtain out where out: "written w' = written w1 @ out"
          "clean_of needles ((e @ take ?m ?w) @ out)" "res = Inr () \<longrightarrow> starred (drop ?m ?w @ until_end rs) out" by blast
        have "res = Inr () \<longrightarrow> starred (c @ until_end (r # rs)) (take ?m ?w @ out)"
          using starred_split [OF s(2)] out(3) Inr False by simp
        moreover have "written w' = written w @ take ?m ?w @ out" using out(1) x True by simp
        ultimately show ?thesis using out(2) append.assoc by metis
      next
        case no: False
        then have "w' = w1" "res = Inl WriteFailed" using Cons.prems(1) Inr False w1 by (auto simp: Let_def)
        moreover have "clean_of needles (e @ x)"
          using s(1) x(1) clean_of_prefix [of needles "e @ x" "t @ drop ?m ?w"] by (simp add: pump_inv_def)
        ultimately show ?thesis using x(2) by auto
      qed
    qed
  qed
qed

end

lemma pump_end_ok: "pump_end c w = (Inr (), w') \<Longrightarrow> written w' = written w @ c"
  by (auto simp: pump_end_def write_all_def split: if_splits)

lemma clean_of_suffix: "clean_of needles (a @ b) \<Longrightarrow> clean_of needles b"
proof -
  have "sublist p b \<Longrightarrow> sublist p (a @ b)" for p unfolding sublist_def by (metis append.assoc)
  then show "clean_of needles (a @ b) \<Longrightarrow> ?thesis" unfolding clean_of_def list_all_iff by blast
qed

context substring_finder
begin

lemma mask_each_id: "clean_of needles buf \<Longrightarrow> mask_each finder buf needles = buf"
proof (induction needles rule: rev_induct)
  case (snoc n needles)
  have "find_in finder n buf 0 = None"
    using find_in_Some [of n buf 0] snoc.prems
    by (cases "find_in finder n buf 0") (auto simp: clean_of_def sublist_found_at)
  then show ?case using snoc by (simp add: mask_each_def clean_of_def Let_def mask_loop_unfold)
qed (simp add: mask_each_def)

lemma pump_loop_passes:
  "pump_loop finder needles c rs w = (Inr (), w') \<Longrightarrow> clean_of needles (c @ until_end rs) \<Longrightarrow>
    written w' = written w @ c @ until_end rs"
proof (induction rs arbitrary: c w)
  case Nil
  then show ?case using pump_end_ok by simp
next
  case (Cons r rs)
  show ?case
  proof (cases r)
    case (Inl f)
    then show ?thesis using Cons pump_end_ok by (cases f) auto
  next
    case (Inr d)
    show ?thesis
    proof (cases "d = []")
      case True
      then show ?thesis using Cons.prems Inr pump_end_ok by simp
    next
      case False
      let ?m = "length (c @ d) - needle_prefix_suffix (c @ d) needles"
      have "redact_in_place finder (c @ d) needles = c @ d"
        using Cons.prems(2) Inr False clean_of_prefix [of needles "c @ d"]
        by (simp add: redact_in_place_def mask_each_id)
      then obtain w1 where w1: "write_all (take ?m (c @ d)) w = (True, w1)"
        "pump_loop finder needles (drop ?m (c @ d)) rs w1 = (Inr (), w')"
        using Cons.prems(1) Inr False by (auto simp: Let_def split: prod.splits bool.splits)
      have all: "take ?m (c @ d) @ drop ?m (c @ d) @ until_end rs = c @ until_end (r # rs)"
        using Inr False by (simp only: append_assoc [symmetric] append_take_drop_id) simp
      then have "clean_of needles (drop ?m (c @ d) @ until_end rs)" using Cons.prems(2) clean_of_suffix by metis
      then have "written w' = written w1 @ drop ?m (c @ d) @ until_end rs" by (rule Cons.IH [OF w1(2)])
      moreover have "written w1 = written w @ take ?m (c @ d)"
        using w1(1) write_all_written [OF w1(1)] by (auto simp: write_all_def)
      ultimately show ?thesis using all by (metis append.assoc)
    qed
  qed
qed

end



text \<open>A needle that begins and ends with a star can be left whole in a masked text: the search resumes
  behind the mask, whose last star begins an occurrence that was there before.\<close>

lemma star_needle_left:
  "redact_in_place first_at ''*key*key*'' [needle_named ''k'' ''*key*''] = ''*****key*'' \<and> sublist ''*key*'' ''*****key*''"
proof -
  have "redact_in_place first_at ''*key*key*'' [needle_named ''k'' ''*key*''] = ''*****key*''" by code_simp
  moreover have "''*****key*'' = ''****'' @ ''*key*'' @ []" by simp
  ultimately show ?thesis unfolding sublist_def by blast
qed

section \<open>The named substitution removes every needle\<close>

lemma sublist_around: "x \<notin> set p \<Longrightarrow> sublist p (a @ x # b) \<Longrightarrow> sublist p a \<or> sublist p b"
proof -
  assume x: "x \<notin> set p" and "sublist p (a @ x # b)"
  then obtain u v where s: "a @ x # b = u @ p @ v" by (auto simp: sublist_def)
  show ?thesis
  proof (cases "length a < length u")
    case True
    then have "b = drop (Suc (length a)) u @ p @ v"
      using arg_cong [OF s, of "drop (Suc (length a))"] by simp
    then show ?thesis unfolding sublist_def by blast
  next
    case False
    have "length u + length p \<le> length a"
    proof (rule ccontr)
      assume "\<not> ?thesis"
      then have "p ! (length a - length u) = x"
        using arg_cong [OF s, of "\<lambda>l. l ! length a"] False \<open>\<not> length u + length p \<le> length a\<close>
        by (simp add: nth_append split: if_splits)
      then show False using x False \<open>\<not> length u + length p \<le> length a\<close> by (metis nth_mem add.commute less_diff_conv2 not_less)
    qed
    then have "a = u @ p @ take (length a - length u - length p) v"
      using arg_cong [OF s, of "take (length a)"] False by simp
    then show ?thesis unfolding sublist_def by blast
  qed
qed

text \<open>A needle that cannot straddle a placeholder or lie in one.\<close>

definition fenced :: "string \<Rightarrow> string \<Rightarrow> bool" where
  "fenced repl p \<longleftrightarrow> CHR ''$'' \<notin> set p \<and> CHR ''}'' \<notin> set p \<and> \<not> sublist p repl"

lemma fenced_code [code]:
  "fenced repl p \<longleftrightarrow> CHR ''$'' \<notin> set p \<and> CHR ''}'' \<notin> set p \<and> \<not> contains_str p repl"
  by (simp add: fenced_def contains_str_iff)

lemma render_fence: "\<exists>mid. Placeholder_render ph name = CHR ''$'' # mid @ [CHR ''}'']"
  by (cases ph) auto

lemma sublist_fenced:
  assumes "fenced (Placeholder_render ph name) p" "sublist p (a @ Placeholder_render ph name @ b)"
  shows "sublist p a \<or> sublist p b"
proof -
  obtain mid where mid: "Placeholder_render ph name = CHR ''$'' # mid @ [CHR ''}'']" using render_fence by blast
  have "sublist p a \<or> sublist p (mid @ CHR ''}'' # b)"
    using assms sublist_around [of "CHR ''$''" p a "mid @ CHR ''}'' # b"] by (simp add: fenced_def mid)
  then have "sublist p a \<or> sublist p mid \<or> sublist p b"
    using assms(1) sublist_around [of "CHR ''}''" p mid b] by (auto simp: fenced_def)
  moreover have "sublist p mid \<Longrightarrow> sublist p (Placeholder_render ph name)"
    unfolding mid sublist_def by (metis append.assoc append_Cons)
  ultimately show ?thesis using assms(1) by (auto simp: fenced_def)
qed

lemma drop_pieces: "i \<le> k \<Longrightarrow> drop i out = take (k - i) (drop i out) @ take l (drop k out) @ drop (k + l) out"
proof -
  assume "i \<le> k"
  then have "drop k out = drop (k - i) (drop i out)" by simp
  moreover have "drop (k + l) out = drop l (drop k out)" by (simp add: add.commute)
  ultimately show ?thesis by (simp only: append_take_drop_id)
qed

lemma found_at_take: "found_at p (take k s) j \<Longrightarrow> found_at p s j \<and> j + length p \<le> k"
  by (auto simp: found_at_def drop_take min_def split: if_splits)

context substring_finder
begin

lemma piece_clean:
  assumes "find_in finder n out i = Some at" "i \<le> length out"
  shows "\<not> sublist (sn_bytes n) (take (at - i) (drop i out))"
proof
  let ?p = "sn_bytes n"
  note f = find_in_Some [OF assms(1)]
  assume "sublist ?p (take (at - i) (drop i out))"
  then obtain j where j: "found_at ?p (take (at - i) (drop i out)) j" by (auto simp: sublist_found_at)
  have l: "0 < length ?p" "j + length ?p \<le> at - i" using f found_at_take [OF j] by simp_all
  have "i + j < at" using l by linarith
  moreover have "found_at ?p out (i + j)" using found_at_take [OF j] found_at_drop [OF assms(2), of ?p j] by simp
  ultimately show False using f by simp
qed

lemma named_loop_tail:
  "named_loop finder n (Placeholder_render ph name) out i nxt count = (res, count') \<Longrightarrow> i \<le> length out \<Longrightarrow>
    \<exists>tail. res = nxt @ tail \<and> count \<le> count' \<and>
      (fenced (Placeholder_render ph name) (sn_bytes n) \<longrightarrow> sn_bytes n \<noteq> [] \<longrightarrow> \<not> sublist (sn_bytes n) tail) \<and>
      (\<forall>p. fenced (Placeholder_render ph name) p \<longrightarrow> sublist p tail \<longrightarrow> sublist p (drop i out))"
proof (induction "Suc (length out) - i" arbitrary: i nxt count rule: less_induct)
  case less
  let ?p = "sn_bytes n"
  show ?case
  proof (cases "find_in finder n out i")
    case None
    then have "res = nxt @ drop i out \<and> count' = count" using less.prems(1) by (simp add: named_loop.simps)
    moreover have "\<not> sublist ?p (drop i out)" if "?p \<noteq> []"
      using find_in_None [OF None that] found_at_drop [OF less.prems(2)] by (auto simp: sublist_found_at)
    ultimately show ?thesis by auto
  next
    case (Some at)
    note f = find_in_Some [OF Some]
    let ?i = "at + length ?p"
    let ?piece = "take (at - i) (drop i out)"
    have i: "?i \<le> length out" using f by (simp add: found_at_def)
    have "named_loop finder n (Placeholder_render ph name) out ?i (nxt @ ?piece @ Placeholder_render ph name) (count + 1) = (res, count')"
      using less.prems(1) Some by (simp add: named_loop.simps [of finder n _ out i])
    moreover have "Suc (length out) - ?i < Suc (length out) - i" using f i by (cases "sn_bytes n") auto
    ultimately obtain tail where tail: "res = (nxt @ ?piece @ Placeholder_render ph name) @ tail" "count + 1 \<le> count'"
      "fenced (Placeholder_render ph name) ?p \<longrightarrow> ?p \<noteq> [] \<longrightarrow> \<not> sublist ?p tail"
      "\<forall>p. fenced (Placeholder_render ph name) p \<longrightarrow> sublist p tail \<longrightarrow> sublist p (drop ?i out)"
      using less.hyps [OF _ _ i] by blast
    have whole: "drop i out = ?piece @ take (length ?p) (drop at out) @ drop ?i out" using drop_pieces f by blast
    have "\<not> sublist ?p ?piece" by (rule piece_clean [OF Some less.prems(2)])
    then have a: "fenced (Placeholder_render ph name) ?p \<longrightarrow> \<not> sublist ?p (?piece @ Placeholder_render ph name @ tail)"
      using sublist_fenced tail(3) f by blast
    have "sublist p (drop i out)" if "fenced (Placeholder_render ph name) p" "sublist p (?piece @ Placeholder_render ph name @ tail)" for p
    proof -
      have "sublist p ?piece \<or> sublist p (drop ?i out)" using sublist_fenced [OF that] tail(4) that(1) by blast
      then show ?thesis using whole unfolding sublist_def by (metis append.assoc)
    qed
    then show ?thesis using tail(1,2) a by (intro exI [of _ "?piece @ Placeholder_render ph name @ tail"]) auto
  qed
qed

lemma redact_one_clean:
  assumes "redact_one finder ph (out, count) n = (out', count')" "fenced (Placeholder_render ph (sn_name n)) (sn_bytes n)"
  shows "(sn_bytes n = [] \<or> \<not> sublist (sn_bytes n) out') \<and>
    (\<forall>p. fenced (Placeholder_render ph (sn_name n)) p \<longrightarrow> sublist p out' \<longrightarrow> sublist p out) \<and>
    (if sn_bytes n = [] \<or> \<not> sublist (sn_bytes n) out then out' = out \<and> count' = count else count < count')"
proof (cases "find_in finder n out 0")
  case None
  then have "sn_bytes n = [] \<or> \<not> sublist (sn_bytes n) out" using find_in_None [OF None] by (auto simp: sublist_found_at)
  then show ?thesis using assms(1) None by (auto simp: redact_one_def)
next
  case (Some at)
  let ?repl = "Placeholder_render ph (sn_name n)"
  note f = find_in_Some [OF Some]
  have "named_loop finder n ?repl out 0 [] count = (out', count')" using assms(1) Some by (simp add: redact_one_def)
  then have "named_loop finder n ?repl out (at + length (sn_bytes n)) ([] @ take (at - 0) (drop 0 out) @ ?repl) (count + 1) =
      (out', count')" using Some by (simp add: named_loop.simps [of finder n ?repl out 0])
  moreover have "at + length (sn_bytes n) \<le> length out" using f by (simp add: found_at_def)
  ultimately have "count + 1 \<le> count'" using named_loop_tail by blast
  moreover have "sublist (sn_bytes n) out" "sn_bytes n \<noteq> []" using f by (auto simp: sublist_found_at)
  moreover note named_loop_tail [OF \<open>named_loop finder n ?repl out 0 [] count = (out', count')\<close>]
  ultimately show ?thesis using assms(2) by auto
qed

lemma redact_fold_clean:
  assumes "\<And>n m. n \<in> set ns \<Longrightarrow> m \<in> set ns \<Longrightarrow> fenced (Placeholder_render ph (sn_name m)) (sn_bytes n)"
    and "foldl (redact_one finder ph) (buf, 0) ns = (out, count)"
  shows "clean_of ns out \<and> (if clean_of ns buf then out = buf \<and> count = 0 else 0 < count)"
  using assms
proof (induction ns arbitrary: out count rule: rev_induct)
  case (snoc n ns)
  obtain o1 c1 where o1: "foldl (redact_one finder ph) (buf, 0) ns = (o1, c1)" by force
  have "clean_of ns o1 \<and> (if clean_of ns buf then o1 = buf \<and> c1 = 0 else 0 < c1)"
    by (rule snoc.IH [OF _ o1]) (use snoc.prems(1) in simp)
  then have ih: "clean_of ns o1" "if clean_of ns buf then o1 = buf \<and> c1 = 0 else 0 < c1" by blast+
  have one: "redact_one finder ph (o1, c1) n = (out, count)" using snoc.prems(2) o1 by simp
  have fence: "fenced (Placeholder_render ph (sn_name n)) (sn_bytes m)" if "m = n \<or> m \<in> set ns" for m
    using snoc.prems(1) that by auto
  note r = redact_one_clean [OF one fence [OF disjI1 [OF refl]]]
  have "sn_bytes m = [] \<or> \<not> sublist (sn_bytes m) out" if "m \<in> set ns" for m
    using ih(1) r fence [OF disjI2 [OF that]] that unfolding clean_of_def list_all_iff by blast
  then have clean: "clean_of (ns @ [n]) out" using r by (simp add: clean_of_def list_all_iff)
  have split: "clean_of (ns @ [n]) buf \<longleftrightarrow> clean_of ns buf \<and> (sn_bytes n = [] \<or> \<not> sublist (sn_bytes n) buf)"
    by (simp add: clean_of_def)
  show ?case
  proof (cases "clean_of ns buf")
    case True
    then have "o1 = buf" "c1 = 0" using ih(2) by simp_all
    then show ?thesis using clean split True r by auto
  next
    case False
    then have "0 < c1" using ih(2) by simp
    moreover have "c1 \<le> count" using r by (cases "sn_bytes n = [] \<or> \<not> sublist (sn_bytes n) o1") simp_all
    ultimately show ?thesis using clean split False by simp
  qed
qed (simp add: clean_of_def)

end

lemma clean_of_set: "set a = set b \<Longrightarrow> clean_of a s = clean_of b s"
  by (simp add: clean_of_def list_all_iff)



end
