(* ===== verification/Credentials.thy ===== *)
theory Credentials
  imports Secret_Needle Egress_Policy Ssrf
begin

text \<open>
  The credentials of a launch, src/src/sandbox/proxy/inject.rs: the injections (\<open>HeaderInjection\<close>,
  \<open>Form\<close>, \<open>pairs_for\<close>), the live set and its history (\<open>Credentials\<close>, \<open>masking_after\<close>), what is learned
  from the traffic (\<open>observe\<close>, \<open>credential_in\<close>), and the questions the proxy asks of them in
  src/src/sandbox/proxy/mod.rs. A signer plugin is a separate process: it is the parameter \<open>sign\<close>, a
  function of its state and the question it is put. Every operation of \<open>Credentials\<close> runs under its
  lock and is one step; only \<open>observe\<close> first looks at a snapshot taken earlier, which is an argument.
\<close>

section \<open>Programs\<close>

record named =
  nm_exe :: string
  nm_sha256 :: string

text \<open>\<open>std::path::Path::file_name\<close>: the last component, if it is a name.\<close>

definition path_file_name :: "string \<Rightarrow> string option" where
  "path_file_name p =
     (let cs = filter (\<lambda>c. c \<noteq> [] \<and> c \<noteq> ''.'') (split_on CHR ''/'' p) in
      if cs = [] \<or> last cs = ''..'' then None else Some (last cs))"

definition program_is :: "string \<Rightarrow> named \<Rightarrow> bool" where
  "program_is entry nm =
     (case strip_prefix ''sha256:'' entry of
        Some hex \<Rightarrow> nm_sha256 nm = hex
      | None \<Rightarrow>
          if CHR ''/'' \<in> set entry then nm_exe nm = entry
          else (case path_file_name (nm_exe nm) of None \<Rightarrow> False | Some name \<Rightarrow> name = entry))"

definition named_by :: "string list \<Rightarrow> named \<Rightarrow> bool" where
  "named_by progs nm = list_ex (\<lambda>entry. program_is entry nm) progs"

section \<open>Injections\<close>

datatype by_other = Bare | ByDeny

datatype body_digest = Sha256

fun BodyDigest_name :: "body_digest \<Rightarrow> string" where
  "BodyDigest_name Sha256 = ''sha256''"

datatype body_facts = Held u64 string string | Unheld string

record secret_marker =
  sm_marker :: string
  sm_secret :: string
  sm_watch :: bool

text \<open>A running conversation with a signer is known by its number; the supervisor's own copy of a signer
  holds none.\<close>

datatype signer = Running | Asking u64

record signed =
  sg_name :: string
  sg_sets :: "string list"
  sg_sees :: "string list"
  sg_key :: string
  sg_marker :: "secret_marker option"
  sg_signer :: signer
  sg_body_digest :: "body_digest option"

datatype form = Fixed string string | Signed signed

record 're header_injection =
  hi_rule :: "'re rule"
  hi_form :: form
  hi_by :: "string list"
  hi_by_other :: by_other

definition HeaderInjection_fixed :: "'re rule \<Rightarrow> string \<Rightarrow> string \<Rightarrow> 're header_injection" where
  "HeaderInjection_fixed r header val =
     \<lparr>hi_rule = r, hi_form = Fixed header val, hi_by = [], hi_by_other = Bare\<rparr>"

definition for_programs :: "string list \<Rightarrow> by_other \<Rightarrow> 're header_injection \<Rightarrow> 're header_injection" where
  "for_programs progs other hinj = hinj\<lparr>hi_by := progs, hi_by_other := other\<rparr>"

definition injects_for :: "'re header_injection \<Rightarrow> named option \<Rightarrow> bool" where
  "injects_for hinj caller =
     (if hi_by hinj = [] then True
      else case caller of None \<Rightarrow> False | Some nm \<Rightarrow> named_by (hi_by hinj) nm)"

definition refreshable :: "'re header_injection \<Rightarrow> bool" where
  "refreshable hinj = (case hi_form hinj of Fixed _ _ \<Rightarrow> True | Signed _ \<Rightarrow> False)"

definition header_names :: "'re header_injection \<Rightarrow> string list" where
  "header_names hinj = (case hi_form hinj of Fixed header _ \<Rightarrow> [header] | Signed s \<Rightarrow> sg_sets s)"

definition material :: "'re header_injection \<Rightarrow> string" where
  "material hinj = (case hi_form hinj of Fixed _ val \<Rightarrow> val | Signed s \<Rightarrow> sg_key s)"

text \<open>\<open>HeaderLookup\<close> on parsed pairs.\<close>

definition lookup_get :: "(string \<times> string) list \<Rightarrow> string \<Rightarrow> string option" where
  "lookup_get hs name = map_option snd (List.find (\<lambda>(k, _). eq_ignore_case k name) hs)"

definition lookup_each :: "(string \<times> string) list \<Rightarrow> string \<Rightarrow> string list" where
  "lookup_each hs name = map snd (filter (\<lambda>(k, _). eq_ignore_case k name) hs)"

section \<open>The credential set and the questions put to it\<close>

record 're credential_set =
  cs_injections :: "'re header_injection list"
  cs_needles :: "secret_needle list"

definition wants_body_digest :: "'re credential_set \<Rightarrow> nat list \<Rightarrow> body_digest option" where
  "wants_body_digest cs ids =
     (case List.find (\<lambda>d. d \<noteq> None)
             (map (\<lambda>i. case hi_form (cs_injections cs ! i) of Signed s \<Rightarrow> sg_body_digest s | Fixed _ _ \<Rightarrow> None) ids) of
        Some d \<Rightarrow> d | None \<Rightarrow> None)"

definition masks_reflection_for :: "'re credential_set \<Rightarrow> string \<Rightarrow> bool" where
  "masks_reflection_for cs host =
     (cs_needles cs \<noteq> [] \<and> list_ex (\<lambda>hinj. names_exact_host host (Some (hi_rule hinj))) (cs_injections cs))"

definition matching_injection_ids ::
  "('re \<Rightarrow> string \<Rightarrow> bool) \<Rightarrow> 're credential_set \<Rightarrow> string \<Rightarrow> u16 \<Rightarrow> string \<Rightarrow> named option \<Rightarrow> nat list" where
  "matching_injection_ids is_match cs host port target who =
     map fst (filter (\<lambda>(i, hinj). rule_matches is_match (hi_rule hinj) host port target \<and> injects_for hinj who)
       (enumerate 0 (cs_injections cs)))"

definition injected_names :: "(string \<times> string) list \<Rightarrow> string list" where
  "injected_names injected = map (\<lambda>(name, _). name) injected"

definition any_refreshable :: "'re credential_set \<Rightarrow> nat list \<Rightarrow> bool" where
  "any_refreshable cs ids = list_ex (\<lambda>i. refreshable (cs_injections cs ! i)) ids"

definition withheld_by_deny ::
  "('re \<Rightarrow> string \<Rightarrow> bool) \<Rightarrow> 're credential_set \<Rightarrow> string \<Rightarrow> u16 \<Rightarrow> string \<Rightarrow> named option \<Rightarrow> bool" where
  "withheld_by_deny is_match cs host port target who =
     list_ex (\<lambda>hinj. hi_by_other hinj = ByDeny \<and> rule_matches is_match (hi_rule hinj) host port target \<and>
         \<not> injects_for hinj who) (cs_injections cs)"

definition refused_by_reservation ::
  "('re \<Rightarrow> string \<Rightarrow> bool) \<Rightarrow> 're egress_policy \<Rightarrow> named option \<Rightarrow> string \<Rightarrow> u16 \<Rightarrow> bool" where
  "refused_by_reservation is_match pol who host port =
     (let covering = reserved_for is_match pol host port in
      if covering = [] then False
      else let admitted = (case who of Some nm \<Rightarrow> list_all (\<lambda>r. named_by (rs_by r) nm) covering | None \<Rightarrow> False) in
        \<not> admitted)"

definition carries_secret ::
  "(string \<Rightarrow> string \<Rightarrow> nat option) \<Rightarrow> string \<Rightarrow> secret_needle list \<Rightarrow> string \<Rightarrow> bool" where
  "carries_secret finder head_bytes redactions dest =
     list_ex (\<lambda>n. find_in finder n head_bytes 0 \<noteq> None) (filter (\<lambda>n. scanned_for n dest) redactions)"

section \<open>The pairs an injection puts on a request\<close>

text \<open>\<open>SecretMarker::substitute\<close> of src/src/sandbox/broker.rs; with an empty marker its loop never
  advances, which is the value \<open>None\<close>.\<close>

partial_function (option) substitute_loop :: "secret_marker \<Rightarrow> string \<Rightarrow> string \<Rightarrow> nat \<Rightarrow> string option" where
  "substitute_loop m frame out at =
     (if at < length frame then
        if starts_with (sm_marker m) (drop at frame)
        then substitute_loop m frame (out @ sm_secret m) (at + length (sm_marker m))
        else substitute_loop m frame (out @ [frame ! at]) (at + 1)
      else Some out)"

definition substitute :: "secret_marker \<Rightarrow> string \<Rightarrow> string option" where
  "substitute m frame = substitute_loop m frame [] 0"

definition substitute_str :: "secret_marker \<Rightarrow> string \<Rightarrow> string option" where
  "substitute_str m txt = map_option utf8_lossy (substitute m txt)"

record sign_request =
  sr_method :: string
  sr_host :: string
  sr_port :: u16
  sr_target :: string
  sr_headers :: "(string \<times> string) list"
  sr_body :: "body_facts option"

record signature =
  sig_headers :: "(string \<times> string) list"
  sig_label :: "string option"

record request_facts =
  rf_method :: string
  rf_host :: string
  rf_port :: u16
  rf_target :: string
  rf_headers :: "(string \<times> string) list"
  rf_body :: "body_facts option"

record sign_refusal =
  sf_signer :: string
  sf_why :: string

text \<open>What a signer is asked about one request, or why it is not asked.\<close>

definition sign_body :: "signed \<Rightarrow> request_facts \<Rightarrow> sign_refusal + body_facts option" where
  "sign_body s req =
     (case sg_body_digest s of
        None \<Rightarrow> Inr None
      | Some want \<Rightarrow>
          (case rf_body req of
             Some (Held bytes algorithm digest) \<Rightarrow>
               if algorithm \<noteq> BodyDigest_name want then
                 Inl \<lparr>sf_signer = sg_name s,
                   sf_why = ''another plugin signing this request had its body digested by '' @ algorithm @
                            '', and this plugin's manifest asks for '' @ BodyDigest_name want\<rparr>
               else Inr (Some (Held bytes algorithm digest))
           | Some facts \<Rightarrow> Inr (Some facts)
           | None \<Rightarrow>
               Inl \<lparr>sf_signer = sg_name s,
                 sf_why = ''sbx established nothing about this request's body, which this plugin's manifest asks to be told''\<rparr>))"

definition sign_question :: "signed \<Rightarrow> request_facts \<Rightarrow> body_facts option \<Rightarrow> sign_request" where
  "sign_question s req body =
     \<lparr>sr_method = rf_method req, sr_host = rf_host req, sr_port = rf_port req, sr_target = rf_target req,
      sr_headers = concat (map (\<lambda>name. case lookup_get (rf_headers req) name of
                              Some v \<Rightarrow> [(name, v)] | None \<Rightarrow> []) (sg_sees s)),
      sr_body = body\<rparr>"

text \<open>The conversation: \<open>sign st num ask\<close> is the plugin's answer and the state it is left in, or nothing
  when the lock on the channel is poisoned.\<close>

definition ask_signer ::
  "('s \<Rightarrow> u64 \<Rightarrow> sign_request \<Rightarrow> ((string + signature) \<times> 's) option) \<Rightarrow> signer \<Rightarrow> sign_request \<Rightarrow> 's \<Rightarrow>
    (string + signature) \<times> 's" where
  "ask_signer sign sgnr ask st =
     (case sgnr of
        Asking num \<Rightarrow>
          (case sign st num ask of
             Some answer \<Rightarrow> answer
           | None \<Rightarrow> (Inl ''the signer plugin is in an unusable state'', st))
      | Running \<Rightarrow> (Inl ''the proxy holds no conversation with this signer plugin'', st))"

fun place_marker :: "secret_marker option \<Rightarrow> (string \<times> string) list \<Rightarrow> (string \<times> string) list option" where
  "place_marker _ [] = Some []"
| "place_marker mk ((name, val) # hs) =
     (case (case mk of None \<Rightarrow> Some val | Some m \<Rightarrow> substitute_str m val) of
        None \<Rightarrow> None
      | Some v \<Rightarrow> map_option (\<lambda>rest. (name, v) # rest) (place_marker mk hs))"

fun pairs_loop ::
  "('s \<Rightarrow> u64 \<Rightarrow> sign_request \<Rightarrow> ((string + signature) \<times> 's) option) \<Rightarrow> 're credential_set \<Rightarrow> request_facts \<Rightarrow>
    nat list \<Rightarrow> (string \<times> string) list \<Rightarrow> 's \<Rightarrow> ((sign_refusal + (string \<times> string) list) \<times> 's) option" where
  "pairs_loop sign cs req [] out st = Some (Inr out, st)"
| "pairs_loop sign cs req (i # ids) out st =
     (case hi_form (cs_injections cs ! i) of
        Fixed header val \<Rightarrow> pairs_loop sign cs req ids (out @ [(header, val)]) st
      | Signed s \<Rightarrow>
          (case sign_body s req of
             Inl refusal \<Rightarrow> Some (Inl refusal, st)
           | Inr body \<Rightarrow>
               (case ask_signer sign (sg_signer s) (sign_question s req body) st of
                  (Inl why, st') \<Rightarrow> Some (Inl \<lparr>sf_signer = sg_name s, sf_why = why\<rparr>, st')
                | (Inr sig, st') \<Rightarrow>
                    (case place_marker (sg_marker s) (sig_headers sig) of
                       None \<Rightarrow> None
                     | Some hs \<Rightarrow> pairs_loop sign cs req ids (out @ hs) st'))))"

definition pairs_for ::
  "('s \<Rightarrow> u64 \<Rightarrow> sign_request \<Rightarrow> ((string + signature) \<times> 's) option) \<Rightarrow> 're credential_set \<Rightarrow> nat list \<Rightarrow>
    request_facts \<Rightarrow> 's \<Rightarrow> ((sign_refusal + (string \<times> string) list) \<times> 's) option" where
  "pairs_for sign cs ids req st = pairs_loop sign cs req ids [] st"

definition signer_refusal_message ::
  "(string \<Rightarrow> string \<Rightarrow> nat option) \<Rightarrow> sign_refusal \<Rightarrow> secret_needle list \<Rightarrow> string" where
  "signer_refusal_message finder refusal needles =
     utf8_lossy (redact_in_place finder
       (''the `'' @ sf_signer refusal @ ''` signer plugin did not sign this request ('' @ sf_why refusal @
        ''), so it was not sent'') needles)"

section \<open>The live state\<close>

definition OBSERVED_AUTH_HEADERS :: "string list" where
  "OBSERVED_AUTH_HEADERS = [''authorization'', ''x-api-key'', ''api-key'', ''x-auth-token'', ''x-goog-api-key'']"

definition OBSERVE_MIN_LEN :: nat where
  "OBSERVE_MIN_LEN = 16"

definition OBSERVE_MAX :: nat where
  "OBSERVE_MAX = 8"

definition NEEDLE_HISTORY_MAX :: nat where
  "NEEDLE_HISTORY_MAX = 256"

definition is_auth_scheme :: "string \<Rightarrow> bool" where
  "is_auth_scheme word =
     (word \<noteq> [] \<and>
      list_all (\<lambda>b. is_ascii_alphanumeric b \<or> b \<in> set ''!#$%&'' \<or> b = CHR 0x27 \<or> b \<in> set ''*+-.^_`|~'') word)"

text \<open>\<open>contains(char::is_whitespace)\<close>: in valid UTF-8 the encoding of a character only occurs as that
  character.\<close>

definition has_white :: "string \<Rightarrow> bool" where
  "has_white s = list_ex (\<lambda>w. contains_str w s) white_space"

fun known_scheme :: "string list \<Rightarrow> string \<Rightarrow> string option" where
  "known_scheme [] val = None"
| "known_scheme (scheme # schemes) val =
     (if length scheme \<le> length val \<and> eq_ignore_case (take (length scheme) val) scheme
      then Some (trim (drop (length scheme) val))
      else known_scheme schemes val)"

definition credential_in :: "string \<Rightarrow> string \<Rightarrow> string" where
  "credential_in header val =
     (let val = trim val in
      case known_scheme [''bearer '', ''basic '', ''token ''] val of
        Some tok \<Rightarrow> tok
      | None \<Rightarrow>
          if eq_ignore_case header ''authorization'' then
            (case split_once CHR '' '' val of
               Some (scheme, rest) \<Rightarrow>
                 if is_auth_scheme scheme then
                   let rest = trim rest in
                   if rest \<noteq> [] \<and> \<not> has_white rest then rest else val
                 else val
             | None \<Rightarrow> val)
          else val)"

text \<open>The masking set once \<open>live\<close> is installed over a history.\<close>

definition same_bytes :: "string \<Rightarrow> secret_needle list \<Rightarrow> bool" where
  "same_bytes bytes ns = list_ex (\<lambda>h. sn_bytes h = bytes) ns"

definition masking_merged :: "secret_needle list \<Rightarrow> secret_needle list \<Rightarrow> secret_needle list" where
  "masking_merged history live =
     foldl (\<lambda>merged n. if same_bytes (sn_bytes n) merged then merged else merged @ [n]) history live"

definition masking_after :: "secret_needle list \<Rightarrow> secret_needle list \<Rightarrow> secret_needle list" where
  "masking_after history live =
     (if list_all (\<lambda>n. same_bytes (sn_bytes n) history) live then history
      else
        let merged = masking_merged history live;
            (live, retired) = partition (\<lambda>h. same_bytes (sn_bytes h) live) merged;
            (spent, superseded) = partition sn_observed retired;
            over = length spent + length superseded + length live - NEEDLE_HISTORY_MAX;
            from_spent = min over (length spent);
            spent = drop from_spent spent;
            superseded = drop (min (over - from_spent) (length superseded)) superseded
        in superseded @ spent @ live)"

record 're credentials =
  cr_current :: "'re credential_set"
  cr_generation :: u64
  cr_min_len :: nat
  cr_shared_credential :: "string list list"
  cr_masking :: "secret_needle list"

definition Credentials_new ::
  "'re header_injection list \<Rightarrow> secret_needle list \<Rightarrow> nat \<Rightarrow> string list list \<Rightarrow> 're credentials" where
  "Credentials_new injections needles min_len shared =
     \<lparr>cr_current = \<lparr>cs_injections = injections, cs_needles = needles\<rparr>, cr_generation = 0,
      cr_min_len = min_len, cr_shared_credential = shared, cr_masking = needles\<rparr>"

definition service_of :: "'re credentials \<Rightarrow> string \<Rightarrow> string list" where
  "service_of c dest =
     (let host = host_key dest in
      case List.find (\<lambda>grp. list_ex (\<lambda>entry. shared_credential_covers entry host) grp) (cr_shared_credential c) of
        Some grp \<Rightarrow> grp
      | None \<Rightarrow> [host])"

definition snapshot :: "'re credentials \<Rightarrow> 're credential_set" where
  "snapshot c = cr_current c"

definition snapshot_with_generation :: "'re credentials \<Rightarrow> 're credential_set \<times> u64" where
  "snapshot_with_generation c = (cr_current c, cr_generation c)"

definition masking_needles :: "'re credentials \<Rightarrow> secret_needle list" where
  "masking_needles c = cr_masking c"

definition record_masking :: "secret_needle list \<Rightarrow> 're credentials \<Rightarrow> 're credentials" where
  "record_masking live c = c\<lparr>cr_masking := masking_after (cr_masking c) live\<rparr>"

definition Credentials_replace :: "'re credential_set \<Rightarrow> 're credentials \<Rightarrow> 're credentials" where
  "Credentials_replace cs c =
     (let c = c\<lparr>cr_generation := cr_generation c + 1\<rparr>;
          needles = cs_needles cs;
          learned = filter (\<lambda>n. \<not> same_bytes (sn_bytes n) needles) (filter sn_observed (cs_needles (cr_current c)));
          needles = needles @ learned;
          c = record_masking needles c
      in c\<lparr>cr_current := \<lparr>cs_injections = cs_injections cs, cs_needles = needles\<rparr>\<rparr>)"

fun remove_at :: "nat \<Rightarrow> 'a list \<Rightarrow> 'a list" where
  "remove_at _ [] = []"
| "remove_at 0 (x # xs) = xs"
| "remove_at (Suc i) (x # xs) = x # remove_at i xs"

fun position :: "('a \<Rightarrow> bool) \<Rightarrow> 'a list \<Rightarrow> nat option" where
  "position P [] = None"
| "position P (x # xs) = (if P x then Some 0 else map_option Suc (position P xs))"

lemma remove_at_length: "position P xs = Some i \<Longrightarrow> length (remove_at i xs) < length xs"
  by (induction xs arbitrary: i) (auto split: if_splits)

function make_room :: "secret_needle list \<Rightarrow> secret_needle list" where
  "make_room needles =
     (if OBSERVE_MAX \<le> length (filter sn_observed needles) then
        (case position sn_observed needles of
           None \<Rightarrow> needles
         | Some oldest \<Rightarrow> make_room (remove_at oldest needles))
      else needles)"
  by pat_completeness auto
termination
  by (relation "measure length") (auto dest: remove_at_length)

declare make_room.simps [simp del]

definition observe ::
  "secret_needle list \<Rightarrow> string \<Rightarrow> string \<Rightarrow> string \<Rightarrow> 're credentials \<Rightarrow> bool \<times> 're credentials" where
  "observe snap header val dest c =
     (let credential = credential_in header val in
      if length credential < max OBSERVE_MIN_LEN (cr_min_len c) then (False, c)
      else if same_bytes credential snap then (False, c)
      else if same_bytes credential (cs_needles (cr_current c)) then (False, c)
      else
        let needles = make_room (cs_needles (cr_current c)) @
              [needle_learned (''observed:'' @ header) credential (service_of c dest)];
            c = record_masking needles c
        in (True, c\<lparr>cr_current := \<lparr>cs_injections = cs_injections (cr_current c), cs_needles = needles\<rparr>\<rparr>))"

definition observe_head ::
  "(string \<times> string) list \<Rightarrow> string list \<Rightarrow> string \<Rightarrow> 're credentials \<Rightarrow> nat \<times> 're credentials" where
  "observe_head hs injected dest c =
     foldl (\<lambda>(kept, c) (name, val).
              case observe (cs_needles (snapshot c)) name val dest c of
                (True, c') \<Rightarrow> (kept + 1, c') | (False, c') \<Rightarrow> (kept, c'))
       (0, c)
       (concat (map (\<lambda>name. map (Pair name) (lookup_each hs name))
         (filter (\<lambda>name. \<not> list_ex (\<lambda>hinj. header_name_eq name hinj) injected) OBSERVED_AUTH_HEADERS)))"

end
