(* ===== verification/Credential_Runs.thy ===== *)
theory Credential_Runs
  imports Credentials
begin

text \<open>
  The runs of a launch's credentials (src/src/sandbox/proxy/inject.rs): every interleaving of
  replacements and observations, the invariant of the live set and its history, the generations a
  pool key names, and what the history never forgets.
\<close>

section \<open>The history of the values\<close>

abbreviation bytes_of :: "secret_needle list \<Rightarrow> string set" where
  "bytes_of ns \<equiv> sn_bytes ` set ns"

lemma same_bytes_iff [simp]: "same_bytes b ns \<longleftrightarrow> b \<in> bytes_of ns"
  by (auto simp: same_bytes_def list_ex_iff)

lemma masking_merged_facts:
  "bytes_of (masking_merged history live) = bytes_of history \<union> bytes_of live \<and>
   set history \<subseteq> set (masking_merged history live) \<and>
   set (masking_merged history live) \<subseteq> set history \<union> {n \<in> set live. sn_bytes n \<notin> bytes_of history}"
proof (induction live rule: rev_induct)
  case (snoc n live)
  then show ?case by (auto simp: masking_merged_def image_iff)
qed (simp add: masking_merged_def)

definition unlike :: "secret_needle list \<Rightarrow> bool" where
  "unlike ns \<longleftrightarrow> distinct (map sn_bytes (filter sn_observed ns))"

lemma masking_merged_Cons: "masking_merged history (live @ [n]) =
    (if sn_bytes n \<in> bytes_of (masking_merged history live) then masking_merged history live
     else masking_merged history live @ [n])"
  by (simp add: masking_merged_def)

lemma masking_merged_unlike: "unlike history \<Longrightarrow> unlike (masking_merged history live)"
proof (induction live rule: rev_induct)
  case (snoc n live)
  then show ?case by (auto simp: masking_merged_Cons unlike_def)
qed (simp add: masking_merged_def)

lemma masking_merged_declared:
  "length (filter (\<lambda>n. \<not> sn_observed n) (masking_merged history live)) \<le>
   length (filter (\<lambda>n. \<not> sn_observed n) history) +
   length (filter (\<lambda>n. \<not> sn_observed n \<and> sn_bytes n \<notin> bytes_of history) live)"
proof (induction live rule: rev_induct)
  case (snoc n live)
  then show ?case using masking_merged_facts [of history live] by (auto simp: masking_merged_Cons)
qed (simp add: masking_merged_def)

text \<open>The three parts of a trimmed history, and what the trimming drops: first the learned values that
  are no longer live, then the declared ones, never a live one.\<close>

definition live_part :: "secret_needle list \<Rightarrow> secret_needle list \<Rightarrow> secret_needle list" where
  "live_part live ns = filter (\<lambda>h. same_bytes (sn_bytes h) live) ns"

definition spent_part :: "secret_needle list \<Rightarrow> secret_needle list \<Rightarrow> secret_needle list" where
  "spent_part live ns = filter (\<lambda>h. \<not> same_bytes (sn_bytes h) live \<and> sn_observed h) ns"

definition superseded_part :: "secret_needle list \<Rightarrow> secret_needle list \<Rightarrow> secret_needle list" where
  "superseded_part live ns = filter (\<lambda>h. \<not> same_bytes (sn_bytes h) live \<and> \<not> sn_observed h) ns"

lemma masking_after_trim:
  assumes "\<not> bytes_of live \<subseteq> bytes_of history"
  defines "m \<equiv> masking_merged history live"
  defines "a \<equiv> min (length m - 256) (length (spent_part live m))"
  shows "masking_after history live =
    drop (min (length m - 256 - a) (length (superseded_part live m))) (superseded_part live m) @
    drop a (spent_part live m) @ live_part live m"
proof -
  let ?p = "\<lambda>h. same_bytes (sn_bytes h) live"
  have nl: "\<not> list_all (\<lambda>n. same_bytes (sn_bytes n) history) live"
    using assms(1) by (auto simp: list_all_iff)
  have parts: "filter sn_observed (filter (Not \<circ> ?p) m) = spent_part live m"
    "filter (Not \<circ> sn_observed) (filter (Not \<circ> ?p) m) = superseded_part live m" "filter ?p m = live_part live m"
    by (auto simp: spent_part_def superseded_part_def live_part_def comp_def conj_commute)
  have "length (spent_part live m) + length (superseded_part live m) + length (live_part live m) = length m"
    using sum_length_filter_compl [of ?p m] sum_length_filter_compl [of sn_observed "filter (Not \<circ> ?p) m"]
    by (simp add: comp_def flip: parts)
  then show ?thesis
    unfolding masking_after_def Let_def if_not_P [OF nl] partition_filter_conv prod.case m_def [symmetric] parts
      NEEDLE_HISTORY_MAX_def a_def by simp
qed

lemma masking_after_same: "bytes_of live \<subseteq> bytes_of history \<Longrightarrow> masking_after history live = history"
  by (auto simp: masking_after_def list_all_iff)

lemma masking_after_live: "bytes_of live \<subseteq> bytes_of (masking_after history live)"
proof (cases "bytes_of live \<subseteq> bytes_of history")
  case False
  have "b \<in> bytes_of (live_part live (masking_merged history live))" if b: "b \<in> bytes_of live" for b
  proof -
    have "b \<in> bytes_of (masking_merged history live)" using b masking_merged_facts [of history live] by simp
    then show ?thesis using b by (auto simp: live_part_def)
  qed
  then show ?thesis unfolding masking_after_trim [OF False] by auto
qed (simp add: masking_after_same)

lemma masking_after_set: "set (masking_after history live) \<subseteq> set (masking_merged history live)"
proof (cases "bytes_of live \<subseteq> bytes_of history")
  case True
  then show ?thesis using masking_merged_facts [of history live] by (simp add: masking_after_same)
next
  case False
  show ?thesis unfolding masking_after_trim [OF False]
    by (auto simp: live_part_def spent_part_def superseded_part_def dest!: in_set_dropD)
qed

lemma filter_drop_le: "length (filter P (drop k xs)) \<le> length (filter P xs)"
  by (metis append_take_drop_id filter_append le_add2 length_append)

lemma masking_after_filter:
  "length (filter P (masking_after history live)) \<le> length (filter P (masking_merged history live))"
proof (cases "bytes_of live \<subseteq> bytes_of history")
  case True
  then have "masking_merged history live = history"
    by (induction live rule: rev_induct) (auto simp: masking_merged_Cons, simp add: masking_merged_def)
  then show ?thesis by (simp add: masking_after_same [OF True])
next
  case False
  let ?m = "masking_merged history live" and ?p = "\<lambda>h. same_bytes (sn_bytes h) live"
  have "length (filter P (superseded_part live ?m)) + length (filter P (spent_part live ?m)) +
      length (filter P (live_part live ?m)) = length (filter P ?m)"
    using sum_length_filter_compl [of ?p "filter P ?m"]
      sum_length_filter_compl [of sn_observed "filter (\<lambda>h. \<not> ?p h) (filter P ?m)"]
    by (simp add: superseded_part_def spent_part_def live_part_def conj_ac)
  then show ?thesis
    unfolding masking_after_trim [OF False] filter_append length_append
    using filter_drop_le [of P] by (metis (no_types, lifting) add.assoc add_le_mono order_refl)
qed

lemma masking_after_unlike:
  assumes "unlike history"
  shows "unlike (masking_after history live)"
proof (cases "bytes_of live \<subseteq> bytes_of history")
  case False
  let ?m = "masking_merged history live"
  have m: "distinct (map sn_bytes (filter sn_observed ?m))"
    using masking_merged_unlike [OF assms] by (simp add: unlike_def)
  have none: "filter sn_observed (drop k (superseded_part live ?m)) = []" for k
    by (auto simp: superseded_part_def filter_empty_conv dest!: in_set_dropD)
  have all: "filter sn_observed (drop k (spent_part live ?m)) = drop k (spent_part live ?m)" for k
    by (auto simp: spent_part_def filter_id_conv dest!: in_set_dropD)
  have spent: "distinct (map sn_bytes (spent_part live ?m))"
    using distinct_map_filter [OF m, of "\<lambda>h. \<not> same_bytes (sn_bytes h) live"] by (simp add: spent_part_def conj_commute)
  have "distinct (map sn_bytes (filter sn_observed (live_part live ?m)))"
    using distinct_map_filter [OF m, of "\<lambda>h. same_bytes (sn_bytes h) live"] by (simp add: live_part_def conj_commute)
  moreover have "bytes_of (drop k (spent_part live ?m)) \<inter> bytes_of (filter sn_observed (live_part live ?m)) = {}" for k
    by (auto simp: spent_part_def live_part_def dest!: in_set_dropD)
  ultimately show ?thesis
    unfolding unlike_def masking_after_trim [OF False] filter_append none all
    using distinct_drop [OF spent] by (simp add: drop_map)
qed (use assms in \<open>simp add: masking_after_same\<close>)

text \<open>With room for every declared value, no declared entry of the history is dropped.\<close>

lemma masking_after_keeps:
  assumes "n \<in> set (masking_merged history live)" "\<not> sn_observed n"
    and "length (filter (\<lambda>h. \<not> sn_observed h \<or> same_bytes (sn_bytes h) live) (masking_merged history live)) \<le> 256"
  shows "n \<in> set (masking_after history live)"
proof (cases "bytes_of live \<subseteq> bytes_of history")
  case True
  then have "masking_merged history live = history"
    by (induction live rule: rev_induct) (auto simp: masking_merged_Cons, simp add: masking_merged_def)
  then show ?thesis using assms(1) by (simp add: masking_after_same [OF True])
next
  case False
  let ?m = "masking_merged history live" and ?q = "\<lambda>h. \<not> sn_observed h \<or> same_bytes (sn_bytes h) live"
  have "length (filter ?q ?m) + length (filter (\<lambda>h. \<not> ?q h) ?m) = length ?m" by (rule sum_length_filter_compl)
  then have "length ?m - 256 \<le> length (spent_part live ?m)"
    using assms(3) by (simp add: spent_part_def conj_commute)
  then have "min (length ?m - 256 - min (length ?m - 256) (length (spent_part live ?m))) k = 0" for k by simp
  then show ?thesis using assms(1,2) unfolding masking_after_trim [OF False]
    by (auto simp: superseded_part_def live_part_def)
qed

text \<open>The history stays within its ceiling, or holds nothing but live values.\<close>

lemma masking_after_length:
  "\<not> bytes_of live \<subseteq> bytes_of history \<Longrightarrow>
    length (masking_after history live) = max (min 256 (length (masking_merged history live)))
      (length (live_part live (masking_merged history live)))"
proof -
  assume a: "\<not> bytes_of live \<subseteq> bytes_of history"
  let ?m = "masking_merged history live" and ?p = "\<lambda>h. same_bytes (sn_bytes h) live"
  have "length (superseded_part live ?m) + length (spent_part live ?m) + length (live_part live ?m) = length ?m"
    using sum_length_filter_compl [of ?p ?m] sum_length_filter_compl [of sn_observed "filter (\<lambda>h. \<not> ?p h) ?m"]
    by (simp add: superseded_part_def spent_part_def live_part_def conj_ac)
  moreover have "(p - min (m - 256 - min (m - 256) s) p) + ((s - min (m - 256) s) + l) = max (min 256 m) l"
    if "p + s + l = m" for p s l m :: nat
    using that by arith
  ultimately show ?thesis unfolding masking_after_trim [OF a] length_append length_drop by blast
qed

section \<open>Runs\<close>

text \<open>Every state the credentials of a launch pass through, the last one first, with the replacements made
  and the declared needles handed over so far. An observing thread may have taken its first look at any
  earlier state.\<close>

abbreviation declared :: "secret_needle list \<Rightarrow> bool" where
  "declared ns \<equiv> list_all (\<lambda>n. \<not> sn_observed n \<and> sn_dest n = None) ns"

inductive cred_run :: "nat \<Rightarrow> nat \<Rightarrow> 're credentials list \<Rightarrow> bool" where
  first: "declared needles \<Longrightarrow>
    cred_run 0 (length needles) [Credentials_new injections needles min_len shared]"
| replaces: "cred_run n k (c # cs) \<Longrightarrow> declared (cs_needles s) \<Longrightarrow>
    cred_run (Suc n) (k + length (cs_needles s)) (Credentials_replace s c # c # cs)"
| observes: "cred_run n k (c # cs) \<Longrightarrow> earlier \<in> set (c # cs) \<Longrightarrow>
    cred_run n k (snd (observe (cs_needles (snapshot earlier)) header val dest c) # c # cs)"

inductive_cases cred_run_Nil: "cred_run n k []"

lemma make_room_facts:
  "length (filter sn_observed (make_room ns)) < 8 \<and>
   filter (\<lambda>n. \<not> sn_observed n) (make_room ns) = filter (\<lambda>n. \<not> sn_observed n) ns \<and>
   set (make_room ns) \<subseteq> set ns \<and> (unlike ns \<longrightarrow> unlike (make_room ns)) \<and>
   suffix (filter sn_observed (make_room ns)) (filter sn_observed ns)"
proof (induction ns rule: make_room.induct)
  case (1 ns)
  show ?case
  proof (cases "8 \<le> length (filter sn_observed ns)")
    case True
    then obtain a n b where ns: "ns = a @ n # b" "sn_observed n" "list_all (\<lambda>m. \<not> sn_observed m) a"
      using split_list_first_prop [of ns sn_observed] by (cases "filter sn_observed ns") (auto simp: list_all_iff filter_eq_Cons_iff)
    have p: "position sn_observed ns = Some (length a)" and r: "remove_at (length a) ns = a @ b"
      using ns(2,3) unfolding ns(1) by (induction a) auto
    have room: "make_room ns = make_room (a @ b)" using True p r by (subst make_room.simps) (simp add: OBSERVE_MAX_def)
    have none: "filter sn_observed a = []" using ns(3) by (simp add: filter_empty_conv list_all_iff)
    have IH: "length (filter sn_observed (make_room (a @ b))) < 8 \<and>
        filter (\<lambda>n. \<not> sn_observed n) (make_room (a @ b)) = filter (\<lambda>n. \<not> sn_observed n) (a @ b) \<and>
        set (make_room (a @ b)) \<subseteq> set (a @ b) \<and> (unlike (a @ b) \<longrightarrow> unlike (make_room (a @ b))) \<and>
        suffix (filter sn_observed (make_room (a @ b))) (filter sn_observed (a @ b))"
      using "1.IH" [of "length a"] True p r by (simp add: OBSERVE_MAX_def)
    have "unlike ns \<longrightarrow> unlike (a @ b)" using ns(2) none unfolding ns(1) by (simp add: unlike_def)
    then show ?thesis unfolding room using IH ns(2) none unfolding ns(1) by (auto simp: suffix_Cons)
  next
    case False
    then have "make_room ns = ns" by (subst make_room.simps) (simp add: OBSERVE_MAX_def)
    then show ?thesis using False by simp
  qed
qed

abbreviation live :: "'re credentials \<Rightarrow> secret_needle list" where
  "live c \<equiv> cs_needles (cr_current c)"

abbreviation declared_part :: "secret_needle list \<Rightarrow> secret_needle list" where
  "declared_part ns \<equiv> filter (\<lambda>n. \<not> sn_observed n) ns"

abbreviation learned_part :: "secret_needle list \<Rightarrow> secret_needle list" where
  "learned_part ns \<equiv> filter sn_observed ns"

lemma declared_parts: "declared ns \<Longrightarrow> declared_part ns = ns \<and> learned_part ns = []"
  by (auto simp: list_all_iff filter_id_conv filter_empty_conv)

lemma observe_cases:
  obtains (kept) "observe snap header val dest c = (False, c)"
  | (new) tok ns where "tok = credential_in header val" "16 \<le> length tok" "tok \<notin> bytes_of snap" "tok \<notin> bytes_of (live c)"
      "ns = make_room (live c) @ [needle_learned (''observed:'' @ header) tok (service_of c dest)]"
      "observe snap header val dest c =
        (True, c\<lparr>cr_masking := masking_after (cr_masking c) ns, cr_current := \<lparr>cs_injections = cs_injections (cr_current c), cs_needles = ns\<rparr>\<rparr>)"
proof (cases "length (credential_in header val) < max OBSERVE_MIN_LEN (cr_min_len c) \<or>
    credential_in header val \<in> bytes_of snap \<or> credential_in header val \<in> bytes_of (live c)")
  case True
  then show ?thesis using kept by (auto simp: observe_def Let_def)
next
  case False
  show ?thesis
    by (rule new [of "credential_in header val"])
      (use False in \<open>auto simp: observe_def Let_def record_masking_def OBSERVE_MIN_LEN_def\<close>)
qed

text \<open>What holds of every state of a run.\<close>

definition sound_state :: "nat \<Rightarrow> 're credentials \<Rightarrow> bool" where
  "sound_state k c \<longleftrightarrow>
     length (learned_part (live c)) \<le> 8 \<and> unlike (live c) \<and>
     bytes_of (learned_part (live c)) \<inter> bytes_of (declared_part (live c)) = {} \<and>
     list_all (\<lambda>n. 16 \<le> length (sn_bytes n) \<and>
        (\<exists>name service. n = needle_learned name (sn_bytes n) service)) (learned_part (live c)) \<and>
     list_all (\<lambda>n. sn_dest n = None) (declared_part (live c)) \<and>
     bytes_of (live c) \<subseteq> bytes_of (cr_masking c) \<and> unlike (cr_masking c) \<and>
     length (declared_part (live c)) \<le> k \<and> length (declared_part (cr_masking c)) \<le> k"

lemma learned_fields [simp]:
  "sn_observed (needle_learned name bytes service)" "sn_bytes (needle_learned name bytes service) = bytes"
  "sn_dest (needle_learned name bytes service) = Some service"
  by (simp_all add: needle_learned_def needle_named_def)

lemma needle_learned_self: "needle_learned name bytes service = needle_learned name' (sn_bytes (needle_learned name bytes service)) service'
    \<longleftrightarrow> name = name' \<and> service = service'"
  by (auto simp: needle_learned_def needle_named_def)

lemma sound_new: "declared needles \<Longrightarrow> sound_state (length needles) (Credentials_new injections needles min_len shared)"
  by (simp add: sound_state_def Credentials_new_def declared_parts unlike_def) (auto simp: list_all_iff)

lemma masking_after_declared:
  "length (declared_part (masking_after history ns)) \<le>
     length (declared_part history) + length (filter (\<lambda>n. \<not> sn_observed n \<and> sn_bytes n \<notin> bytes_of history) ns)"
  using masking_after_filter [of "\<lambda>n. \<not> sn_observed n" history ns] masking_merged_declared [of history ns]
  by (rule order_trans)

lemma sound_observe:
  assumes "sound_state k c"
  shows "sound_state k (snd (observe snap header val dest c))"
proof (cases rule: observe_cases [of snap header val dest c])
  case (new tok ns)
  let ?n = "needle_learned (''observed:'' @ header) tok (service_of c dest)"
  have l: "learned_part ns = learned_part (make_room (live c)) @ [?n]" and d: "declared_part ns = declared_part (live c)"
    using make_room_facts [of "live c"] by (simp_all add: new(5))
  have sub: "set (learned_part (make_room (live c))) \<subseteq> set (learned_part (live c))"
    using make_room_facts [of "live c"] by auto
  have "bytes_of (make_room (live c)) \<subseteq> bytes_of (cr_masking c)"
    using assms make_room_facts [of "live c"] by (force simp: sound_state_def)
  then have "filter (\<lambda>n. \<not> sn_observed n \<and> sn_bytes n \<notin> bytes_of (cr_masking c)) ns = []"
    by (auto simp: new(5) filter_empty_conv)
  then have m: "length (declared_part (masking_after (cr_masking c) ns)) \<le> k"
    using masking_after_declared [of "cr_masking c" ns] assms by (simp add: sound_state_def)
  have "unlike ns" using assms new(4) make_room_facts [of "live c"] l by (auto simp: sound_state_def unlike_def)
  moreover have "bytes_of (learned_part ns) \<inter> bytes_of (declared_part ns) = {}"
    using assms new(4) sub unfolding l d by (auto simp: sound_state_def)
  moreover have "length (learned_part ns) \<le> 8" using make_room_facts [of "live c"] by (simp add: l)
  moreover have "list_all (\<lambda>n. 16 \<le> length (sn_bytes n) \<and>
        (\<exists>name service. n = needle_learned name (sn_bytes n) service)) (learned_part ns)"
    using assms new(2) sub unfolding l by (auto simp: sound_state_def list_all_iff)
  ultimately show ?thesis
    using assms m masking_after_live [of ns "cr_masking c"] masking_after_unlike [of "cr_masking c" ns]
    by (simp add: sound_state_def new(6) d)
qed (use assms in simp)

lemma replace_fields:
  "cr_current (Credentials_replace s c) =
     \<lparr>cs_injections = cs_injections s, cs_needles = cs_needles s @ filter (\<lambda>n. sn_bytes n \<notin> bytes_of (cs_needles s)) (learned_part (live c))\<rparr>"
  "cr_generation (Credentials_replace s c) = cr_generation c + 1"
  "cr_masking (Credentials_replace s c) = masking_after (cr_masking c) (live (Credentials_replace s c))"
  "cr_min_len (Credentials_replace s c) = cr_min_len c"
  "cr_shared_credential (Credentials_replace s c) = cr_shared_credential c"
  by (simp_all add: Credentials_replace_def Let_def record_masking_def)

lemma sound_replace:
  assumes "sound_state k c" "declared (cs_needles s)"
  shows "sound_state (k + length (cs_needles s)) (Credentials_replace s c)"
proof -
  let ?c = "Credentials_replace s c"
  have l: "learned_part (live ?c) = filter (\<lambda>n. sn_bytes n \<notin> bytes_of (cs_needles s)) (learned_part (live c))"
    and d: "declared_part (live ?c) = cs_needles s"
    using declared_parts [OF assms(2)] by (auto simp: replace_fields filter_empty_conv intro!: filter_cong)
  have "length (filter (\<lambda>n. \<not> sn_observed n \<and> sn_bytes n \<notin> bytes_of (cr_masking c)) (live ?c)) \<le> length (cs_needles s)"
    using length_filter_le [of "\<lambda>n. sn_bytes n \<notin> bytes_of (cr_masking c)" "declared_part (live ?c)"]
    unfolding d [symmetric] by (simp add: conj_commute)
  then have m: "length (declared_part (cr_masking ?c)) \<le> k + length (cs_needles s)"
    using masking_after_declared [of "cr_masking c" "live ?c"] assms(1) by (simp add: sound_state_def replace_fields(3))
  have "unlike (live ?c)" using assms(1) unfolding unlike_def l
    by (rule_tac distinct_map_filter) (simp add: sound_state_def unlike_def)
  moreover have "length (learned_part (live ?c)) \<le> 8"
    using assms(1) length_filter_le [of "\<lambda>n. sn_bytes n \<notin> bytes_of (cs_needles s)" "learned_part (live c)"]
    by (simp add: sound_state_def l)
  moreover have "bytes_of (learned_part (live ?c)) \<inter> bytes_of (declared_part (live ?c)) = {}"
    unfolding l d by auto
  moreover have "list_all (\<lambda>n. sn_dest n = None) (declared_part (live ?c))"
    using assms(2) unfolding d by (simp add: list_all_iff)
  moreover have "bytes_of (live ?c) \<subseteq> bytes_of (cr_masking ?c)" "unlike (cr_masking ?c)"
    using masking_after_live [of "live ?c" "cr_masking c"] masking_after_unlike assms(1)
    by (simp_all add: replace_fields(3) sound_state_def)
  ultimately show ?thesis using assms(1) m unfolding sound_state_def
    by (auto simp: d l list_all_iff)
qed

lemma sound_weaken: "sound_state k c \<Longrightarrow> k \<le> k' \<Longrightarrow> sound_state k' c"
  by (auto simp: sound_state_def)

lemma run_sound: "cred_run n k cs \<Longrightarrow> list_all (sound_state k) cs"
proof (induction rule: cred_run.induct)
  case (first needles injections min_len shared)
  then show ?case by (simp add: sound_new)
next
  case (replaces n k c cs s)
  then show ?case using sound_replace [of k c s] sound_weaken [of k _ "k + length (cs_needles s)"]
    by (auto simp: list_all_iff)
next
  case (observes n k c cs earlier header val dest)
  then show ?case by (simp add: sound_observe [of k c])
qed

text \<open>Two states of one generation hold the same injections and the same declared needles.\<close>

definition declared_state :: "'re credentials \<Rightarrow> 're header_injection list \<times> secret_needle list" where
  "declared_state c = (cs_injections (cr_current c), declared_part (live c))"

lemma observe_same: "cr_generation (snd (observe snap header val dest c)) = cr_generation c \<and>
    declared_state (snd (observe snap header val dest c)) = declared_state c"
  using make_room_facts [of "live c"]
  by (cases rule: observe_cases [of snap header val dest c]) (auto simp: declared_state_def)

definition told_apart :: "'re credentials set \<Rightarrow> bool" where
  "told_apart S \<longleftrightarrow> (\<forall>a \<in> S. \<forall>b \<in> S. cr_generation a = cr_generation b \<longrightarrow> declared_state a = declared_state b)"

lemma told_apart_new: "told_apart S \<Longrightarrow> \<forall>a \<in> S. cr_generation a \<noteq> cr_generation x \<Longrightarrow> told_apart (insert x S)"
  unfolding told_apart_def by (metis insert_iff)

lemma told_apart_again:
  "told_apart S \<Longrightarrow> y \<in> S \<Longrightarrow> cr_generation x = cr_generation y \<Longrightarrow> declared_state x = declared_state y \<Longrightarrow>
    told_apart (insert x S)"
  unfolding told_apart_def by (metis insert_iff)

lemma run_generations:
  assumes "cred_run n k cs" "n < 2 ^ 64"
  shows "unat (cr_generation (hd cs)) = n \<and> (\<forall>a \<in> set cs. unat (cr_generation a) \<le> n) \<and> told_apart (set cs)"
  using assms
proof (induction rule: cred_run.induct)
  case (first needles injections min_len shared)
  then show ?case by (simp add: Credentials_new_def told_apart_def)
next
  case (replaces n k c cs s)
  let ?c = "Credentials_replace s c"
  have IH: "unat (cr_generation c) = n" "\<forall>a \<in> set (c # cs). unat (cr_generation a) \<le> n" "told_apart (set (c # cs))"
    using replaces.IH replaces.prems by simp_all
  have g: "unat (cr_generation ?c) = Suc n"
    using IH(1) replaces.prems by (simp add: replace_fields unat_word_ariths(1))
  then have "\<forall>a \<in> set (c # cs). cr_generation a \<noteq> cr_generation ?c" using IH(2) by fastforce
  then have "told_apart (set (?c # c # cs))" using told_apart_new [OF IH(3)] by simp
  then show ?case using g IH(2) by auto
next
  case (observes n k c cs earlier header val dest)
  let ?c = "snd (observe (cs_needles (snapshot earlier)) header val dest c)"
  have IH: "unat (cr_generation c) = n" "\<forall>a \<in> set (c # cs). unat (cr_generation a) \<le> n" "told_apart (set (c # cs))"
    using observes.IH observes.prems by simp_all
  have same: "cr_generation ?c = cr_generation c" "declared_state ?c = declared_state c"
    using observe_same [of _ header val dest c] by blast+
  then have "told_apart (set (?c # c # cs))" using told_apart_again [OF IH(3), of c ?c] by simp
  then show ?case using IH(1,2) same by auto
qed

lemma masking_keeps_declared:
  assumes "unlike history" "length (declared_part history) + length (filter (\<lambda>n. \<not> sn_observed n \<and> sn_bytes n \<notin> bytes_of history) ns) \<le> k"
    and "length ns \<le> k + 8" "2 * k + 8 \<le> 256" "m \<in> set history" "\<not> sn_observed m"
  shows "m \<in> set (masking_after history ns)"
proof (rule masking_after_keeps)
  let ?m = "masking_merged history ns" and ?p = "\<lambda>h. same_bytes (sn_bytes h) ns"
  show "m \<in> set ?m" using masking_merged_facts [of history ns] assms(5) by blast
  have "distinct (map sn_bytes (filter ?p (learned_part ?m)))"
    using masking_merged_unlike [OF assms(1), of ns] unfolding unlike_def by (rule distinct_map_filter)
  moreover have "set (map sn_bytes (filter ?p (learned_part ?m))) \<subseteq> bytes_of ns" by auto
  ultimately have "length (filter ?p (learned_part ?m)) \<le> card (bytes_of ns)"
    by (metis card_mono distinct_card finite_imageI List.finite_set length_map)
  also have "\<dots> \<le> k + 8" using card_image_le [of "set ns" sn_bytes] card_length [of ns] assms(3) by simp
  finally have "length (filter ?p (learned_part ?m)) \<le> k + 8" .
  moreover have "length (declared_part ?m) \<le> k" using masking_merged_declared [of history ns] assms(2) by simp
  moreover have "length (filter (\<lambda>h. \<not> sn_observed h \<or> ?p h) xs) = length (declared_part xs) + length (filter ?p (learned_part xs))" for xs
    by (induction xs) auto
  ultimately show "length (filter (\<lambda>h. \<not> sn_observed h \<or> ?p h) ?m) \<le> 256" using assms(4) by simp
qed (rule assms(6))

lemma run_keeps:
  assumes "cred_run n k cs" "2 * k + 8 \<le> 256" "a \<in> set cs" "m \<in> set (cr_masking a)" "\<not> sn_observed m"
  shows "m \<in> set (cr_masking (hd cs))"
  using assms
proof (induction arbitrary: a rule: cred_run.induct)
  case (replaces n k c cs s)
  let ?c = "Credentials_replace s c"
  have s: "sound_state k c" using run_sound [OF replaces.hyps(1)] by simp
  have d: "declared_part (live ?c) = cs_needles s"
    using declared_parts [OF replaces.hyps(2)] by (simp add: replace_fields filter_empty_conv)
  have "length (filter (\<lambda>n. \<not> sn_observed n \<and> sn_bytes n \<notin> bytes_of (cr_masking c)) (live ?c)) \<le> length (cs_needles s)"
    using length_filter_le [of "\<lambda>n. sn_bytes n \<notin> bytes_of (cr_masking c)" "declared_part (live ?c)"]
    unfolding d [symmetric] by (simp add: conj_commute)
  moreover have "length (filter (\<lambda>n. sn_bytes n \<notin> bytes_of (cs_needles s)) (learned_part (live c))) \<le> 8"
    using s length_filter_le [of "\<lambda>n. sn_bytes n \<notin> bytes_of (cs_needles s)" "learned_part (live c)"]
    unfolding sound_state_def by linarith
  ultimately have len: "length (filter (\<lambda>n. \<not> sn_observed n \<and> sn_bytes n \<notin> bytes_of (cr_masking c)) (live ?c)) \<le> length (cs_needles s)"
    "length (live ?c) \<le> length (cs_needles s) + 8"
    by (simp_all add: replace_fields(1) del: filter_filter)
  have room: "unlike (cr_masking c)" "length (declared_part (cr_masking c)) \<le> k"
    using s unfolding sound_state_def by blast+
  have keep: "m \<in> set (cr_masking ?c)" if "m \<in> set (cr_masking c)"
    unfolding replace_fields(3)
    by (rule masking_keeps_declared [OF room(1) _ _ replaces.prems(1) that replaces.prems(4)])
      (use room(2) len in linarith)+
  show ?case using replaces.IH [of a] replaces.prems keep by auto
next
  case (observes n k c cs earlier header val dest)
  let ?c = "snd (observe (cs_needles (snapshot earlier)) header val dest c)"
  have s: "sound_state k c" and s': "sound_state k ?c"
    using run_sound [OF observes.hyps(1)] sound_observe [of k c] by simp_all
  have keep: "m \<in> set (cr_masking ?c)" if m: "m \<in> set (cr_masking c)"
  proof (cases rule: observe_cases [of "cs_needles (snapshot earlier)" header val dest c])
    case (new tok ns)
    have "bytes_of (make_room (live c)) \<subseteq> bytes_of (cr_masking c)"
      using s make_room_facts [of "live c"] by (force simp: sound_state_def)
    then have "filter (\<lambda>n. \<not> sn_observed n \<and> sn_bytes n \<notin> bytes_of (cr_masking c)) ns = []"
      by (auto simp: new(5) filter_empty_conv)
    moreover have "length ns = length (declared_part ns) + length (learned_part ns)"
      using sum_length_filter_compl [of sn_observed ns] by simp
    ultimately show ?thesis
      using s s' m observes.prems masking_keeps_declared [of "cr_masking c" ns k m] by (simp add: new(6) sound_state_def)
  qed (use m in simp)
  show ?case using observes.IH [of a] observes.prems keep by auto
qed simp

text \<open>A declared value that no thread ever learned enters the history as declared the moment it is live.\<close>

lemma masking_step:
  "m \<in> set (cr_masking (Credentials_replace s c)) \<Longrightarrow> m \<in> set (cr_masking c) \<or> m \<in> set (live (Credentials_replace s c))"
  "m \<in> set (cr_masking (snd (observe snap header val dest c))) \<Longrightarrow>
    m \<in> set (cr_masking c) \<or> m \<in> set (live (snd (observe snap header val dest c)))"
proof -
  have after: "m \<in> set (masking_after history ns) \<Longrightarrow> m \<in> set history \<or> m \<in> set ns" for history ns
    using masking_after_set [of history ns] masking_merged_facts [of history ns] by blast
  show "m \<in> set (cr_masking c) \<or> m \<in> set (live (Credentials_replace s c))" if "m \<in> set (cr_masking (Credentials_replace s c))"
    using that after unfolding replace_fields(3) by blast
  show "m \<in> set (cr_masking c) \<or> m \<in> set (live (snd (observe snap header val dest c)))"
    if "m \<in> set (cr_masking (snd (observe snap header val dest c)))"
    using that by (cases rule: observe_cases [of snap header val dest c]) (auto dest: after)
qed

lemma run_taught:
  assumes "cred_run n k cs" "a \<in> set cs" "m \<in> set (cr_masking a)" "sn_observed m"
  shows "\<exists>b \<in> set cs. m \<in> set (live b)"
  using assms
proof (induction arbitrary: a rule: cred_run.induct)
  case (first needles injections min_len shared)
  then show ?case by (auto simp: Credentials_new_def list_all_iff)
next
  case (replaces n k c cs s)
  then consider "a = Credentials_replace s c" | "a \<in> set (c # cs)" by auto
  then show ?case
  proof cases
    case 1
    then show ?thesis using masking_step(1) [of m s c] replaces.IH [of c] replaces.prems by auto
  next
    case 2
    then show ?thesis using replaces.IH [of a] replaces.prems by auto
  qed
next
  case (observes n k c cs earlier header val dest)
  then consider "a = snd (observe (cs_needles (snapshot earlier)) header val dest c)" | "a \<in> set (c # cs)" by auto
  then show ?case
  proof cases
    case 1
    then show ?thesis using masking_step(2) [of m _ header val dest c] observes.IH [of c] observes.prems by auto
  next
    case 2
    then show ?thesis using observes.IH [of a] observes.prems by auto
  qed
qed

lemma run_declared_masked:
  assumes "cred_run n k cs" "a \<in> set cs" "d \<in> set (live a)" "\<not> sn_observed d"
  shows "\<exists>m \<in> set (cr_masking a). sn_bytes m = sn_bytes d \<and> (sn_observed m \<longrightarrow> (\<exists>b \<in> set cs. m \<in> set (live b)))"
proof -
  have "sn_bytes d \<in> bytes_of (cr_masking a)"
    using run_sound [OF assms(1)] assms(2,3) by (auto simp: list_all_iff sound_state_def)
  then show ?thesis using run_taught [OF assms(1,2)] by auto
qed


text \<open>C24. A pool key that names the generation of the set a request was sent with cannot confuse two sets:
  with fewer than 2^64 replacements, two states of a launch with one generation hold the same
  injections and the same declared values.\<close>

theorem generation_names_set:
  assumes "cred_run n k cs" "n < 2 ^ 64" "a \<in> set cs" "b \<in> set cs"
    and "snapshot_with_generation a = (sa, g)" "snapshot_with_generation b = (sb, g)"
  shows "cs_injections sa = cs_injections sb \<and>
    filter (\<lambda>n. \<not> sn_observed n) (cs_needles sa) = filter (\<lambda>n. \<not> sn_observed n) (cs_needles sb)"
proof -
  have s: "sa = cr_current a" "sb = cr_current b" "cr_generation a = cr_generation b"
    using assms(5,6) by (simp_all add: snapshot_with_generation_def)
  have "told_apart (set cs)" using run_generations [OF assms(1,2)] by blast
  then have "declared_state a = declared_state b" using assms(3,4) s(3) unfolding told_apart_def by blast
  then show ?thesis by (simp add: declared_state_def s)
qed


text \<open>A run: a launch with one declared value, an observed sign-in, and a replacement of the declared value.\<close>

definition sample_token :: string where
  "sample_token = ''app-signed-in-0123456789''"

definition sample0 :: "unit credentials" where
  "sample0 = Credentials_new [] [needle_named ''key'' ''declared-0''] 8 [[''*.example.com'', ''login.example.org'']]"

definition sample1 :: "unit credentials" where
  "sample1 = snd (observe (cs_needles (snapshot sample0)) ''authorization'' (''BEARER '' @ sample_token) ''api.example.com'' sample0)"

definition sample2 :: "unit credentials" where
  "sample2 = Credentials_replace \<lparr>cs_injections = [], cs_needles = [needle_named ''key'' ''declared-1'']\<rparr> sample1"

lemma sample_run: "cred_run 1 2 [sample2, sample1, sample0]"
proof -
  have named: "declared [needle_named name bytes]" for name bytes by (simp add: needle_named_def)
  have "cred_run 0 1 [sample0]" using cred_run.first [OF named] unfolding sample0_def by simp
  then have "cred_run 0 1 [sample1, sample0]" unfolding sample1_def by (rule cred_run.observes) simp
  from cred_run.replaces [OF this, of "\<lparr>cs_injections = [], cs_needles = [needle_named ''key'' ''declared-1'']\<rparr>"] named
  show ?thesis unfolding sample2_def by (simp add: numeral_2_eq_2)
qed

lemma sample_live:
  "map sn_bytes (cs_needles (snapshot sample2)) = [''declared-1'', sample_token]"
  "map sn_bytes (masking_needles sample2) = [''declared-0'', sample_token, ''declared-1'']"
  by code_simp+


theorem generation_names_set_witness:
  "filter (\<lambda>n. \<not> sn_observed n) (cs_needles (snapshot sample1)) =
   filter (\<lambda>n. \<not> sn_observed n) (cs_needles (snapshot sample0))"
proof -
  have "cr_generation sample1 = 0" "cr_generation sample0 = 0" by code_simp+
  then show ?thesis
    using generation_names_set [OF sample_run _ _ _ , of sample1 sample0 "snapshot sample1" 0 "snapshot sample0"]
    by (simp add: snapshot_with_generation_def snapshot_def)
qed


end
