(* ===== verification/Credential_Use.thy ===== *)
theory Credential_Use
  imports Credential_Runs
begin

text \<open>
  What a launch's credentials do to a request (src/src/sandbox/proxy/inject.rs and mod.rs): the
  credential read out of a header, the outbound tripwire, and the pairs the injections put on a
  request.
\<close>

section \<open>What is learned\<close>

lemma service_covers_self: "list_ex (\<lambda>entry. shared_credential_covers entry (host_key dest)) (service_of c dest)"
proof -
  have star: "strip_suffix d (CHR ''*'' # CHR ''.'' # d) = Some ''*.''" for d
    using strip_suffix_append [of d "''*.''"] by simp
  have self: "shared_credential_covers h h" for h
    by (auto simp: shared_credential_covers_def apex_or_subdomain_def strip_prefix_Some star ends_with_iff suffix_def
        split: option.splits)
  show ?thesis
  proof (cases "List.find (\<lambda>grp. list_ex (\<lambda>entry. shared_credential_covers entry (host_key dest)) grp) (cr_shared_credential c)")
    case None
    then show ?thesis using self by (simp add: service_of_def)
  next
    case (Some grp)
    then show ?thesis using find_SomeD [OF Some] by (simp add: service_of_def)
  qed
qed

context substring_finder begin

lemma carries_secret_iff:
  "carries_secret finder head ns dest \<longleftrightarrow>
    (\<exists>n \<in> set ns. scanned_for n dest \<and> sn_bytes n \<noteq> [] \<and> sublist (sn_bytes n) head)"
proof -
  have "find_in finder n head 0 \<noteq> None \<longleftrightarrow> sn_bytes n \<noteq> [] \<and> sublist (sn_bytes n) head" for n
    using find_in_Some [of n head 0] find_in_None [of n head 0]
    by (cases "find_in finder n head 0"; cases "sn_bytes n = []") (auto simp: sublist_found_at find_in_def)
  then show ?thesis by (auto simp: carries_secret_def list_ex_iff)
qed

end

lemma dropWhile_trim:
  "suffix (trim_start s) s" "prefix (trim_end s) s"
proof -
  show "suffix (trim_start s) s"
  proof (induction s rule: trim_start.induct)
    case (1 s)
    then show ?case by (subst trim_start.simps)
        (auto simp: strip_white_def split: option.splits intro: suffix_order.trans [OF _ suffix_drop])
  qed
  show "prefix (trim_end s) s"
  proof (induction s rule: trim_end.induct)
    case (1 s)
    then show ?case by (subst trim_end.simps)
        (auto simp: strip_white_end_def split: option.splits intro: prefix_order.trans [OF _ take_is_prefix])
  qed
qed

lemma trim_sublist: "sublist (trim s) s"
  using dropWhile_trim(2) [of "trim_start s"] dropWhile_trim(1) [of s]
  by (auto simp: trim_def intro: sublist_order.order_trans prefix_imp_sublist suffix_imp_sublist)

lemma known_scheme_sublist: "known_scheme schemes val = Some tok \<Longrightarrow> sublist tok val"
  by (induction schemes) (auto split: if_splits intro: sublist_order.order_trans [OF trim_sublist sublist_drop])

lemma credential_in_sublist: "sublist (credential_in header val) val"
proof -
  have split: "sublist (trim b) v" if "split_once CHR '' '' v = Some (a, b)" for a b v :: string
  proof -
    have "v = (a @ [CHR '' '']) @ b" using that by (simp add: split_once_Some)
    then have "suffix b v" unfolding suffix_def by blast
    then show ?thesis by (blast intro: sublist_order.order_trans [OF trim_sublist suffix_imp_sublist])
  qed
  show ?thesis
  proof (cases "known_scheme [''bearer '', ''basic '', ''token ''] (trim val)")
    case (Some tok)
    then show ?thesis using sublist_order.order_trans [OF known_scheme_sublist [OF Some] trim_sublist]
      by (simp only: credential_in_def Let_def option.case)
  next
    case None
    have "credential_in header val = trim val \<or>
        (\<exists>a b. split_once CHR '' '' (trim val) = Some (a, b) \<and> credential_in header val = trim b)"
      by (cases "split_once CHR '' '' (trim val)")
        (simp_all only: credential_in_def Let_def None option.case if_cancel, auto)
    then show ?thesis using trim_sublist [of val] split by (metis sublist_order.order_trans)
  qed
qed

text \<open>A text that begins and ends with a visible ASCII byte has nothing to trim.\<close>

definition visible :: "char \<Rightarrow> bool" where
  "visible b \<longleftrightarrow> 0x21 \<le> byte b \<and> byte b \<le> 0x7e"

lemma white_space_ends: "list_all (\<lambda>w. w \<noteq> [] \<and> \<not> visible (hd w) \<and> \<not> visible (last w) \<and>
    list_all (\<lambda>b. \<not> visible b) w) white_space"
  unfolding white_space_code by (simp add: visible_def)

lemma trim_visible: "s \<noteq> [] \<Longrightarrow> visible (hd s) \<Longrightarrow> visible (last s) \<Longrightarrow> trim s = s"
proof -
  assume s: "s \<noteq> []" "visible (hd s)" "visible (last s)"
  have "\<not> prefix w s" "\<not> suffix w s" if "w \<in> set white_space" for w
    using s white_space_ends that by (auto simp: list_all_iff prefix_def suffix_def hd_append last_append split: if_splits)
  then have "strip_white s = None" "strip_white_end s = None"
    by (auto simp: strip_white_def strip_white_end_def str_simps find_None_iff2 list_all_iff split: option.splits dest: find_SomeD)
  then show ?thesis by (simp add: trim_def trim_start.simps trim_end.simps)
qed

lemma has_white_visible: "list_all visible s \<Longrightarrow> \<not> has_white s"
  using white_space_ends by (auto simp: has_white_def list_ex_iff list_all_iff str_simps sublist_def dest: hd_in_set)

lemma visible_letters: "list_all visible s \<Longrightarrow> s \<noteq> [] \<Longrightarrow> visible (hd s) \<and> visible (last s)"
  by (simp add: list_all_iff)

lemma auth_scheme_visible: "is_auth_scheme s \<Longrightarrow> list_all visible s \<and> s \<noteq> [] \<and> CHR '' '' \<notin> set s"
proof -
  assume "is_auth_scheme s"
  moreover have "visible b \<and> b \<noteq> CHR '' ''" if "is_ascii_alphanumeric b \<or> b \<in> set ''!#$%&'' \<or> b = CHR 0x27 \<or> b \<in> set ''*+-.^_`|~''" for b
    using that by (auto simp: visible_def ascii_classes)
  ultimately show ?thesis by (auto simp: is_auth_scheme_def list_all_iff)
qed

lemma eq_ignore_case_length: "eq_ignore_case a b \<Longrightarrow> length a = length b"
  by (metis eq_ignore_case_def length_to_ascii_lowercase)

lemma known_scheme_Cons:
  "known_scheme (scheme # schemes) val =
     (if eq_ignore_case (take (length scheme) val) scheme then Some (trim (drop (length scheme) val))
      else known_scheme schemes val)"
  using eq_ignore_case_length [of "take (length scheme) val" scheme] by auto

lemma space_lower: "ascii_lower c = CHR '' '' \<longleftrightarrow> c = CHR '' ''"
  by (rule ascii_lower_eq_iff) (simp add: ascii_classes)

lemma space_lower_self: "ascii_lower CHR '' '' = CHR '' ''"
  by (simp add: space_lower)

lemma scheme_at:
  assumes "CHR '' '' \<notin> set word" "CHR '' '' \<notin> set tok"
  shows "eq_ignore_case (take (length (w @ '' '')) (word @ '' '' @ tok)) (w @ '' '') \<longleftrightarrow> eq_ignore_case word w"
proof
  let ?v = "word @ '' '' @ tok"
  assume e: "eq_ignore_case (take (length (w @ '' '')) ?v) (w @ '' '')"
  then have l: "length w < length ?v" using eq_ignore_case_length [OF e] by simp
  have "to_ascii_lowercase (take (length (w @ '' '')) ?v) ! length w = to_ascii_lowercase (w @ '' '') ! length w"
    using e by (simp only: eq_ignore_case_def)
  moreover have "to_ascii_lowercase (w @ '' '') ! length w = ascii_lower CHR '' ''"
    by (simp add: to_ascii_lowercase_def nth_append)
  moreover have "to_ascii_lowercase (take (length (w @ '' '')) ?v) ! length w = ascii_lower (?v ! length w)"
    using l by (simp only: to_ascii_lowercase_def take_map [symmetric]) (simp del: map_append append.simps)
  ultimately have "?v ! length w = CHR '' ''" using space_lower by metis
  moreover have "?v ! length w \<in> set word" if "length w < length word"
    using that by (simp add: nth_append)
  moreover have "?v ! length w \<in> set tok" if "length word < length w"
    using that l by (simp add: nth_append nth_Cons')
  ultimately have "length w = length word" using assms by (metis linorder_neqE_nat)
  then show "eq_ignore_case word w" using e by (simp add: eq_ignore_case_def)
next
  assume "eq_ignore_case word w"
  moreover from this have "length word = length w" by (rule eq_ignore_case_length)
  ultimately show "eq_ignore_case (take (length (w @ '' '')) (word @ '' '' @ tok)) (w @ '' '')"
    by (simp add: eq_ignore_case_def)
qed

lemma known_scheme_split:
  assumes "CHR '' '' \<notin> set word" "CHR '' '' \<notin> set tok" "trim tok = tok"
  shows "known_scheme (map (\<lambda>w. w @ '' '') ws) (word @ '' '' @ tok) = (if list_ex (eq_ignore_case word) ws then Some tok else None)"
proof (induction ws)
  case (Cons w ws)
  have "trim (drop (length (w @ '' '')) (word @ '' '' @ tok)) = tok" if "eq_ignore_case word w"
    using eq_ignore_case_length [OF that] assms(3) by simp
  then show ?case using Cons scheme_at [OF assms(1,2), of w]
    by (cases "eq_ignore_case word w") (simp_all only: list.map known_scheme_Cons if_True if_False simp_thms, simp_all)
qed simp

lemma known_scheme_none:
  assumes "CHR '' '' \<notin> set tok"
  shows "known_scheme (map (\<lambda>w. w @ '' '') ws) tok = None"
proof (induction ws)
  case (Cons w ws)
  have "\<not> eq_ignore_case (take (length (w @ '' '')) tok) (w @ '' '')"
  proof
    assume e: "eq_ignore_case (take (length (w @ '' '')) tok) (w @ '' '')"
    have "CHR '' '' \<in> set (to_ascii_lowercase (w @ '' ''))" by (simp add: to_ascii_lowercase_def space_lower_self)
    then have "CHR '' '' \<in> set (to_ascii_lowercase (take (length (w @ '' '')) tok))" using e by (simp add: eq_ignore_case_def)
    then show False using assms by (auto simp: to_ascii_lowercase_def space_lower dest!: sym [of "CHR '' ''"] in_set_takeD)
  qed
  then show ?case using Cons by (simp only: list.map known_scheme_Cons if_False)
qed simp

text \<open>The credential learned is the bare token, however it is spelled: behind \<open>Bearer\<close>, \<open>Basic\<close> or
  \<open>Token\<close> in any casing in any header, behind any one scheme word in \<open>Authorization\<close>, and alone; and
  whatever the value is, what is learned occurs in it.\<close>

theorem credential_in_token:
  assumes "list_all visible tok" "tok \<noteq> []"
  shows "(\<forall>word. list_ex (eq_ignore_case word) [''bearer'', ''basic'', ''token''] \<and> list_all visible word \<longrightarrow>
      credential_in header (word @ '' '' @ tok) = tok) \<and>
    (\<forall>word. eq_ignore_case header ''authorization'' \<and> is_auth_scheme word \<longrightarrow>
      credential_in header (word @ '' '' @ tok) = tok) \<and>
    credential_in header tok = tok \<and> sublist (credential_in header val) val"
proof -
  let ?ws = "[''bearer'', ''basic'', ''token'']"
  have ws: "map (\<lambda>w. w @ '' '') ?ws = [''bearer '', ''basic '', ''token '']" by simp
  have tok: "trim tok = tok" "\<not> has_white tok" "CHR '' '' \<notin> set tok"
    using visible_letters [OF assms] assms has_white_visible trim_visible by (auto simp: visible_def list_all_iff)
  have step: "credential_in header (word @ '' '' @ tok) =
      (if list_ex (eq_ignore_case word) ?ws \<or> eq_ignore_case header ''authorization'' \<and> is_auth_scheme word then tok else word @ '' '' @ tok)"
    if "list_all visible word" "word \<noteq> []" for word
  proof -
    have "CHR '' '' \<notin> set word" using that(1) by (auto simp: visible_def list_all_iff)
    moreover from this have "split_once CHR '' '' (word @ '' '' @ tok) = Some (word, tok)" by (simp add: split_once_Some)
    moreover have "trim (word @ '' '' @ tok) = word @ '' '' @ tok"
      using that assms visible_letters by (simp add: trim_visible)
    ultimately show ?thesis
      unfolding credential_in_def Let_def ws [symmetric] using known_scheme_split [OF _ tok(3,1), of word ?ws] tok assms(2) by auto
  qed
  have "credential_in header tok = tok"
    unfolding credential_in_def Let_def ws [symmetric] tok(1) known_scheme_none [OF tok(3)]
    using tok(3) split_once_None [of "CHR '' ''" tok] by simp
  moreover have "word \<noteq> []" if "list_ex (eq_ignore_case word) ?ws" for word
    using that by (auto simp: eq_ignore_case_def to_ascii_lowercase_def)
  ultimately show ?thesis using step auth_scheme_visible credential_in_sublist [of header val] by simp
qed

theorem credential_in_token_witness:
  "credential_in ''X-Api-Key'' ''bEaReR s3cret-token'' = ''s3cret-token'' \<and>
   credential_in ''Authorization'' ''ApiKey s3cret-token'' = ''s3cret-token'' \<and>
   credential_in ''Authorization'' ''s3cret-token'' = ''s3cret-token''"
proof -
  have tok: "list_all visible ''s3cret-token''" "''s3cret-token'' \<noteq> []" by code_simp+
  have "list_ex (eq_ignore_case ''bEaReR'') [''bearer'', ''basic'', ''token''] \<and> list_all visible ''bEaReR''"
    "eq_ignore_case ''Authorization'' ''authorization'' \<and> is_auth_scheme ''ApiKey''" by code_simp+
  then have "credential_in ''X-Api-Key'' (''bEaReR'' @ '' '' @ ''s3cret-token'') = ''s3cret-token''"
    "credential_in ''Authorization'' (''ApiKey'' @ '' '' @ ''s3cret-token'') = ''s3cret-token''"
    using credential_in_token [OF tok] by blast+
  then show ?thesis using credential_in_token [OF tok, of "''Authorization''"] by simp
qed

text \<open>C26. A credential the cage is seen to send may go on travelling to its own service and nowhere else.
  Once it is learned, a head that carries it is refused on every host its service does not cover; on
  the host it was seen on, nothing is refused that was not refused before.\<close>

theorem learned_travels_own_service:
  assumes "substring_finder finder" "observe snap header val dest c = (True, c')"
    and "sublist (credential_in header val) head"
  shows "(\<forall>host. \<not> list_ex (\<lambda>entry. shared_credential_covers entry (host_key host)) (service_of c dest) \<longrightarrow>
      carries_secret finder head (cs_needles (snapshot c')) host) \<and>
    (carries_secret finder any (cs_needles (snapshot c')) dest \<longrightarrow>
      carries_secret finder any (cs_needles (snapshot c)) dest)"
proof (cases rule: observe_cases [of snap header val dest c])
  case (new tok ns)
  let ?n = "needle_learned (''observed:'' @ header) tok (service_of c dest)"
  have live: "cs_needles (snapshot c') = make_room (live c) @ [?n]" and tok: "tok \<noteq> []"
    using assms(2) new by (auto simp: snapshot_def)
  have scanned: "scanned_for ?n host \<longleftrightarrow> \<not> list_ex (\<lambda>entry. shared_credential_covers entry (host_key host)) (service_of c dest)" for host
    by (simp add: scanned_for_def)
  have "carries_secret finder head (cs_needles (snapshot c')) host" if "scanned_for ?n host" for host
    unfolding substring_finder.carries_secret_iff [OF assms(1)] live using that tok assms(3) new(1) by auto
  moreover have "carries_secret finder any (cs_needles (snapshot c)) dest" if "carries_secret finder any (cs_needles (snapshot c')) dest"
  proof -
    have "\<not> scanned_for ?n dest" using scanned service_covers_self by blast
    then show ?thesis using that make_room_facts [of "live c"]
      unfolding substring_finder.carries_secret_iff [OF assms(1)] live by (auto simp: snapshot_def)
  qed
  ultimately show ?thesis using scanned by blast
qed (use assms(2) in simp)

theorem learned_travels_own_service_witness:
  "carries_secret first_at (''GET / HTTP/1.1 x-key: '' @ sample_token) (cs_needles (snapshot sample1)) ''evil.example.net'' \<and>
   \<not> carries_secret first_at (''GET / HTTP/1.1 x-key: '' @ sample_token) (cs_needles (snapshot sample1)) ''api.example.com''"
proof -
  have o: "observe (cs_needles (snapshot sample0)) ''authorization'' (''BEARER '' @ sample_token) ''api.example.com'' sample0 = (True, sample1)"
  proof -
    have f: "fst (observe (cs_needles (snapshot sample0)) ''authorization'' (''BEARER '' @ sample_token) ''api.example.com'' sample0) = True" by code_simp
    show ?thesis unfolding sample1_def by (rule prod_eqI) (simp_all only: fst_conv snd_conv f)
  qed
  have tok: "credential_in ''authorization'' (''BEARER '' @ sample_token) = sample_token" by code_simp
  have s: "sublist (credential_in ''authorization'' (''BEARER '' @ sample_token)) (''GET / HTTP/1.1 x-key: '' @ sample_token)"
    unfolding tok by (rule suffix_imp_sublist) (simp only: suffix_def, rule exI, rule refl)
  have far: "\<not> list_ex (\<lambda>entry. shared_credential_covers entry (host_key ''evil.example.net'')) (service_of sample0 ''api.example.com'')"
    and own: "\<not> carries_secret first_at (''GET / HTTP/1.1 x-key: '' @ sample_token) (cs_needles (snapshot sample0)) ''api.example.com''"
    by code_simp+
  note travels = learned_travels_own_service [OF left_to_right.substring_finder_axioms o s]
  show ?thesis
  proof
    show "carries_secret first_at (''GET / HTTP/1.1 x-key: '' @ sample_token) (cs_needles (snapshot sample1)) ''evil.example.net''"
      by (rule travels [THEN conjunct1, THEN spec, THEN mp, OF far])
    show "\<not> carries_secret first_at (''GET / HTTP/1.1 x-key: '' @ sample_token) (cs_needles (snapshot sample1)) ''api.example.com''"
      by (rule notI, rule notE [OF own], rule travels [THEN conjunct2, THEN mp])
  qed
qed

declare substitute_loop.simps [code]

section \<open>The pairs an injection puts on a request\<close>

lemma substitute_loop_returns: "sm_marker m \<noteq> [] \<Longrightarrow> \<exists>y. substitute_loop m frame out at = Some y"
proof (induction "length frame - at" arbitrary: out at rule: less_induct)
  case less
  then show ?case by (subst substitute_loop.simps) (auto simp: neq_Nil_conv)
qed

lemma substitute_str_returns: "sm_marker m \<noteq> [] \<Longrightarrow> \<exists>y. substitute_str m val = Some y"
  using substitute_loop_returns [of m val "[]" 0] by (auto simp: substitute_str_def substitute_def)

lemma place_marker_returns: "(\<And>m. mk = Some m \<Longrightarrow> sm_marker m \<noteq> []) \<Longrightarrow> \<exists>hs'. place_marker mk hs = Some hs'"
proof (induction mk hs rule: place_marker.induct)
  case (2 mk name val hs)
  have "\<exists>v. (case mk of None \<Rightarrow> Some val | Some m \<Rightarrow> substitute_str m val) = Some v"
    using 2(2) substitute_str_returns by (cases mk) auto
  then obtain v where v: "(case mk of None \<Rightarrow> Some val | Some m \<Rightarrow> substitute_str m val) = Some v" by blast
  show ?case using 2(1) [OF v 2(2)] v by auto
qed simp

text \<open>What one injection contributes: its fixed pair, or the headers its plugin answered with, put the
  question of this request, with the marker replaced.\<close>

definition contributes ::
  "('s \<Rightarrow> u64 \<Rightarrow> sign_request \<Rightarrow> ((string + signature) \<times> 's) option) \<Rightarrow> 're credential_set \<Rightarrow> request_facts \<Rightarrow> nat \<Rightarrow>
    (string \<times> string) list \<Rightarrow> bool" where
  "contributes sign cs req i part \<longleftrightarrow>
     (case hi_form (cs_injections cs ! i) of
        Fixed header val \<Rightarrow> part = [(header, val)]
      | Signed s \<Rightarrow> \<exists>body st sig st'. sign_body s req = Inr body \<and>
          ask_signer sign (sg_signer s) (sign_question s req body) st = (Inr sig, st') \<and>
          place_marker (sg_marker s) (sig_headers sig) = Some part)"

lemma pairs_loop_parts:
  assumes "pairs_loop sign cs req ids out st = Some (Inr res, st')"
  shows "\<exists>parts. res = out @ concat parts \<and> list_all2 (contributes sign cs req) ids parts"
  using assms
proof (induction ids arbitrary: out st)
  case (Cons i ids)
  show ?case
  proof (cases "hi_form (cs_injections cs ! i)")
    case (Fixed header val)
    with Cons obtain parts where "res = (out @ [(header, val)]) @ concat parts" "list_all2 (contributes sign cs req) ids parts"
      by fastforce
    moreover have "contributes sign cs req i [(header, val)]" using Fixed by (simp add: contributes_def)
    ultimately show ?thesis by (intro exI [of _ "[(header, val)] # parts"]) simp
  next
    case (Signed s)
    then obtain body sig st1 hs where s: "sign_body s req = Inr body"
      "ask_signer sign (sg_signer s) (sign_question s req body) st = (Inr sig, st1)"
      "place_marker (sg_marker s) (sig_headers sig) = Some hs" "pairs_loop sign cs req ids (out @ hs) st1 = Some (Inr res, st')"
      using Cons.prems by (auto split: sum.splits prod.splits option.splits)
    from Cons.IH [OF s(4)] obtain parts where "res = (out @ hs) @ concat parts" "list_all2 (contributes sign cs req) ids parts" by blast
    moreover have "contributes sign cs req i hs" using s(1-3) Signed by (auto simp: contributes_def)
    ultimately show ?thesis by (intro exI [of _ "hs # parts"]) simp
  qed
qed simp

lemma sign_body_refusal: "sign_body s req = Inl r \<Longrightarrow> sf_signer r = sg_name s"
  by (auto simp: sign_body_def split: option.splits body_facts.splits if_splits)

lemma pairs_loop_refusal:
  assumes "pairs_loop sign cs req ids out st = Some (Inl r, st')"
  shows "\<exists>i \<in> set ids. \<exists>s. hi_form (cs_injections cs ! i) = Signed s \<and> sf_signer r = sg_name s"
  using assms
proof (induction ids arbitrary: out st)
  case (Cons i ids)
  show ?case
  proof (cases "hi_form (cs_injections cs ! i)")
    case (Fixed header val)
    then show ?thesis using Cons by simp
  next
    case (Signed s)
    then consider "sf_signer r = sg_name s" | out' st1 where "pairs_loop sign cs req ids out' st1 = Some (Inl r, st')"
      using Cons.prems sign_body_refusal by (fastforce split: sum.splits prod.splits option.splits)
    then show ?thesis using Signed Cons.IH by cases auto
  qed
qed simp

text \<open>\<open>SecretMarker::new\<close> never makes an empty marker.\<close>

definition marker_fit :: "'re credential_set \<Rightarrow> nat \<Rightarrow> bool" where
  "marker_fit cs i =
     (case hi_form (cs_injections cs ! i) of
        Signed s \<Rightarrow> (case sg_marker s of Some m \<Rightarrow> sm_marker m \<noteq> [] | None \<Rightarrow> True)
      | Fixed _ _ \<Rightarrow> True)"

lemma pairs_loop_returns:
  assumes "list_all (marker_fit cs) ids"
  shows "\<exists>y. pairs_loop sign cs req ids out st = Some y"
  using assms
proof (induction ids arbitrary: out st)
  case (Cons i ids)
  have rest: "\<exists>y. pairs_loop sign cs req ids out st = Some y" for out st using Cons by simp
  show ?case
  proof (cases "hi_form (cs_injections cs ! i)")
    case (Signed s)
    have "\<exists>hs'. place_marker (sg_marker s) hs = Some hs'" for hs
      using place_marker_returns [of "sg_marker s" hs] Cons.prems Signed
      by (cases "sg_marker s") (simp_all add: marker_fit_def)
    then show ?thesis using Signed rest
      by (cases "sign_body s req"; cases "ask_signer sign (sg_signer s) (sign_question s req (projr (sign_body s req))) st")
        (auto split: sum.split prod.split, metis option.simps(5))
  qed (use rest in simp)
qed simp

text \<open>C27. A request is never sent without its credential. While no marker is empty, forming the pairs ends;
  and then either every matched injection contributed, in order, its fixed pair or what its plugin
  signed for this very request, or the request is refused in the name of a matched signer.\<close>

theorem pairs_for_all_or_none:
  assumes "list_all (marker_fit cs) ids"
  shows "\<exists>res st'. pairs_for sign cs ids req st = Some (res, st') \<and>
    (case res of
       Inr out \<Rightarrow> \<exists>parts. out = concat parts \<and> list_all2 (contributes sign cs req) ids parts
     | Inl r \<Rightarrow> \<exists>i \<in> set ids. \<exists>s. hi_form (cs_injections cs ! i) = Signed s \<and> sf_signer r = sg_name s)"
proof -
  obtain res st' where r: "pairs_loop sign cs req ids [] st = Some (res, st')"
    using pairs_loop_returns [OF assms, of sign req "[]" st] by auto
  show ?thesis
  proof (cases res)
    case (Inl a)
    then show ?thesis using r pairs_loop_refusal [of sign cs req ids "[]" st a st'] by (simp add: pairs_for_def)
  next
    case (Inr b)
    then show ?thesis using r pairs_loop_parts [of sign cs req ids "[]" st b st'] by (simp add: pairs_for_def)
  qed
qed

text \<open>A signer that is given a marker, and a fixed header beside it.\<close>

definition sample_set :: "unit credential_set" where
  "sample_set =
     (let rl = \<lparr>kind = Host ''api.example.com'' (Ranges [(443, 443)]), rmethods = Unspecified, rlayer = L7, rgroup = None, builtin = False\<rparr>;
          s = \<lparr>sg_name = ''sigv4'', sg_sets = [''Authorization''], sg_sees = [''x-date''], sg_key = ''k3y'',
               sg_marker = Some \<lparr>sm_marker = ''SBX-SECRET-0'', sm_secret = ''k3y'', sm_watch = False\<rparr>,
               sg_signer = Asking 1, sg_body_digest = None\<rparr>
      in \<lparr>cs_injections = [HeaderInjection_fixed rl ''X-Api-Key'' ''fixed'',
             (HeaderInjection_fixed rl ''_'' [])\<lparr>hi_form := Signed s\<rparr>], cs_needles = []\<rparr>)"

definition sample_sign :: "nat \<Rightarrow> u64 \<Rightarrow> sign_request \<Rightarrow> ((string + signature) \<times> nat) option" where
  "sample_sign st num ask =
     Some (Inr \<lparr>sig_headers = [(''Authorization'', ''Key SBX-SECRET-0 at '' @ snd (hd (sr_headers ask)))], sig_label = None\<rparr>, st + 1)"

theorem pairs_for_all_or_none_witness:
  "\<exists>parts. [(''X-Api-Key'', ''fixed''), (''Authorization'', ''Key k3y at noon'')] = concat parts \<and>
     list_all2 (contributes sample_sign sample_set
       \<lparr>rf_method = ''GET'', rf_host = ''api.example.com'', rf_port = 443, rf_target = ''/'', rf_headers = [(''X-Date'', ''noon'')], rf_body = None\<rparr>)
       [0, 1] parts"
proof -
  let ?req = "\<lparr>rf_method = ''GET'', rf_host = ''api.example.com'', rf_port = 443, rf_target = ''/'', rf_headers = [(''X-Date'', ''noon'')], rf_body = None\<rparr>"
  have "list_all (marker_fit sample_set) [0, 1]" by code_simp
  from pairs_for_all_or_none [OF this, of sample_sign ?req 0]
  obtain res st' where r: "pairs_for sample_sign sample_set [0, 1] ?req 0 = Some (res, st')" and
    c: "case res of Inr out \<Rightarrow> \<exists>parts. out = concat parts \<and> list_all2 (contributes sample_sign sample_set ?req) [0, 1] parts
     | Inl r \<Rightarrow> \<exists>i \<in> set [0, 1]. \<exists>s. hi_form (cs_injections sample_set ! i) = Signed s \<and> sf_signer r = sg_name s" by blast
  have "map_option fst (pairs_for sample_sign sample_set [0, 1] ?req 0) =
      Some (Inr [(''X-Api-Key'', ''fixed''), (''Authorization'', ''Key k3y at noon'')])" by code_simp
  then have "res = Inr [(''X-Api-Key'', ''fixed''), (''Authorization'', ''Key k3y at noon'')]" unfolding r by simp
  then show ?thesis using c by (simp only: sum.case)
qed

text \<open>A value learned first and declared afterwards keeps its learned entry in the history, so the record of
  an exchange with a host of no declared service still shows it.\<close>

lemma learned_then_declared:
  "let c = Credentials_replace \<lparr>cs_injections = [], cs_needles = [needle_named ''token'' sample_token]\<rparr> sample1 in
     map sn_bytes (cs_needles (snapshot c)) = [sample_token] \<and>
     redact_record_in_place first_at sample_token (cs_needles (snapshot c)) ''other.example.net'' = replicate 24 STAR \<and>
     redact_record_in_place first_at sample_token (masking_needles c) ''other.example.net'' = sample_token"
  by code_simp

end
