(* ===== verification/Ws_Frame.thy ===== *)
theory Ws_Frame
  imports Secret_Needle
begin

text \<open>
  The WebSocket frame decoder the relay drives, src/src/sandbox/proxy/wsframe.rs: the framing
  (\<open>scan_frame_header\<close>, \<open>FrameTee\<close>), the leak scan (\<open>LeakScan\<close>), the inflater's loop (\<open>Inflater\<close>) and the
  capture's sink (\<open>CapBuf\<close> of src/src/sandbox/proxy/capture.rs). The DEFLATE decoder itself is the crate
  \<open>miniz_oxide\<close>: one call of it is the parameter \<open>dec\<close>, a function of the decoder's state, the input, the
  window and the place in it; \<open>fresh_dec\<close> is a new decoder. Lengths and counts are natural numbers: the
  code only subtracts what it has compared, and a payload length has its top bit clear.
\<close>

section \<open>The capture's sink\<close>

record cap_buf =
  cb_bytes :: string
  cb_truncated :: bool
  cb_cap :: nat
  cb_source_open :: bool

definition CapBuf_new :: "nat \<Rightarrow> cap_buf" where
  "CapBuf_new cap = \<lparr>cb_bytes = [], cb_truncated = False, cb_cap = cap, cb_source_open = False\<rparr>"

definition expect_source_end :: "cap_buf \<Rightarrow> cap_buf" where
  "expect_source_end b = b\<lparr>cb_source_open := True\<rparr>"

definition mark_source_ended :: "cap_buf \<Rightarrow> cap_buf" where
  "mark_source_ended b = b\<lparr>cb_source_open := False\<rparr>"

definition CapBuf_push :: "string \<Rightarrow> cap_buf \<Rightarrow> bool \<times> cap_buf" where
  "CapBuf_push chunk b =
     (if cb_cap b = 0 then (True, b)
      else let room = cb_cap b - length (cb_bytes b) in
        if room = 0 then
          let b = b\<lparr>cb_truncated := cb_truncated b \<or> chunk \<noteq> []\<rparr> in (cb_truncated b, b)
        else let n = min room (length chunk); b = b\<lparr>cb_bytes := cb_bytes b @ take n chunk\<rparr> in
          if n < length chunk then (True, b\<lparr>cb_truncated := True\<rparr>) else (False, b))"

section \<open>The leak scan\<close>

record leak_scan =
  ls_needles :: "secret_needle list"
  ls_carry :: string
  ls_keep :: nat
  ls_reported :: "bool list"
  ls_fresh :: "string list"

definition LeakScan_new :: "secret_needle list \<Rightarrow> leak_scan option" where
  "LeakScan_new needles =
     (if needles = [] then None
      else Some \<lparr>ls_needles = needles, ls_carry = [],
        ls_keep = fold max (map (\<lambda>n. length (sn_bytes n)) needles) 0 - 1,
        ls_reported = replicate (length needles) False, ls_fresh = []\<rparr>)"

definition LeakScan_extend :: "secret_needle list \<Rightarrow> leak_scan \<Rightarrow> leak_scan" where
  "LeakScan_extend needles s =
     foldl (\<lambda>s n.
         if list_ex (\<lambda>held. sn_bytes held = sn_bytes n) (ls_needles s) then s
         else s\<lparr>ls_keep := max (ls_keep s) (length (sn_bytes n) - 1), ls_needles := ls_needles s @ [n],
                ls_reported := ls_reported s @ [False]\<rparr>) s needles"

definition LeakScan_start_message :: "leak_scan \<Rightarrow> leak_scan" where
  "LeakScan_start_message s = s\<lparr>ls_carry := []\<rparr>"

definition LeakScan_take :: "(string \<Rightarrow> string \<Rightarrow> nat option) \<Rightarrow> string \<Rightarrow> leak_scan \<Rightarrow> leak_scan" where
  "LeakScan_take finder piece s =
     (if list_all id (ls_reported s) then s
      else
        let carry = ls_carry s @ piece;
            hits = filter (\<lambda>i. \<not> ls_reported s ! i \<and> find_in finder (ls_needles s ! i) carry 0 \<noteq> None)
                     [0..<length (ls_needles s)];
            reported = foldl (\<lambda>r i. r[i := True]) (ls_reported s) hits;
            fresh = ls_fresh s @ map (\<lambda>i. sn_name (ls_needles s ! i)) hits;
            drp = length carry - ls_keep s
        in s\<lparr>ls_carry := drop drp carry, ls_reported := reported, ls_fresh := fresh\<rparr>)"

definition LeakScan_take_standalone :: "(string \<Rightarrow> string \<Rightarrow> nat option) \<Rightarrow> string \<Rightarrow> leak_scan \<Rightarrow> leak_scan" where
  "LeakScan_take_standalone finder piece s =
     (let held = ls_carry s in (LeakScan_take finder piece (s\<lparr>ls_carry := []\<rparr>))\<lparr>ls_carry := held\<rparr>)"

definition LeakScan_drain :: "leak_scan \<Rightarrow> string list \<times> leak_scan" where
  "LeakScan_drain s = (ls_fresh s, s\<lparr>ls_fresh := []\<rparr>)"

section \<open>The inflater\<close>

datatype tinfl_status = HasMoreOutput | NeedsMoreInput | TinflDone | FailedCannotMakeProgress | TinflFailed

type_synonym 'd decompress = "'d \<Rightarrow> string \<Rightarrow> string \<Rightarrow> nat \<Rightarrow> tinfl_status \<times> nat \<times> nat \<times> 'd \<times> string"

text \<open>\<open>Stop\<close>, and the panic of a slice out of range, which a decoder that reports more than it was given
  would cause.\<close>

datatype stop = Undecodable | TooLong | OutOfRange

definition WINDOW :: nat where
  "WINDOW = 32768"

definition MESSAGE_PLAINTEXT_CAP :: nat where
  "MESSAGE_PLAINTEXT_CAP = 64 * 1024 * 1024"

record 'd inflater =
  if_decoder :: 'd
  if_window :: string
  if_at :: nat
  if_no_context_takeover :: bool
  if_message_cap :: nat
  if_inflated :: nat

definition Inflater_new :: "'d \<Rightarrow> bool \<Rightarrow> 'd inflater" where
  "Inflater_new fresh_dec nct =
     \<lparr>if_decoder = fresh_dec, if_window = replicate WINDOW (CHR 0x00), if_at = 0,
      if_no_context_takeover = nct, if_message_cap = MESSAGE_PLAINTEXT_CAP, if_inflated = 0\<rparr>"

definition Inflater_start :: "'d inflater \<Rightarrow> 'd inflater" where
  "Inflater_start f = f\<lparr>if_inflated := 0\<rparr>"

text \<open>Whether one call of the decoder ends the stretch, and whether it may.\<close>

fun stretch_ends :: "tinfl_status \<Rightarrow> string \<Rightarrow> bool option" where
  "stretch_ends HasMoreOutput rest = Some False"
| "stretch_ends NeedsMoreInput rest = Some True"
| "stretch_ends TinflDone rest = (if rest = [] then Some True else None)"
| "stretch_ends FailedCannotMakeProgress rest = (if rest = [] then Some True else None)"
| "stretch_ends TinflFailed rest = None"

text \<open>The loop of \<open>Inflater::feed\<close>, with the blocks handed to the callback so far. Every round that goes on
  consumed a byte or added to what the message inflated to, which the cap bounds.\<close>

function feed_loop :: "'d decompress \<Rightarrow> 'd inflater \<Rightarrow> string \<Rightarrow> string list \<Rightarrow> (stop + unit) \<times> 'd inflater \<times> string list" where
  "feed_loop dec f rest out =
     (case dec (if_decoder f) rest (if_window f) (if_at f) of (status, consumed, wrote, d, win) \<Rightarrow>
        if length rest < consumed \<or> length win < if_at f + wrote then (Inl OutOfRange, f, out)
        else
          let rest' = drop consumed rest;
              out' = out @ [take wrote (drop (if_at f) win)];
              f' = f\<lparr>if_decoder := d, if_window := win, if_at := (if_at f + wrote) mod WINDOW,
                     if_inflated := if_inflated f + wrote\<rparr> in
          (case stretch_ends status rest' of
             None \<Rightarrow> (Inl Undecodable, f', out')
           | Some ends \<Rightarrow>
               if if_message_cap f' < if_inflated f' then (Inl TooLong, f', out')
               else if ends then (Inr (), f', out')
               else if consumed = 0 \<and> wrote = 0 then (Inl Undecodable, f', out')
               else feed_loop dec f' rest' out'))"
  by pat_completeness auto
termination
  by (relation "measures [\<lambda>(dec, f, rest, out). length rest, \<lambda>(dec, f, rest, out). Suc (if_message_cap f) - if_inflated f]")
    auto

declare feed_loop.simps [simp del]

definition Inflater_feed :: "'d decompress \<Rightarrow> string \<Rightarrow> 'd inflater \<Rightarrow> (stop + unit) \<times> 'd inflater \<times> string list" where
  "Inflater_feed dec rest f = feed_loop dec f rest []"

definition Inflater_finish :: "'d decompress \<Rightarrow> 'd \<Rightarrow> 'd inflater \<Rightarrow> (stop + unit) \<times> 'd inflater \<times> string list" where
  "Inflater_finish dec fresh_dec f =
     (case Inflater_feed dec [CHR 0x00, CHR 0x00, CHR 0xFF, CHR 0xFF] f of (ended, f, out) \<Rightarrow>
        if if_no_context_takeover f
        then (ended, f\<lparr>if_decoder := fresh_dec, if_window := replicate (length (if_window f)) (CHR 0x00), if_at := 0\<rparr>, out)
        else (ended, f, out))"

section \<open>Frame headers\<close>

definition CONTROL_MAX :: nat where
  "CONTROL_MAX = 125"

record header_info =
  hd_payload_len :: nat
  hd_keeps :: bool
  hd_control :: bool
  hd_mask :: "string option"
  hd_fin :: bool
  hd_rsv1 :: bool
  hd_starts_message :: bool

datatype header_scan = Need | Bad | HeaderDone header_info

definition be_bytes :: "string \<Rightarrow> nat" where
  "be_bytes s = foldl (\<lambda>acc b. acc * 256 + byte b) 0 s"

definition scan_frame_header :: "string \<Rightarrow> header_scan" where
  "scan_frame_header buf =
     (if length buf < 2 then Need
      else
        let b0 = byte (buf ! 0); b1 = byte (buf ! 1); opcode = b0 mod 16 in
        if opcode \<notin> {0x0, 0x1, 0x2, 0x8, 0x9, 0xa} then Bad
        else
          let masked = (128 \<le> b1); len7 = b1 mod 128;
              extended = (if len7 = 126 then 2 else if len7 = 127 then 8 else 0);
              total = 2 + extended + (if masked then 4 else 0) in
          if length buf < total then Need
          else
            let len = (if extended = 2 then be_bytes (take 2 (drop 2 buf))
                       else if extended = 8 then be_bytes (take 8 (drop 2 buf)) else len7) in
            if extended = 8 \<and> 2 ^ 63 \<le> len then Bad
            else if opcode \<in> {0x8, 0x9, 0xa} \<and> (CONTROL_MAX < len \<or> b0 < 128) then Bad
            else HeaderDone
              \<lparr>hd_payload_len = len, hd_keeps = opcode \<in> {0x0, 0x1, 0x2}, hd_control = opcode \<in> {0x8, 0x9, 0xa},
               hd_mask = (if masked then Some (take 4 (drop (2 + extended) buf)) else None),
               hd_fin = 128 \<le> b0, hd_rsv1 = (b0 div 64 mod 2 = 1), hd_starts_message = opcode \<in> {0x1, 0x2}\<rparr>)"

section \<open>The tee\<close>

record 'd frame_tee =
  ft_sink :: "cap_buf option"
  ft_sink_full :: bool
  ft_scan :: "leak_scan option"
  ft_follow_anyway :: bool
  ft_header :: string
  ft_payload_left :: nat
  ft_keeps :: bool
  ft_control :: bool
  ft_control_payload :: string
  ft_mask :: "string option"
  ft_mask_at :: nat
  ft_done :: bool
  ft_blind_reported :: bool
  ft_inflater :: "'d inflater option"
  ft_plain :: string
  ft_compressed :: bool
  ft_fin :: bool

definition FrameTee_new :: "'d \<Rightarrow> cap_buf option \<Rightarrow> secret_needle list \<Rightarrow> bool option \<Rightarrow> bool \<Rightarrow> 'd frame_tee option" where
  "FrameTee_new fresh_dec sink needles deflate follow_anyway =
     (let scan = LeakScan_new needles in
      if sink = None \<and> scan = None \<and> \<not> follow_anyway then None
      else Some \<lparr>ft_sink = sink, ft_sink_full = False, ft_scan = scan, ft_follow_anyway = follow_anyway,
        ft_header = [], ft_payload_left = 0, ft_keeps = False, ft_control = False, ft_control_payload = [],
        ft_mask = None, ft_mask_at = 0, ft_done = False, ft_blind_reported = False,
        ft_inflater = map_option (Inflater_new fresh_dec) deflate, ft_plain = [], ft_compressed = False,
        ft_fin = False\<rparr>)"

definition refresh_needles :: "secret_needle list \<Rightarrow> 'd frame_tee \<Rightarrow> 'd frame_tee" where
  "refresh_needles needles t =
     (if ft_done t then t
      else t\<lparr>ft_scan := (case ft_scan t of Some s \<Rightarrow> Some (LeakScan_extend needles s) | None \<Rightarrow> LeakScan_new needles)\<rparr>)"

definition tee_capture :: "string \<Rightarrow> 'd frame_tee \<Rightarrow> bool \<times> 'd frame_tee" where
  "tee_capture piece t =
     (if ft_sink_full t then (False, t)
      else case ft_sink t of
        Some sink \<Rightarrow>
          (case CapBuf_push piece sink of
             (True, sink') \<Rightarrow> (True, t\<lparr>ft_sink := Some sink', ft_sink_full := True\<rparr>)
           | (False, sink') \<Rightarrow> (False, t\<lparr>ft_sink := Some sink'\<rparr>))
      | None \<Rightarrow> (False, t))"

definition tee_consume :: "(string \<Rightarrow> string \<Rightarrow> nat option) \<Rightarrow> string \<Rightarrow> 'd frame_tee \<Rightarrow> bool \<times> 'd frame_tee" where
  "tee_consume finder piece t = tee_capture piece (t\<lparr>ft_scan := map_option (LeakScan_take finder piece) (ft_scan t)\<rparr>)"

definition sightings :: "'d frame_tee \<Rightarrow> string list \<times> 'd frame_tee" where
  "sightings t =
     (case ft_scan t of
        Some s \<Rightarrow> (case LeakScan_drain s of (names, s') \<Rightarrow> (names, t\<lparr>ft_scan := Some s'\<rparr>))
      | None \<Rightarrow> ([], t))"

definition spent :: "'d frame_tee \<Rightarrow> bool" where
  "spent t = (ft_sink_full t \<and> ft_scan t = None \<and> \<not> ft_follow_anyway t)"

definition newly_blinded :: "'d frame_tee \<Rightarrow> bool \<times> 'd frame_tee" where
  "newly_blinded t =
     (if \<not> ft_done t \<or> ft_scan t = None \<and> \<not> ft_follow_anyway t \<or> ft_blind_reported t then (False, t)
      else (True, t\<lparr>ft_blind_reported := True\<rparr>))"

text \<open>\<open>FrameTee::inflate\<close>: the next stretch of the message, or its elided end.\<close>

definition tee_inflate ::
  "(string \<Rightarrow> string \<Rightarrow> nat option) \<Rightarrow> 'd decompress \<Rightarrow> 'd \<Rightarrow> string option \<Rightarrow> 'd frame_tee \<Rightarrow>
    (stop + unit) \<times> 'd frame_tee" where
  "tee_inflate finder dec fresh_dec piece t =
     (let keep = (case ft_sink t of Some sink \<Rightarrow> if ft_sink_full t then 0 else cb_cap sink + 1 | None \<Rightarrow> 0) in
      case ft_inflater t of
        None \<Rightarrow> (Inl Undecodable, t)
      | Some f \<Rightarrow>
          (case (case piece of Some p \<Rightarrow> Inflater_feed dec p f | None \<Rightarrow> Inflater_finish dec fresh_dec f) of
             (ended, f', blocks) \<Rightarrow>
               let (scan, plain) = foldl (\<lambda>(scan, plain) block.
                     (map_option (LeakScan_take finder block) scan, plain @ take (keep - length plain) block))
                     (ft_scan t, ft_plain t) blocks
               in (ended, t\<lparr>ft_inflater := Some f', ft_scan := scan, ft_plain := plain\<rparr>)))"

definition give_up :: "stop \<Rightarrow> 'd frame_tee \<Rightarrow> bool \<times> 'd frame_tee" where
  "give_up why t =
     (let plain = ft_plain t; t = t\<lparr>ft_done := True, ft_plain := []\<rparr> in
      case why of TooLong \<Rightarrow> tee_capture plain t | _ \<Rightarrow> (False, t))"

definition end_of_frame ::
  "(string \<Rightarrow> string \<Rightarrow> nat option) \<Rightarrow> 'd decompress \<Rightarrow> 'd \<Rightarrow> 'd frame_tee \<Rightarrow> bool \<times> 'd frame_tee" where
  "end_of_frame finder dec fresh_dec t =
     (if ft_control t then
        (False, t\<lparr>ft_control_payload := [],
                  ft_scan := map_option (LeakScan_take_standalone finder (ft_control_payload t)) (ft_scan t)\<rparr>)
      else if \<not> ft_keeps t \<or> \<not> ft_compressed t \<or> \<not> ft_fin t then (False, t)
      else case tee_inflate finder dec fresh_dec None t of
        (Inl why, t) \<Rightarrow> give_up why t
      | (Inr (), t) \<Rightarrow>
          (case tee_capture (ft_plain t) (t\<lparr>ft_plain := []\<rparr>) of (filled, t) \<Rightarrow>
             (filled, if spent t then t\<lparr>ft_done := True\<rparr> else t)))"

definition xor_byte :: "char \<Rightarrow> char \<Rightarrow> char" where
  "xor_byte a b = char_of (xor (byte a) (byte b))"

definition unmask :: "string option \<Rightarrow> nat \<Rightarrow> string \<Rightarrow> string" where
  "unmask km place piece =
     (case km of
        None \<Rightarrow> piece
      | Some key \<Rightarrow> map (\<lambda>(n, b). xor_byte b (key ! ((place + n) mod 4))) (enumerate 0 piece))"

text \<open>A frame header is complete: what the tee makes of it.\<close>

definition tee_header :: "header_info \<Rightarrow> 'd frame_tee \<Rightarrow> 'd frame_tee" where
  "tee_header h t =
     (if ft_compressed t \<and> \<not> ft_fin t \<and> hd_starts_message h then t\<lparr>ft_done := True\<rparr>
      else
        let t = t\<lparr>ft_payload_left := hd_payload_len h, ft_keeps := hd_keeps h, ft_control := hd_control h,
                  ft_control_payload := [], ft_mask := hd_mask h, ft_mask_at := 0, ft_header := []\<rparr> in
        if \<not> hd_keeps h then t
        else
          let t = t\<lparr>ft_fin := hd_fin h\<rparr> in
          if \<not> hd_starts_message h then t
          else if hd_rsv1 h \<and> ft_inflater t = None then t\<lparr>ft_done := True\<rparr>
          else t\<lparr>ft_compressed := hd_rsv1 h, ft_plain := [],
                 ft_inflater := map_option Inflater_start (ft_inflater t),
                 ft_scan := map_option LeakScan_start_message (ft_scan t)\<rparr>)"

text \<open>A stretch of payload, as the frame says to treat it; \<open>Inl\<close> where the decode ends with it.\<close>

definition tee_payload ::
  "(string \<Rightarrow> string \<Rightarrow> nat option) \<Rightarrow> 'd decompress \<Rightarrow> 'd \<Rightarrow> string \<Rightarrow> 'd frame_tee \<Rightarrow>
    (bool \<times> 'd frame_tee) + (bool \<times> 'd frame_tee)" where
  "tee_payload finder dec fresh_dec raw t =
     (if ft_keeps t \<or> ft_control t \<and> ft_scan t \<noteq> None then
        let piece = unmask (ft_mask t) (ft_mask_at t) raw in
        if ft_control t then
          let room = CONTROL_MAX - length (ft_control_payload t); fits = min (length piece) room in
          Inr (False, t\<lparr>ft_control_payload := ft_control_payload t @ take fits piece\<rparr>)
        else if ft_compressed t then
          (case tee_inflate finder dec fresh_dec (Some piece) t of
             (Inl why, t) \<Rightarrow> Inl (give_up why t)
           | (Inr (), t) \<Rightarrow> Inr (False, t))
        else
          (case tee_consume finder piece t of (filled, t) \<Rightarrow>
             Inr (filled, if spent t then t\<lparr>ft_done := True\<rparr> else t))
      else Inr (False, t))"

text \<open>The loop of \<open>FrameTee::push\<close>.\<close>

function push_loop ::
  "(string \<Rightarrow> string \<Rightarrow> nat option) \<Rightarrow> 'd decompress \<Rightarrow> 'd \<Rightarrow> string \<Rightarrow> bool \<Rightarrow> 'd frame_tee \<Rightarrow> bool \<times> 'd frame_tee" where
  "push_loop finder dec fresh_dec [] filled t = (filled, t)"
| "push_loop finder dec fresh_dec (b # chunk) filled t =
     (if ft_payload_left t = 0 then
        let t = t\<lparr>ft_header := ft_header t @ [b]\<rparr> in
        (case scan_frame_header (ft_header t) of
           Need \<Rightarrow> push_loop finder dec fresh_dec chunk filled t
         | Bad \<Rightarrow> (filled, t\<lparr>ft_done := True\<rparr>)
         | HeaderDone h \<Rightarrow>
             let t = tee_header h t in
             if ft_done t then (filled, t)
             else
               let (more_filled, t) = (if ft_payload_left t = 0 then end_of_frame finder dec fresh_dec t else (False, t)) in
               if ft_done t then (filled \<or> more_filled, t)
               else push_loop finder dec fresh_dec chunk (filled \<or> more_filled) t)
      else
        let n = min (ft_payload_left t) (length (b # chunk)) in
        (case tee_payload finder dec fresh_dec (take n (b # chunk)) t of
           Inl (more_filled, t) \<Rightarrow> (filled \<or> more_filled, t)
         | Inr (more_filled, t) \<Rightarrow>
             let t = t\<lparr>ft_mask_at := (ft_mask_at t + n) mod 4, ft_payload_left := ft_payload_left t - n\<rparr>;
                 (end_filled, t) = (if ft_payload_left t = 0 then end_of_frame finder dec fresh_dec t else (False, t)) in
             if ft_done t then (filled \<or> more_filled \<or> end_filled, t)
             else push_loop finder dec fresh_dec (drop n (b # chunk)) (filled \<or> more_filled \<or> end_filled) t))"
  by pat_completeness auto
termination
  by (relation "measure (\<lambda>(finder, dec, fresh_dec, chunk, filled, t). length chunk)") auto

declare push_loop.simps [simp del]

definition tee_push ::
  "(string \<Rightarrow> string \<Rightarrow> nat option) \<Rightarrow> 'd decompress \<Rightarrow> 'd \<Rightarrow> string \<Rightarrow> 'd frame_tee \<Rightarrow> bool \<times> 'd frame_tee" where
  "tee_push finder dec fresh_dec chunk t =
     (if ft_done t then (False, t) else push_loop finder dec fresh_dec chunk False t)"

end
