(* ===== verification/Ws_Inflate.thy ===== *)
theory Ws_Inflate
  imports Ws_Frame
begin

text \<open>
  The inflater's loop (\<open>Inflater::feed\<close> of src/src/sandbox/proxy/wsframe.rs) ends and stays within its
  bounds whatever the decoder of the crate answers.
\<close>

definition keeps_window :: "'d decompress \<Rightarrow> bool" where
  "keeps_window dec \<longleftrightarrow> (\<forall>d rest w at. length (snd (snd (snd (snd (dec d rest w at))))) = length w)"

text \<open>What a stretch of the message leaves behind: the blocks handed on are what it inflated to, at most a
  window past the cap, within the cap unless the decode stopped for it.\<close>

definition fed :: "'d inflater \<Rightarrow> string list \<Rightarrow> (stop + unit) \<times> 'd inflater \<times> string list \<Rightarrow> bool" where
  "fed f out r = (case r of (ended, f', out') \<Rightarrow> \<exists>blocks.
     out' = out @ blocks \<and> if_inflated f' = if_inflated f + length (concat blocks) \<and>
     if_message_cap f' = if_message_cap f \<and> length (if_window f') = WINDOW \<and>
     if_inflated f' \<le> if_message_cap f + WINDOW \<and> (ended = Inr () \<longrightarrow> if_inflated f' \<le> if_message_cap f) \<and>
     (ended = Inl TooLong \<longrightarrow> if_message_cap f < if_inflated f'))"

lemma fed_step:
  assumes "fed f' (out @ [b]) r" "if_inflated f' = if_inflated f + length b" "if_message_cap f' = if_message_cap f"
  shows "fed f out r"
proof -
  obtain ended g out' where r: "r = (ended, g, out')" by (rule prod_cases3)
  then obtain blocks where "out' = (out @ [b]) @ blocks" using assms(1) by (auto simp: fed_def)
  then show ?thesis using assms by (auto simp: fed_def r intro!: exI [of _ "b # blocks"])
qed

lemma fed_stop:
  "length (if_window f) = WINDOW \<Longrightarrow> if_inflated f \<le> if_message_cap f + WINDOW \<Longrightarrow>
    (ended = Inr () \<longrightarrow> if_inflated f \<le> if_message_cap f) \<Longrightarrow> (ended = Inl TooLong \<longrightarrow> if_message_cap f < if_inflated f) \<Longrightarrow>
    fed f out (ended, f, out)"
  by (simp add: fed_def)

lemma feed_loop_fed:
  assumes "keeps_window dec" "length (if_window f) = WINDOW" "if_inflated f \<le> if_message_cap f"
  shows "fed f out (feed_loop dec f rest out)"
  using assms
proof (induction dec f rest out rule: feed_loop.induct)
  case (1 dec f rest out)
  obtain status consumed wrote d win where e: "dec (if_decoder f) rest (if_window f) (if_at f) = (status, consumed, wrote, d, win)"
    by (rule prod_cases5)
  have w: "length win = WINDOW" using 1(2,3) e unfolding keeps_window_def by (metis snd_conv)
  let ?b = "take wrote (drop (if_at f) win)"
  let ?f = "f\<lparr>if_decoder := d, if_window := win, if_at := (if_at f + wrote) mod WINDOW, if_inflated := if_inflated f + wrote\<rparr>"
  show ?case
  proof (cases "length rest < consumed \<or> length win < if_at f + wrote")
    case True
    then show ?thesis using 1(3,4) by (subst feed_loop.simps) (simp add: e fed_stop)
  next
    case False
    have "wrote \<le> WINDOW - if_at f" using False w by auto
    then have b: "length ?b = wrote" by (simp add: w)
    have w': "length (if_window ?f) = WINDOW" "if_inflated ?f \<le> if_message_cap ?f + WINDOW"
      using False w 1(4) by simp_all
    have one: "fed ?f (out @ [?b]) r \<Longrightarrow> fed f out r" for r by (erule fed_step) (simp_all add: b del: length_take)
    show ?thesis
    proof (cases "stretch_ends status (drop consumed rest)")
      case None
      then show ?thesis using False fed_stop [OF w', of "Inl Undecodable" "out @ [?b]"]
        by (subst feed_loop.simps) (simp add: e one)
    next
      case (Some ends)
      show ?thesis
      proof (cases "if_message_cap f < if_inflated f + wrote \<or> ends \<or> consumed = 0 \<and> wrote = 0")
        case True
        have "fed f out (Inl TooLong, ?f, out @ [?b])" if "if_message_cap f < if_inflated f + wrote"
          using that w' by (intro one fed_stop) simp_all
        moreover have "fed f out (Inr (), ?f, out @ [?b])" "fed f out (Inl Undecodable, ?f, out @ [?b])"
          if "\<not> if_message_cap f < if_inflated f + wrote"
          using that w' by (intro one fed_stop; simp)+
        ultimately show ?thesis using False Some True by (subst feed_loop.simps) (auto simp: e Let_def)
      next
        case go: False
        have "fed ?f (out @ [?b]) (feed_loop dec ?f (drop consumed rest) (out @ [?b]))"
          using 1(1) [OF e [symmetric] refl refl refl False refl refl refl Some _ _ _ 1(2) w'(1)] go by simp
        then show ?thesis using False Some go one by (subst feed_loop.simps) (auto simp: e Let_def)
      qed
    qed
  qed
qed

text \<open>C30. Whatever the decoder answers, one stretch of a compressed message is inflated in a loop that ends,
  hands on exactly what it counted, and counts at most one window past the cap of a message; past the cap it
  stops the decode, under it the message goes on.\<close>

theorem inflation_bounded:
  assumes "keeps_window dec" "length (if_window f) = WINDOW" "if_message_cap f = MESSAGE_PLAINTEXT_CAP"
    and "if_inflated f \<le> MESSAGE_PLAINTEXT_CAP" "Inflater_feed dec piece f = (ended, f', blocks)"
  shows "if_inflated f' = if_inflated f + length (concat blocks) \<and> if_inflated f' \<le> MESSAGE_PLAINTEXT_CAP + WINDOW \<and>
    (ended = Inr () \<longrightarrow> if_inflated f' \<le> MESSAGE_PLAINTEXT_CAP) \<and>
    (ended = Inl TooLong \<longrightarrow> MESSAGE_PLAINTEXT_CAP < if_inflated f') \<and>
    if_message_cap f' = MESSAGE_PLAINTEXT_CAP \<and> length (if_window f') = WINDOW"
  using feed_loop_fed [of dec f "[]" piece] assms by (auto simp: Inflater_feed_def fed_def)

definition stored_dec :: "unit decompress" where
  "stored_dec d rest win at =
     (let n = min (length rest) (length win - at) in
      (if n < length rest then HasMoreOutput else NeedsMoreInput, n, n, (),
       take at win @ take n rest @ drop (at + n) win))"

lemma stored_dec_window: "keeps_window stored_dec"
  by (auto simp: keeps_window_def stored_dec_def Let_def min_def)

lemma stored_dec_feeds:
  assumes "length (if_window f) = WINDOW" "if_at f = 0" "if_inflated f = 0" "if_message_cap f = MESSAGE_PLAINTEXT_CAP"
  shows "\<exists>f'. Inflater_feed stored_dec ''abc'' f = (Inr (), f', [''abc''])"
proof -
  have w: "3 \<le> WINDOW" "3 \<le> MESSAGE_PLAINTEXT_CAP" by (simp_all add: WINDOW_def MESSAGE_PLAINTEXT_CAP_def)
  have m: "min 3 (length (if_window f)) = 3" using w(1) assms(1) by simp
  have s: "stored_dec () ''abc'' (if_window f) 0 = (NeedsMoreInput, 3, 3, (), ''abc'' @ drop 3 (if_window f))"
    using m assms(2) by (simp add: stored_dec_def Let_def numeral_3_eq_3)
  show ?thesis unfolding Inflater_feed_def
    using w assms by (subst feed_loop.simps) (simp add: s)
qed

theorem inflation_bounded_witness:
  "\<exists>f'. Inflater_feed stored_dec ''abc'' (Inflater_new () False) = (Inr (), f', [''abc'']) \<and>
     if_inflated f' = 3 \<and> if_inflated f' \<le> MESSAGE_PLAINTEXT_CAP + WINDOW"
proof -
  let ?f = "Inflater_new () False"
  have f: "length (if_window ?f) = WINDOW" "if_at ?f = 0" "if_inflated ?f = 0" "if_message_cap ?f = MESSAGE_PLAINTEXT_CAP"
    by (simp_all add: Inflater_new_def)
  obtain f' where r: "Inflater_feed stored_dec ''abc'' ?f = (Inr (), f', [''abc''])" using stored_dec_feeds [OF f] by blast
  have "if_inflated ?f \<le> MESSAGE_PLAINTEXT_CAP" by (simp only: f(3))
  from inflation_bounded [OF stored_dec_window f(1,4) this r] show ?thesis using r f(3) by simp
qed

end
