(* ===== verification/Ws_Deflate.thy ===== *)
theory Ws_Deflate
  imports Http_Head
begin

text \<open>
  What the peers agreed for \<open>permessage-deflate\<close>, read off the upgrade response: \<open>negotiated_deflate\<close> of
  src/src/sandbox/proxy/wsframe.rs.
\<close>

record deflate =
  df_negotiated :: bool
  df_client_no_context_takeover :: bool
  df_server_no_context_takeover :: bool

definition no_deflate :: deflate where
  "no_deflate = \<lparr>df_negotiated = False, df_client_no_context_takeover = False, df_server_no_context_takeover = False\<rparr>"

definition extension_values :: "string \<Rightarrow> string list" where
  "extension_values head = List.map_filter
     (\<lambda>line. case split_once CHR '':'' line of None \<Rightarrow> None
       | Some (name, v) \<Rightarrow> if eq_ignore_case (trim name) ''sec-websocket-extensions'' then Some (trim v) else None)
     (str_lines head)"

definition read_param :: "deflate \<Rightarrow> string \<Rightarrow> deflate" where
  "read_param out param =
     (let key = trim (hd (split_on CHR ''='' param)) in
      if eq_ignore_case key ''client_no_context_takeover'' then out\<lparr>df_client_no_context_takeover := True\<rparr>
      else if eq_ignore_case key ''server_no_context_takeover'' then out\<lparr>df_server_no_context_takeover := True\<rparr>
      else out)"

text \<open>The loop over the entries; \<open>None\<close> is a return of the default before their end.\<close>

fun read_entries :: "string list \<Rightarrow> deflate option \<Rightarrow> deflate option option" where
  "read_entries [] negotiated = Some negotiated"
| "read_entries (e # es) negotiated =
     (if trim e = [] then read_entries es negotiated
      else case map trim (split_on CHR '';'' e) of
        [] \<Rightarrow> None
      | name # params \<Rightarrow>
          if \<not> eq_ignore_case name ''permessage-deflate'' then None
          else if negotiated \<noteq> None then None
          else read_entries es (Some (foldl read_param (no_deflate\<lparr>df_negotiated := True\<rparr>) params)))"

definition negotiated_deflate :: "string \<Rightarrow> deflate" where
  "negotiated_deflate resp_head =
     (case extension_values (utf8_lossy resp_head) of
        [] \<Rightarrow> no_deflate
      | values \<Rightarrow>
          (case read_entries (concat (map (split_on CHR '','') values)) None of
             Some (Some out) \<Rightarrow> out
           | _ \<Rightarrow> no_deflate))"

section \<open>The whole list decides\<close>

text \<open>The elements of the list that are an entry, over every field of the response.\<close>

definition extension_entries :: "string \<Rightarrow> string list" where
  "extension_entries resp_head =
     filter (\<lambda>e. trim e \<noteq> []) (concat (map (split_on CHR '','') (extension_values (utf8_lossy resp_head))))"

definition entry_name :: "string \<Rightarrow> string" where
  "entry_name e = trim (hd (split_on CHR '';'' e))"

definition entry_keys :: "string \<Rightarrow> string list" where
  "entry_keys e = map (\<lambda>p. trim (hd (split_on CHR ''='' (trim p)))) (tl (split_on CHR '';'' e))"

lemma read_entries_filter: "read_entries es n = read_entries (filter (\<lambda>e. trim e \<noteq> []) es) n"
  by (induction es arbitrary: n) (auto split: list.splits)

lemma read_param_flags:
  "read_param out p = out
     \<lparr>df_client_no_context_takeover := df_client_no_context_takeover out \<or>
        eq_ignore_case (trim (hd (split_on CHR ''='' p))) ''client_no_context_takeover'',
      df_server_no_context_takeover := df_server_no_context_takeover out \<or>
        eq_ignore_case (trim (hd (split_on CHR ''='' p))) ''server_no_context_takeover''\<rparr>"
proof -
  let ?k = "trim (hd (split_on CHR ''='' p))"
  have "to_ascii_lowercase ''client_no_context_takeover'' \<noteq> to_ascii_lowercase ''server_no_context_takeover''" by code_simp
  then have "eq_ignore_case ?k ''client_no_context_takeover'' \<Longrightarrow> \<not> eq_ignore_case ?k ''server_no_context_takeover''"
    unfolding eq_ignore_case_def by metis
  then show ?thesis unfolding read_param_def Let_def
    by (cases "eq_ignore_case ?k ''client_no_context_takeover''"; cases "eq_ignore_case ?k ''server_no_context_takeover''") simp_all
qed

lemma read_params:
  "foldl read_param out ps = out
     \<lparr>df_client_no_context_takeover := df_client_no_context_takeover out \<or>
        list_ex (\<lambda>p. eq_ignore_case (trim (hd (split_on CHR ''='' p))) ''client_no_context_takeover'') ps,
      df_server_no_context_takeover := df_server_no_context_takeover out \<or>
        list_ex (\<lambda>p. eq_ignore_case (trim (hd (split_on CHR ''='' p))) ''server_no_context_takeover'') ps\<rparr>"
proof (induction ps arbitrary: out)
  case (Cons p ps)
  show ?case unfolding foldl_Cons Cons.IH [of "read_param out p"] by (simp add: read_param_flags [of out p] disj_assoc)
qed simp

lemma read_one:
  assumes "trim e \<noteq> []" "eq_ignore_case (entry_name e) ''permessage-deflate''"
  shows "read_entries (e # es) None = read_entries es (Some
    \<lparr>df_negotiated = True,
     df_client_no_context_takeover = list_ex (\<lambda>k. eq_ignore_case k ''client_no_context_takeover'') (entry_keys e),
     df_server_no_context_takeover = list_ex (\<lambda>k. eq_ignore_case k ''server_no_context_takeover'') (entry_keys e)\<rparr>)"
proof -
  obtain n ps where s: "split_on CHR '';'' e = n # ps" using split_on_nonempty [of "CHR '';''" e] by (cases "split_on CHR '';'' e") auto
  have "entry_name e = trim n" by (simp add: entry_name_def s)
  then show ?thesis using assms by (simp add: s read_params no_deflate_def entry_keys_def list_ex_iff)
qed

lemma read_stops:
  assumes "trim e \<noteq> []" "n \<noteq> None \<or> \<not> eq_ignore_case (entry_name e) ''permessage-deflate''"
  shows "read_entries (e # es) n = None"
proof -
  obtain m ps where s: "split_on CHR '';'' e = m # ps" using split_on_nonempty [of "CHR '';''" e] by (cases "split_on CHR '';'' e") auto
  have "entry_name e = trim m" by (simp add: entry_name_def s)
  then show ?thesis using assms by (cases n) (simp_all add: s)
qed

text \<open>Compression is taken as negotiated exactly when the response's whole list of extensions, over all
  its fields and leaving empty elements out, is one \<open>permessage-deflate\<close> entry; the two takeover flags are
  that entry's parameters.\<close>

theorem negotiated_deflate_whole_list:
  "negotiated_deflate resp_head =
     (case extension_entries resp_head of
        [e] \<Rightarrow>
          if eq_ignore_case (entry_name e) ''permessage-deflate''
          then \<lparr>df_negotiated = True,
                df_client_no_context_takeover = list_ex (\<lambda>k. eq_ignore_case k ''client_no_context_takeover'') (entry_keys e),
                df_server_no_context_takeover = list_ex (\<lambda>k. eq_ignore_case k ''server_no_context_takeover'') (entry_keys e)\<rparr>
          else no_deflate
      | _ \<Rightarrow> no_deflate)"
proof -
  let ?es = "extension_entries resp_head"
  have d: "negotiated_deflate resp_head = (case read_entries ?es None of Some (Some out) \<Rightarrow> out | _ \<Rightarrow> no_deflate)"
    unfolding negotiated_deflate_def extension_entries_def read_entries_filter [symmetric]
    by (cases "extension_values (utf8_lossy resp_head)") simp_all
  have entry: "trim e \<noteq> []" if "e \<in> set ?es" for e using that by (auto simp: extension_entries_def)
  show ?thesis
  proof (cases ?es)
    case Nil
    then show ?thesis by (simp add: d)
  next
    case (Cons e es)
    then have e: "trim e \<noteq> []" using entry [of e] by simp
    show ?thesis
    proof (cases "eq_ignore_case (entry_name e) ''permessage-deflate''")
      case False
      then show ?thesis using read_stops [OF e, of None es] by (simp add: d Cons split: list.split)
    next
      case True
      show ?thesis
      proof (cases es)
        case Nil
        then show ?thesis unfolding d Cons read_one [OF e True] Nil using True by simp
      next
        case (Cons e' es')
        have "trim e' \<noteq> []" using entry [of e'] \<open>?es = e # es\<close> Cons by simp
        then show ?thesis unfolding d \<open>?es = e # es\<close> read_one [OF e True] Cons by (simp add: read_stops del: read_entries.simps)
      qed
    qed
  qed
qed

end
