(* ===== verification/Lens.thy ===== *)
theory Lens
  imports Fs_Policy Credential_Use
begin

text \<open>
  The decision lenses, src/src/sandbox/lens.rs: the filter every free text passes
  (src/src/sandbox/observe_feed.rs), the bounded ring of events, the session record it is also written
  to, the control wire (\<open>dispatch_log\<close>, and the reader of src/src/sandbox/reply.rs) and the events of
  the five lenses. An event's line is a pair of functions, \<open>format_line\<close> and \<open>parse_line\<close>; the locale
  \<open>wire_event\<close> is what the wire relies on them for. Sequence numbers are natural numbers: the code
  counts events in a \<open>u64\<close> it never fills. Sockets and their timeouts are I/O.
\<close>

section \<open>Free text\<close>

definition SANITIZED_CHARS :: nat where
  "SANITIZED_CHARS = 512"

definition DETAIL_MAX :: nat where
  "DETAIL_MAX = 200"

text \<open>The character that ends a text that was cut, U+2026.\<close>

definition ELLIPSIS :: string where
  "ELLIPSIS = [CHR 0xE2, CHR 0x80, CHR 0xA6]"

definition clean_char :: "string \<Rightarrow> string" where
  "clean_char c = (if has_control c \<or> reorders c then '' '' else c)"

definition sanitize :: "string \<Rightarrow> string" where
  "sanitize s =
     (let cleaned = map clean_char (chars s) in
      if length cleaned \<le> SANITIZED_CHARS then concat cleaned
      else concat (take (SANITIZED_CHARS - 1) cleaned) @ ELLIPSIS)"

definition sanitize_detail :: "string \<Rightarrow> string" where
  "sanitize_detail s =
     (let out = sanitize s in
      if DETAIL_MAX < length (chars out) then concat (take (DETAIL_MAX - 1) (chars out)) @ ELLIPSIS else out)"

section \<open>The session record\<close>

definition RECORD_RESERVED :: "string list" where
  "RECORD_RESERVED = [''project='', ''app='', ''truncated='']"

definition RECORD_MAX_BYTES :: nat where
  "RECORD_MAX_BYTES = 4 * 1024 * 1024"

definition RECORD_TRUNCATED_NOTE :: string where
  "RECORD_TRUNCATED_NOTE = ''truncated=1'' @ [LF]"

definition RECORD_READ_MAX :: nat where
  "RECORD_READ_MAX = RECORD_MAX_BYTES + length RECORD_TRUNCATED_NOTE"

definition identity_is_recordable :: "string \<Rightarrow> string option \<Rightarrow> bool" where
  "identity_is_recordable project app =
     (let carries_break = (\<lambda>s. LF \<in> set s \<or> CR \<in> set s) in
      \<not> carries_break project \<and> \<not> (case app of Some a \<Rightarrow> carries_break a | None \<Rightarrow> False))"

text \<open>The file and, while it is open, how much went into it. The last argument of an operation that
  writes is the outcome of the write: \<open>None\<close> when it succeeds, otherwise how many bytes went out before
  it failed.\<close>

record recorder =
  rc_file :: string
  rc_written :: nat
  rc_open :: bool

definition record_header :: "string \<Rightarrow> string option \<Rightarrow> string" where
  "record_header project app =
     ''project='' @ project @ [LF] @ (case app of Some a \<Rightarrow> ''app='' @ a @ [LF] | None \<Rightarrow> [])"

definition Recorder_create :: "string \<Rightarrow> string option \<Rightarrow> nat option \<Rightarrow> recorder option" where
  "Recorder_create project app outcome =
     (if \<not> identity_is_recordable project app then None
      else let header = record_header project app in
        case outcome of
          Some _ \<Rightarrow> None
        | None \<Rightarrow> Some \<lparr>rc_file = header, rc_written = length header, rc_open = True\<rparr>)"

definition Recorder_record ::
  "(string \<Rightarrow> string \<Rightarrow> nat option) \<Rightarrow> secret_needle list \<Rightarrow> nat option \<Rightarrow> string \<Rightarrow> recorder \<Rightarrow> recorder" where
  "Recorder_record finder needles outcome line rc =
     (let line = fst (redact_string finder line needles Plain) in
      if list_ex (\<lambda>p. starts_with p line) RECORD_RESERVED then rc
      else
        let line = (if ends_with [LF] line then line else line @ [LF]) in
        if \<not> rc_open rc then rc
        else if RECORD_MAX_BYTES < rc_written rc + length line then
          rc\<lparr>rc_file := rc_file rc @ (case outcome of None \<Rightarrow> RECORD_TRUNCATED_NOTE | Some n \<Rightarrow> take n RECORD_TRUNCATED_NOTE),
             rc_open := False\<rparr>
        else case outcome of
          Some n \<Rightarrow> rc\<lparr>rc_file := rc_file rc @ take n line, rc_open := False\<rparr>
        | None \<Rightarrow> rc\<lparr>rc_file := rc_file rc @ line, rc_written := rc_written rc + length line\<rparr>)"

text \<open>\<open>str::from_utf8\<close>'s error: how many bytes are valid before it, and whether the text merely ends
  inside a character.\<close>

function utf8_error :: "string \<Rightarrow> (nat \<times> bool) option" where
  "utf8_error [] = None"
| "utf8_error (b # s) =
     (let (ok, k) = utf8_seq b s in
      if ok then map_option (\<lambda>(n, unfinished). (Suc k + n, unfinished)) (utf8_error (drop k s))
      else Some (0, utf8_char_width b \<noteq> 0 \<and> k = length s))"
  by pat_completeness auto
termination by (relation "measure length") auto

declare utf8_error.simps(2) [simp del]

definition read_bounded :: "string \<Rightarrow> io_fault + (string \<times> bool)" where
  "read_bounded file =
     (let buf = take RECORD_READ_MAX file; over = RECORD_READ_MAX < length file in
      case utf8_error buf of
        None \<Rightarrow> Inr (buf, over)
      | Some (valid, unfinished) \<Rightarrow> if over \<and> unfinished then Inr (take valid buf, over) else Inl Broken)"

record 'e session_record =
  sr_project :: string
  sr_app :: "string option"
  sr_truncated :: bool
  sr_events :: "'e list"

definition read_record_line :: "(string \<Rightarrow> 'e option) \<Rightarrow> 'e session_record \<times> bool \<Rightarrow> string \<Rightarrow> 'e session_record \<times> bool" where
  "read_record_line parse acc line =
     (let (r, named) = acc in
      case strip_prefix ''project='' line of
        Some rest \<Rightarrow> if named then (r, named) else (r\<lparr>sr_project := rest\<rparr>, True)
      | None \<Rightarrow>
          (case strip_prefix ''app='' line of
             Some rest \<Rightarrow> if sr_app r = None then (r\<lparr>sr_app := Some rest\<rparr>, named) else (r, named)
           | None \<Rightarrow>
               if starts_with ''truncated='' line then (r\<lparr>sr_truncated := True\<rparr>, named)
               else (case parse line of Some e \<Rightarrow> (r\<lparr>sr_events := sr_events r @ [e]\<rparr>, named) | None \<Rightarrow> (r, named))))"

definition read_record_with :: "(string \<Rightarrow> 'e option) \<Rightarrow> string \<Rightarrow> io_fault + 'e session_record" where
  "read_record_with parse file =
     (case read_bounded file of
        Inl e \<Rightarrow> Inl e
      | Inr (decoded, over) \<Rightarrow>
          Inr (fst (foldl (read_record_line parse)
            (\<lparr>sr_project = [], sr_app = None, sr_truncated = over, sr_events = []\<rparr>, False) (str_lines decoded))))"

section \<open>The ring\<close>

record 'e ring =
  rg_next :: nat
  rg_events :: "'e list"
  rg_cap :: nat

definition Ring_new :: "nat \<Rightarrow> 'e ring" where
  "Ring_new cap = \<lparr>rg_next = 1, rg_events = [], rg_cap = max cap 1\<rparr>"

text \<open>\<open>push_with\<close>: \<open>mk\<close> builds the event from its number and its time; the record, where there is one,
  is written after the ring.\<close>

definition Ring_push :: "(nat \<Rightarrow> nat \<Rightarrow> 'e) \<Rightarrow> nat \<Rightarrow> 'e ring \<Rightarrow> nat \<times> 'e ring" where
  "Ring_push mk now r =
     (let seq = rg_next r; events = rg_events r @ [mk seq now] in
      (seq, r\<lparr>rg_next := seq + 1, rg_events := drop (length events - rg_cap r) events\<rparr>))"

definition Ring_push_recorded ::
  "(string \<Rightarrow> string \<Rightarrow> nat option) \<Rightarrow> secret_needle list \<Rightarrow> nat option \<Rightarrow> ('e \<Rightarrow> string) \<Rightarrow> (nat \<Rightarrow> nat \<Rightarrow> 'e) \<Rightarrow> nat \<Rightarrow>
    'e ring \<times> recorder option \<Rightarrow> nat \<times> 'e ring \<times> recorder option" where
  "Ring_push_recorded finder needles outcome format mk now st =
     (let (r, record) = st; (seq, r') = Ring_push mk now r in
      (seq, r', map_option (Recorder_record finder needles outcome (format (mk seq now))) record))"

record 'e lens_snapshot =
  sp_events :: "'e list"
  sp_dropped :: nat
  sp_head :: nat

text \<open>\<open>saturating_add\<close> on a \<open>u64\<close>.\<close>

definition U64_MAX :: nat where
  "U64_MAX = 2 ^ 64 - 1"

definition Ring_snapshot :: "('e \<Rightarrow> nat) \<Rightarrow> nat option \<Rightarrow> 'e ring \<Rightarrow> 'e lens_snapshot" where
  "Ring_snapshot seq_of after r =
     (let head = rg_next r - 1; cursor = (case after of Some a \<Rightarrow> a | None \<Rightarrow> 0) in
      \<lparr>sp_events = filter (\<lambda>e. cursor < seq_of e) (rg_events r),
       sp_dropped =
         (case (after, rg_events r) of
            (Some a, oldest # _) \<Rightarrow> if min (a + 1) U64_MAX < seq_of oldest then seq_of oldest - a - 1 else 0
          | _ \<Rightarrow> 0),
       sp_head = head\<rparr>)"

section \<open>The wire\<close>

text \<open>\<open>str::split_whitespace\<close>.\<close>

fun split_white :: "string list \<Rightarrow> string list list" where
  "split_white [] = [[]]"
| "split_white (c # cs) =
     (if c \<in> set white_space then [] # split_white cs
      else (case split_white cs of [] \<Rightarrow> [[c]] | x # xs \<Rightarrow> (c # x) # xs))"

definition split_whitespace :: "string \<Rightarrow> string list" where
  "split_whitespace s = map concat (filter (\<lambda>w. w \<noteq> []) (split_white (chars s)))"

text \<open>\<open>str::parse\<close> of an unsigned integer of \<open>w\<close> bits.\<close>

definition parse_uint :: "nat \<Rightarrow> string \<Rightarrow> nat option" where
  "parse_uint w s =
     (let ds = (case s of c # r \<Rightarrow> if c = CHR ''+'' then r else s | [] \<Rightarrow> s) in
      if ds = [] then None
      else case parse_digits 10 ds of Some n \<Rightarrow> if n < 2 ^ w then Some n else None | None \<Rightarrow> None)"

text \<open>The fixed tokens of an event line, in order, and the text behind the marker.\<close>

definition read_event_line :: "string \<Rightarrow> string \<Rightarrow> ((string \<times> string) list \<times> string) option" where
  "read_event_line line marker =
     (case strip_prefix ''event '' line of
        None \<Rightarrow> None
      | Some rest \<Rightarrow>
          (case split_once_str marker rest of
             None \<Rightarrow> None
           | Some (head, tail) \<Rightarrow>
               (case those (map (split_once CHR ''='') (split_whitespace head)) of
                  None \<Rightarrow> None
                | Some kvs \<Rightarrow> Some (kvs, tail))))"

text \<open>What a token's later occurrences leave of a field.\<close>

definition field_of :: "(string \<times> string) list \<Rightarrow> string \<Rightarrow> (string \<Rightarrow> 'a option) \<Rightarrow> 'a option" where
  "field_of kvs key f = foldl (\<lambda>acc (k, v). if k = key then f v else acc) None kvs"

definition dispatch_log :: "('e \<Rightarrow> nat) \<Rightarrow> ('e \<Rightarrow> string) \<Rightarrow> string \<Rightarrow> 'e ring \<Rightarrow> string" where
  "dispatch_log seq_of format cmd r =
     (case split_whitespace cmd of
        verb # parts \<Rightarrow>
          if verb = ''LOG'' then
            let after = foldl (\<lambda>acc t. case strip_prefix ''after='' t of Some v \<Rightarrow> parse_uint 64 v | None \<Rightarrow> acc) None parts;
                snap = Ring_snapshot seq_of after r
            in (if 0 < sp_dropped snap then ''dropped='' @ fmt_nat 10 (sp_dropped snap) @ [LF] else []) @
               ''head='' @ fmt_nat 10 (sp_head snap) @ [LF] @ concat (map format (sp_events snap)) @ ''ok'' @ [LF]
          else ''err bad-request'' @ [LF]
      | [] \<Rightarrow> ''err bad-request'' @ [LF])"

text \<open>\<open>reply::answer\<close> over the lines of a stream, each an error where it is not UTF-8.\<close>

fun answer :: "string list \<Rightarrow> bool \<Rightarrow> (io_fault + string) list" where
  "answer [] ends_on_err = (if ends_on_err then [] else [Inl UnexpectedEof])"
| "answer (line # ls) ends_on_err =
     (if \<not> valid_utf8 line then [Inl Broken]
      else if line = ''ok'' then []
      else Inr line # answer ls (starts_with ''err '' line))"

fun read_log_lines :: "(string \<Rightarrow> 'e option) \<Rightarrow> (io_fault + string) list \<Rightarrow> 'e lens_snapshot \<Rightarrow> io_fault + 'e lens_snapshot" where
  "read_log_lines parse [] snap = Inr snap"
| "read_log_lines parse (Inl e # ls) snap = Inl e"
| "read_log_lines parse (Inr line # ls) snap =
     (case strip_prefix ''dropped='' line of
        Some v \<Rightarrow> read_log_lines parse ls (snap\<lparr>sp_dropped := (case parse_uint 64 v of Some n \<Rightarrow> n | None \<Rightarrow> 0)\<rparr>)
      | None \<Rightarrow>
          (case strip_prefix ''head='' line of
             Some v \<Rightarrow> read_log_lines parse ls (snap\<lparr>sp_head := (case parse_uint 64 v of Some n \<Rightarrow> n | None \<Rightarrow> 0)\<rparr>)
           | None \<Rightarrow>
               (case parse line of
                  Some e \<Rightarrow> read_log_lines parse ls (snap\<lparr>sp_events := sp_events snap @ [e]\<rparr>)
                | None \<Rightarrow> read_log_lines parse ls snap)))"

definition read_log :: "(string \<Rightarrow> 'e option) \<Rightarrow> string \<Rightarrow> io_fault + 'e lens_snapshot" where
  "read_log parse reply =
     read_log_lines parse (answer (str_lines reply) False) \<lparr>sp_events = [], sp_dropped = 0, sp_head = 0\<rparr>"

text \<open>The command a reader sends, and how the server reads it.\<close>

definition log_command :: "nat option \<Rightarrow> string" where
  "log_command after = ''LOG'' @ (case after of Some n \<Rightarrow> '' after='' @ fmt_nat 10 n | None \<Rightarrow> []) @ [LF]"

section \<open>Characters of valid text\<close>

definition one_char :: "string \<Rightarrow> bool" where
  "one_char c \<longleftrightarrow> (case c of [] \<Rightarrow> False | b # r \<Rightarrow> utf8_seq b r = (True, length r))"

lemma conts_take: "conts n s = (True, k) \<Longrightarrow> conts n (take k s) = (True, k)"
  by (induction n s arbitrary: k rule: conts.induct) (auto split: if_splits prod.splits)

lemma utf8_seq_take:
  assumes "utf8_seq b s = (True, k)"
  shows "utf8_seq b (take k s) = (True, k)"
proof (cases "utf8_char_width b \<le> 1")
  case True
  then show ?thesis using assms by (auto simp: utf8_seq_def Let_def split: if_splits)
next
  case False
  then obtain c r k' where s: "s = c # r" "second_ok b c" "conts (utf8_char_width b - 2) r = (True, k')" "k = Suc k'"
    using assms by (auto simp: utf8_seq_def Let_def split: if_splits list.splits prod.splits)
  show ?thesis using False s(2) conts_take [OF s(3)] by (auto simp: s(1,4) utf8_seq_def Let_def)
qed

lemma one_char_simps [simp]: "\<not> one_char []" "one_char (b # r) \<longleftrightarrow> utf8_seq b r = (True, length r)"
  by (simp_all add: one_char_def)

lemma one_char_append: "one_char (b # r) \<Longrightarrow> utf8_seq b (r @ t) = (True, length r)"
  using utf8_seq_append [of b r "length r" t] by simp

lemma chars_one: "one_char c \<Longrightarrow> chars (c @ t) = c # chars t"
  by (cases c) (simp_all add: chars.simps(2) one_char_append del: one_char_simps(2))

lemma valid_utf8_one: "one_char c \<Longrightarrow> valid_utf8 (c @ t) = valid_utf8 t"
  by (cases c) (simp_all add: valid_utf8.simps(2) one_char_append del: one_char_simps(2))

lemma list_all_take: "list_all P xs \<Longrightarrow> list_all P (take n xs)"
  by (auto simp: list_all_iff dest: in_set_takeD)

lemma chars_concat: "list_all one_char cs \<Longrightarrow> chars (concat cs) = cs"
  by (induction cs) (simp_all add: chars_one)

lemma valid_utf8_concat: "list_all one_char cs \<Longrightarrow> valid_utf8 (concat cs)"
  by (induction cs) (simp_all add: valid_utf8_one)

lemma chars_valid: "valid_utf8 s \<Longrightarrow> list_all one_char (chars s)"
proof (induction s rule: chars.induct)
  case (2 b s)
  obtain ok k where k: "utf8_seq b s = (ok, k)" by fastforce
  then show ?case using 2 utf8_seq_take [of b s k] utf8_seq_bound [OF k]
    by (auto simp: chars.simps(2) valid_utf8.simps(2))
qed simp

lemma valid_utf8_append_iff: "valid_utf8 a \<Longrightarrow> valid_utf8 (a @ b) = valid_utf8 b"
proof -
  assume "valid_utf8 a"
  then have "list_all one_char (chars a)" by (rule chars_valid)
  moreover have "list_all one_char cs \<Longrightarrow> valid_utf8 (concat cs @ b) = valid_utf8 b" for cs
    by (induction cs) (simp_all add: valid_utf8_one)
  ultimately have "valid_utf8 (concat (chars a) @ b) = valid_utf8 b" by blast
  then show ?thesis by simp
qed

section \<open>What the filter lets through\<close>

text \<open>A text with no byte of a control character: it cannot end a line, nor drive a terminal.\<close>

definition one_line :: "string \<Rightarrow> bool" where
  "one_line s \<longleftrightarrow> list_all (\<lambda>c. 32 \<le> byte c \<and> byte c \<noteq> 127) s"

lemma one_line_simps [simp]: "one_line []" "one_line (c # s) \<longleftrightarrow> 32 \<le> byte c \<and> byte c \<noteq> 127 \<and> one_line s"
  "one_line (a @ b) \<longleftrightarrow> one_line a \<and> one_line b"
  by (auto simp: one_line_def)

lemma one_line_concat: "list_all one_line cs \<Longrightarrow> one_line (concat cs)"
  by (induction cs) simp_all

lemma chars_lines: "c \<in> set (chars s) \<Longrightarrow> \<not> has_control c \<Longrightarrow> one_line c"
proof (induction s rule: chars.induct)
  case (2 b s)
  obtain ok k where k: "utf8_seq b s = (ok, k)" by fastforce
  have "one_line (b # take k s)" if "\<not> has_control (b # take k s)"
    using that utf8_seq_consumed [OF k] by (auto simp: one_line_def list_all_iff is_continuation_def)
  then show ?case using 2 k by (auto simp: chars.simps(2))
qed simp

lemma clean_char_line: "c \<in> set (chars s) \<Longrightarrow> one_line (clean_char c)"
  using chars_lines [of c s] by (auto simp: clean_char_def)

lemma one_line_ELLIPSIS [simp]: "one_line ELLIPSIS"
  by (simp add: ELLIPSIS_def)

lemma sanitize_one_line: "one_line (sanitize s)"
proof -
  have c: "list_all one_line (map clean_char (chars s))" by (simp add: list_all_iff clean_char_line)
  show ?thesis unfolding sanitize_def Let_def
    using one_line_concat [OF c] one_line_concat [OF list_all_take [OF c]] by simp
qed

lemma concat_take_one_line: "one_line (concat cs) \<Longrightarrow> one_line (concat (take n cs))"
  by (metis append_take_drop_id concat_append one_line_simps(3))

lemma sanitize_detail_one_line: "one_line (sanitize_detail s)"
  unfolding sanitize_detail_def Let_def using sanitize_one_line [of s] concat_take_one_line [of "chars (sanitize s)"]
  by auto

lemma one_char_ELLIPSIS [simp]: "one_char ELLIPSIS"
  by code_simp

lemma clean_char_one: "one_char c \<Longrightarrow> one_char (clean_char c)"
  by (simp add: clean_char_def)

lemma sanitize_chars:
  assumes "valid_utf8 s"
  shows "\<exists>cs. list_all one_char cs \<and> sanitize s = concat cs \<and> length cs \<le> SANITIZED_CHARS"
proof -
  let ?cs = "map clean_char (chars s)"
  have o: "list_all one_char ?cs" using chars_valid [OF assms] clean_char_one by (auto simp: list_all_iff)
  show ?thesis
  proof (cases "length ?cs \<le> SANITIZED_CHARS")
    case True
    then show ?thesis using o by (intro exI [of _ ?cs]) (simp add: sanitize_def Let_def)
  next
    case False
    have "list_all one_char (take (SANITIZED_CHARS - 1) ?cs @ [ELLIPSIS])" using list_all_take [OF o] by simp
    then show ?thesis using False
      by (intro exI [of _ "take (SANITIZED_CHARS - 1) ?cs @ [ELLIPSIS]"]) (simp add: sanitize_def Let_def SANITIZED_CHARS_def)
  qed
qed

lemma sanitize_detail_chars:
  assumes "valid_utf8 s"
  shows "\<exists>cs. list_all one_char cs \<and> sanitize_detail s = concat cs \<and> length cs \<le> DETAIL_MAX"
proof -
  obtain cs where cs: "list_all one_char cs" "sanitize s = concat cs" using sanitize_chars [OF assms] by blast
  have ch: "chars (sanitize s) = cs" unfolding cs(2) by (rule chars_concat [OF cs(1)])
  show ?thesis
  proof (cases "DETAIL_MAX < length cs")
    case True
    have "list_all one_char (take (DETAIL_MAX - 1) cs @ [ELLIPSIS])" using list_all_take [OF cs(1)] by simp
    then show ?thesis using True
      by (intro exI [of _ "take (DETAIL_MAX - 1) cs @ [ELLIPSIS]"]) (simp add: sanitize_detail_def Let_def ch DETAIL_MAX_def)
  next
    case False
    then have "sanitize_detail s = concat cs" unfolding sanitize_detail_def Let_def ch using cs(2) by simp
    then show ?thesis using cs(1) False by (intro exI [of _ cs]) simp
  qed
qed

section \<open>The ring is a window\<close>

text \<open>A ring holds the last events, numbered without a gap, as many as it has room for.\<close>

definition ring_window :: "('e \<Rightarrow> nat) \<Rightarrow> 'e ring \<Rightarrow> bool" where
  "ring_window seq_of r \<longleftrightarrow>
     0 < rg_cap r \<and> 0 < rg_next r \<and> length (rg_events r) = min (rg_next r - 1) (rg_cap r) \<and>
     map seq_of (rg_events r) = [rg_next r - length (rg_events r) ..< rg_next r]"

lemma ring_window_new: "ring_window seq_of (Ring_new cap)"
  by (simp add: ring_window_def Ring_new_def)

lemma ring_window_push:
  assumes "ring_window seq_of r" "\<And>n t. seq_of (mk n t) = n"
  shows "ring_window seq_of (snd (Ring_push mk now r))" "rg_next (snd (Ring_push mk now r)) = rg_next r + 1"
    "rg_cap (snd (Ring_push mk now r)) = rg_cap r"
proof -
  let ?es = "rg_events r @ [mk (rg_next r) now]" and ?n = "length (rg_events r)"
  have w: "0 < rg_cap r" "0 < rg_next r" "?n = min (rg_next r - 1) (rg_cap r)"
    "map seq_of (rg_events r) = [rg_next r - ?n ..< rg_next r]" using assms(1) by (auto simp: ring_window_def)
  have m: "map seq_of ?es = [rg_next r - ?n ..< rg_next r + 1]"
    using w(2,3) by (simp add: w(4) assms(2) upt_Suc del: upt.simps) simp
  let ?d = "drop (Suc ?n - rg_cap r) ?es" and ?k = "min (rg_next r) (rg_cap r)"
  have l: "length ?d = ?k" using w(1-3) by (auto simp: min_def)
  have "map seq_of ?d = [rg_next r - ?n + (Suc ?n - rg_cap r) ..< rg_next r + 1]"
    unfolding drop_map [symmetric] m by (rule drop_upt)
  moreover have "rg_next r - ?n + (Suc ?n - rg_cap r) = rg_next r + 1 - ?k" using w(1-3) by (auto simp: min_def)
  ultimately have d: "map seq_of ?d = [rg_next r + 1 - length ?d ..< rg_next r + 1]" unfolding l by (simp only:)
  have r': "snd (Ring_push mk now r) = r\<lparr>rg_next := rg_next r + 1, rg_events := ?d\<rparr>" by (simp add: Ring_push_def Let_def)
  show "ring_window seq_of (snd (Ring_push mk now r))"
    unfolding ring_window_def r' ring.simps using w(1) l d by (simp only: add_diff_cancel_right' ring.simps) simp
  show "rg_next (snd (Ring_push mk now r)) = rg_next r + 1" "rg_cap (snd (Ring_push mk now r)) = rg_cap r"
    by (simp_all add: Ring_push_def Let_def)
qed

lemma snapshot_after:
  assumes "ring_window seq_of r" "c < rg_next r" "c < U64_MAX"
  defines "s \<equiv> Ring_snapshot seq_of (Some c) r"
  shows "map seq_of (sp_events s) = [max (c + 1) (rg_next r - length (rg_events r)) ..< rg_next r]"
    "sp_dropped s + length (sp_events s) = rg_next r - 1 - c" "sp_head s = rg_next r - 1"
proof -
  let ?n = "length (rg_events r)"
  have w: "?n = min (rg_next r - 1) (rg_cap r)" "map seq_of (rg_events r) = [rg_next r - ?n ..< rg_next r]" "0 < rg_cap r"
    using assms(1) by (auto simp: ring_window_def)
  have f: "filter (\<lambda>x. c < x) [a ..< b] = [max (c + 1) a ..< b]" for a b
    by (induction b) (auto simp: max_def)
  have "map seq_of (sp_events s) = filter (\<lambda>x. c < x) (map seq_of (rg_events r))"
    by (simp add: s_def Ring_snapshot_def filter_map comp_def)
  then show m: "map seq_of (sp_events s) = [max (c + 1) (rg_next r - ?n) ..< rg_next r]" unfolding w(2) f .
  have l: "length (sp_events s) = rg_next r - max (c + 1) (rg_next r - ?n)" using arg_cong [OF m, of length] by simp
  show "sp_head s = rg_next r - 1" by (simp add: s_def Ring_snapshot_def)
  show "sp_dropped s + length (sp_events s) = rg_next r - 1 - c"
  proof (cases "rg_events r")
    case Nil
    then have "rg_next r \<le> 1" using w(1,3) by simp
    then have "rg_next r = 1" "c = 0" using assms(2) by simp_all
    then show ?thesis using l Nil by (simp add: s_def Ring_snapshot_def)
  next
    case (Cons e es)
    have "seq_of e = rg_next r - ?n" using arg_cong [OF w(2), of hd] Cons assms(2) by simp
    moreover have "min (c + 1) U64_MAX = c + 1" using assms(3) by simp
    then have "sp_dropped s = (if c + 1 < seq_of e then seq_of e - c - 1 else 0)"
      unfolding s_def Ring_snapshot_def Let_def Cons by simp
    ultimately have "sp_dropped s = rg_next r - ?n - c - 1" by simp
    moreover have "?n \<le> rg_next r - 1" using w(1) by simp
    ultimately show ?thesis unfolding l using assms(2) by (cases "c + 1 \<le> rg_next r - ?n") simp_all
  qed
qed

text \<open>A reader that follows: it polls between batches of pushes, each time from the head it was last told.\<close>

fun follow :: "('e \<Rightarrow> nat) \<Rightarrow> (nat \<Rightarrow> nat \<Rightarrow> 'e) list list \<Rightarrow> 'e ring \<Rightarrow> nat \<Rightarrow> 'e lens_snapshot list" where
  "follow seq_of [] r c = []"
| "follow seq_of (b # bs) r c =
     (let r' = foldl (\<lambda>r mk. snd (Ring_push mk 0 r)) r b; s = Ring_snapshot seq_of (Some c) r'
      in s # follow seq_of bs r' (sp_head s))"

lemma pushes_window:
  assumes "ring_window seq_of r" "\<forall>mk \<in> set b. \<forall>n t. seq_of (mk n t) = n"
  shows "ring_window seq_of (foldl (\<lambda>r mk. snd (Ring_push mk 0 r)) r b) \<and>
    rg_next (foldl (\<lambda>r mk. snd (Ring_push mk 0 r)) r b) = rg_next r + length b"
  using assms
proof (induction b arbitrary: r)
  case (Cons mk b)
  then show ?case using ring_window_push [of seq_of r mk 0] by simp
qed simp

lemma follow_counts:
  assumes "ring_window seq_of r" "\<forall>b \<in> set bs. \<forall>mk \<in> set b. \<forall>n t. seq_of (mk n t) = n" "c < rg_next r"
    and "rg_next r + length (concat bs) \<le> U64_MAX"
  shows "sum_list (map (\<lambda>s. sp_dropped s + length (sp_events s)) (follow seq_of bs r c)) + c = (if bs = [] then c else rg_next r + length (concat bs) - 1) \<and>
    sorted_wrt (<) (concat (map (\<lambda>s. map seq_of (sp_events s)) (follow seq_of bs r c))) \<and>
    (\<forall>x \<in> set (concat (map (\<lambda>s. map seq_of (sp_events s)) (follow seq_of bs r c))). c < x)"
  using assms
proof (induction bs arbitrary: r c)
  case (Cons b bs)
  let ?r = "foldl (\<lambda>r mk. snd (Ring_push mk 0 r)) r b"
  let ?s = "Ring_snapshot seq_of (Some c) ?r"
  have p: "ring_window seq_of ?r" "rg_next ?r = rg_next r + length b"
    using pushes_window [of seq_of r b] Cons.prems(1,2) by simp_all
  have c: "c < rg_next ?r" "c < U64_MAX" using Cons.prems(3,4) p(2) by simp_all
  note s = snapshot_after [OF p(1) c]
  have h: "sp_head ?s < rg_next ?r" "rg_next ?r + length (concat bs) \<le> U64_MAX" using s(3) c(1) p(2) Cons.prems(4) by simp_all
  note IH = Cons.IH [OF p(1) _ h]
  have IH: "sum_list (map (\<lambda>s. sp_dropped s + length (sp_events s)) (follow seq_of bs ?r (sp_head ?s))) + sp_head ?s =
      (if bs = [] then sp_head ?s else rg_next ?r + length (concat bs) - 1)"
    "sorted_wrt (<) (concat (map (\<lambda>s. map seq_of (sp_events s)) (follow seq_of bs ?r (sp_head ?s))))"
    "\<forall>x \<in> set (concat (map (\<lambda>s. map seq_of (sp_events s)) (follow seq_of bs ?r (sp_head ?s)))). sp_head ?s < x"
    using IH Cons.prems(2) by simp_all
  have f: "follow seq_of (b # bs) r c = ?s # follow seq_of bs ?r (sp_head ?s)" by (simp add: Let_def)
  have below: "x \<le> sp_head ?s \<and> c < x" if "x \<in> set (map seq_of (sp_events ?s))" for x
    using that unfolding s(1) s(3) by auto
  have own: "sorted_wrt (<) (map seq_of (sp_events ?s))" unfolding s(1) by (rule sorted_wrt_upt)
  have "c \<le> sp_head ?s" using s(3) c(1) by simp
  have sum: "sum_list (map (\<lambda>s. sp_dropped s + length (sp_events s)) (follow seq_of (b # bs) r c)) + c =
      rg_next r + length (concat (b # bs)) - 1"
    unfolding f using s(2,3) IH(1) p(2) c(1) by (simp split: if_splits)
  have "sorted_wrt (<) (concat (map (\<lambda>s. map seq_of (sp_events s)) (follow seq_of (b # bs) r c)))"
    unfolding f list.map concat.simps sorted_wrt_append using own IH(2,3) below by fastforce
  moreover have "\<forall>x \<in> set (concat (map (\<lambda>s. map seq_of (sp_events s)) (follow seq_of (b # bs) r c))). c < x"
    unfolding f list.map concat.simps set_append using below IH(3) \<open>c \<le> sp_head ?s\<close> by fastforce
  ultimately show ?case using sum by simp
qed simp

section \<open>The wire carries a snapshot\<close>

lemma one_line_ends: "one_line l \<Longrightarrow> LF \<notin> set l \<and> CR \<notin> set l"
  by (auto simp: one_line_def list_all_iff LF_def CR_def)

lemma split_inclusive_line: "LF \<notin> set l \<Longrightarrow> split_inclusive (l @ LF # rest) = (l @ [LF]) # split_inclusive rest"
  by (induction l) auto

lemma strip_suffix_notin: "c \<notin> set s \<Longrightarrow> strip_suffix [c] s = None"
  by (cases "strip_suffix [c] s") (auto simp: strip_suffix_Some)

lemma str_lines_line:
  assumes "one_line l"
  shows "str_lines (l @ LF # rest) = l # str_lines rest"
  using one_line_ends [OF assms] by (simp add: str_lines_def split_inclusive_line strip_suffix_notin)

lemma str_lines_Nil [simp]: "str_lines [] = []"
  by (simp add: str_lines_def)

text \<open>A text of visible ASCII and spaces is a line and valid.\<close>

definition printable :: "string \<Rightarrow> bool" where
  "printable s \<longleftrightarrow> list_all (\<lambda>c. 32 \<le> byte c \<and> byte c < 127) s"

lemma printable_simps [simp]: "printable []" "printable (c # s) \<longleftrightarrow> 32 \<le> byte c \<and> byte c < 127 \<and> printable s"
  "printable (a @ b) \<longleftrightarrow> printable a \<and> printable b"
  by (auto simp: printable_def)

lemma printable_line: "printable s \<Longrightarrow> one_line s \<and> valid_utf8 s"
proof
  assume p: "printable s"
  then show "one_line s" by (auto simp: printable_def one_line_def list_all_iff)
  have "list_all is_ascii s" using p by (auto simp: printable_def is_ascii_def list_all_iff)
  then show "valid_utf8 s" by (rule valid_utf8_ascii)
qed

lemma printable_fmt [simp]: "printable (fmt_nat 10 n)"
  using fmt_nat_10_digits by (fastforce simp: printable_def list_all_iff is_ascii_digit_def less_eq_char_def)

lemma parse_uint_fmt:
  assumes "n < 2 ^ w"
  shows "parse_uint w (fmt_nat 10 n) = Some n"
proof (cases "fmt_nat 10 n")
  case (Cons c r)
  then have "is_ascii_digit c" using fmt_nat_10_digits [of c n] by simp
  then have "c \<noteq> CHR ''+''" by (auto simp: ascii_classes)
  then have "(case fmt_nat 10 n of c # r \<Rightarrow> if c = CHR ''+'' then r else fmt_nat 10 n | [] \<Rightarrow> fmt_nat 10 n) = fmt_nat 10 n"
    by (simp add: Cons)
  then show ?thesis using assms by (simp add: parse_uint_def)
qed simp

locale wire_event =
  fixes seq_of :: "'e \<Rightarrow> nat" and format :: "'e \<Rightarrow> string" and parse :: "string \<Rightarrow> 'e option" and good :: "'e \<Rightarrow> bool"
  assumes wire_line: "good e \<Longrightarrow> \<exists>l. format e = l @ [LF] \<and> one_line l \<and> valid_utf8 l \<and> prefix ''event '' l \<and> parse l = Some e"
begin

definition line_of_event :: "'e \<Rightarrow> string" where
  "line_of_event e = butlast (format e)"

lemma event_line:
  assumes "good e"
  shows "format e = line_of_event e @ [LF]" "one_line (line_of_event e)" "valid_utf8 (line_of_event e)"
    "prefix ''event '' (line_of_event e)" "parse (line_of_event e) = Some e"
  using wire_line [OF assms] by (auto simp: line_of_event_def butlast_append)

lemma lines_of_events:
  "list_all good es \<Longrightarrow> str_lines (concat (map format es) @ rest) = map line_of_event es @ str_lines rest"
  using event_line by (induction es) (simp_all add: str_lines_line)

lemma read_events:
  assumes "list_all good es"
  shows "read_log_lines parse (answer (map line_of_event es @ ls) b) snap =
     (if es = [] then read_log_lines parse (answer ls b) snap
      else read_log_lines parse (answer ls False) (snap\<lparr>sp_events := sp_events snap @ es\<rparr>))"
  using assms
proof (induction es arbitrary: snap b)
  case (Cons e es)
  then have g: "good e" by simp
  obtain r where r: "line_of_event e = ''event '' @ r" using event_line(4) [OF g] by (auto simp: prefix_def)
  have "line_of_event e \<noteq> ''ok''" "starts_with ''err '' (line_of_event e) = False"
    "strip_prefix ''dropped='' (line_of_event e) = None" "strip_prefix ''head='' (line_of_event e) = None"
    unfolding r by (simp_all add: starts_with_def)
  then show ?case using Cons event_line [OF g] by simp
qed simp


lemma read_reply:
  assumes "list_all good (sp_events snap)" "sp_dropped snap < 2 ^ 64" "sp_head snap < 2 ^ 64"
  shows "read_log parse
     ((if 0 < sp_dropped snap then ''dropped='' @ fmt_nat 10 (sp_dropped snap) @ [LF] else []) @
      ''head='' @ fmt_nat 10 (sp_head snap) @ [LF] @ concat (map format (sp_events snap)) @ ''ok'' @ [LF]) = Inr snap"
proof -
  let ?h = "''head='' @ fmt_nat 10 (sp_head snap)" and ?d = "''dropped='' @ fmt_nat 10 (sp_dropped snap)"
  have h: "printable ?h" "printable ?d" by simp_all
  have ok: "str_lines (''ok'' @ [LF]) = [''ok'']" using str_lines_line [of "''ok''" "[]"] by simp
  have body: "str_lines (concat (map format (sp_events snap)) @ ''ok'' @ [LF]) = map line_of_event (sp_events snap) @ [''ok'']"
    using lines_of_events [OF assms(1), of "''ok'' @ [LF]"] ok by simp
  have head: "str_lines (?h @ LF # concat (map format (sp_events snap)) @ ''ok'' @ [LF]) = ?h # map line_of_event (sp_events snap) @ [''ok'']"
    using str_lines_line [OF conjunct1 [OF printable_line [OF h(1)]]] body by simp
  have ends: "answer [''ok''] b = []" for b by (simp add: valid_utf8.simps(2) is_ascii_def)
  have evs: "read_log_lines parse (answer (?h # map line_of_event (sp_events snap) @ [''ok'']) b) s =
      Inr (s\<lparr>sp_head := sp_head snap, sp_events := sp_events s @ sp_events snap\<rparr>)" for b s
  proof -
    have "read_log_lines parse (answer (?h # map line_of_event (sp_events snap) @ [''ok'']) b) s =
        read_log_lines parse (answer (map line_of_event (sp_events snap) @ [''ok'']) (starts_with ''err '' ?h)) (s\<lparr>sp_head := sp_head snap\<rparr>)"
      using printable_line [OF h(1)] parse_uint_fmt [OF assms(3)] by simp
    also have "\<dots> = Inr (s\<lparr>sp_head := sp_head snap, sp_events := sp_events s @ sp_events snap\<rparr>)"
      unfolding read_events [OF assms(1)] ends by simp
    finally show ?thesis .
  qed
  show ?thesis
  proof (cases "0 < sp_dropped snap")
    case True
    have "str_lines (?d @ LF # ?h @ LF # concat (map format (sp_events snap)) @ ''ok'' @ [LF]) =
        ?d # ?h # map line_of_event (sp_events snap) @ [''ok'']"
      using str_lines_line [OF conjunct1 [OF printable_line [OF h(2)]]] head by simp
    moreover have "read_log_lines parse (answer (?d # ?h # map line_of_event (sp_events snap) @ [''ok'']) False) s =
        Inr (s\<lparr>sp_dropped := sp_dropped snap, sp_head := sp_head snap, sp_events := sp_events s @ sp_events snap\<rparr>)" for s
      using printable_line [OF h(2)] parse_uint_fmt [OF assms(2)] evs by simp
    ultimately show ?thesis using True by (simp add: read_log_def)
  next
    case False
    then show ?thesis using head evs by (simp add: read_log_def)
  qed
qed

end

lemma chars_graph: "list_all is_ascii w \<Longrightarrow> chars w = map (\<lambda>c. [c]) w"
  by (induction w) (simp_all add: chars.simps(2))

lemma visible_not_white: "visible c \<Longrightarrow> [c] \<notin> set white_space \<and> is_ascii c"
  using white_space_ends by (auto simp: list_all_iff visible_def is_ascii_def)

lemma split_white_word: "list_all visible w \<Longrightarrow> split_white (map (\<lambda>c. [c]) w @ [CHR '' ''] # cs) = map (\<lambda>c. [c]) w # split_white cs"
proof (induction w)
  case Nil
  have "[CHR '' ''] \<in> set white_space" by (simp add: white_space_code)
  then show ?case by simp
next
  case (Cons c w)
  then show ?case using visible_not_white [of c] by simp
qed

lemma split_white_last: "list_all visible w \<Longrightarrow> split_white (map (\<lambda>c. [c]) w) = [map (\<lambda>c. [c]) w]"
  by (induction w) (use visible_not_white in auto)

lemma split_whitespace_word:
  assumes "list_all visible w" "w \<noteq> []"
  shows "split_whitespace (w @ CHR '' '' # s) = w # split_whitespace s" "split_whitespace w = [w]"
proof -
  have a: "list_all is_ascii w" using assms(1) visible_not_white by (auto simp: list_all_iff)
  have c: "concat (map (\<lambda>c. [c]) w) = w" by (induction w) auto
  have sp: "is_ascii (CHR '' '')" by (simp add: is_ascii_def)
  show "split_whitespace (w @ CHR '' '' # s) = w # split_whitespace s"
    using assms by (simp add: split_whitespace_def chars_cut [OF sp] chars_graph [OF a] split_white_word c)
  show "split_whitespace w = [w]" using assms by (simp add: split_whitespace_def chars_graph [OF a] split_white_last c)
qed

lemma split_whitespace_Nil [simp]: "split_whitespace [] = []"
  by (simp add: split_whitespace_def)

lemma visible_fmt [simp]: "list_all visible (fmt_nat 10 n)"
  using fmt_nat_10_digits by (fastforce simp: list_all_iff visible_def is_ascii_digit_def less_eq_char_def)

lemma white_space_LF: "list_all (\<lambda>w. suffix w (x @ [LF]) \<longrightarrow> w = [LF]) white_space"
proof -
  have "list_all (\<lambda>w. w \<noteq> [] \<and> (last w = LF \<longrightarrow> w = [LF])) white_space"
    unfolding white_space_code LF_def by simp
  moreover have "suffix w (x @ [LF]) \<Longrightarrow> w \<noteq> [] \<Longrightarrow> last w = LF" for w by (auto simp: suffix_def dest: sym)
    (metis last_append last_snoc)
  ultimately show ?thesis by (auto simp: list_all_iff)
qed

lemma trim_line:
  assumes "s \<noteq> []" "visible (hd s)" "visible (last s)"
  shows "trim (s @ [LF]) = s"
proof -
  have "\<not> prefix w (s @ [LF])" if "w \<in> set white_space" for w
    using assms white_space_ends that by (auto simp: list_all_iff prefix_def hd_append split: if_splits) (metis hd_append)
  then have st: "strip_white (s @ [LF]) = None"
    by (auto simp: strip_white_def str_simps find_None_iff2 list_all_iff split: option.splits dest: find_SomeD)
  have "[LF] \<in> set white_space" by (simp add: white_space_code LF_def)
  then have "List.find (\<lambda>w. ends_with w (s @ [LF])) white_space = Some [LF]"
  proof -
    have "List.find (\<lambda>w. ends_with w (s @ [LF])) white_space \<noteq> None"
      using \<open>[LF] \<in> set white_space\<close> by (auto simp: find_None_iff2 list_all_iff str_simps suffix_def intro!: bexI [of _ "[LF]"])
    then obtain w where w: "List.find (\<lambda>w. ends_with w (s @ [LF])) white_space = Some w" by blast
    then have "w \<in> set white_space" "suffix w (s @ [LF])" by (auto dest: find_SomeD simp: str_simps)
    then show ?thesis using w white_space_LF [of s] by (auto simp: list_all_iff)
  qed
  then have "strip_white_end (s @ [LF]) = Some s" by (simp add: strip_white_end_def)
  then have "trim (s @ [LF]) = trim_end s" using st by (simp add: trim_def trim_start.simps trim_end.simps [of "s @ [LF]"])
  also have "\<dots> = trim s"
  proof -
    have "\<not> prefix w s" if "w \<in> set white_space" for w
      using assms white_space_ends that by (auto simp: list_all_iff prefix_def hd_append split: if_splits)
    then have "strip_white s = None"
      by (auto simp: strip_white_def str_simps find_None_iff2 list_all_iff split: option.splits dest: find_SomeD)
    then show ?thesis by (simp add: trim_def trim_start.simps)
  qed
  finally show ?thesis using trim_visible [OF assms] by simp
qed

text \<open>What a server makes of the command a reader sends.\<close>

lemma log_command_read:
  assumes "pred_option (\<lambda>n. n < 2 ^ 64) after"
  shows "dispatch_log seq_of format (trim (log_command after)) r =
    (let snap = Ring_snapshot seq_of after r in
     (if 0 < sp_dropped snap then ''dropped='' @ fmt_nat 10 (sp_dropped snap) @ [LF] else []) @
     ''head='' @ fmt_nat 10 (sp_head snap) @ [LF] @ concat (map format (sp_events snap)) @ ''ok'' @ [LF])"
proof -
  define a where "a = (case after of Some n \<Rightarrow> '' after='' @ fmt_nat 10 n | None \<Rightarrow> [])"
  have "visible (last (''LOG'' @ a))"
  proof (cases after)
    case (Some n)
    have "visible (last (fmt_nat 10 n))" using visible_fmt [of n] by (auto simp: list_all_iff)
    then show ?thesis by (simp add: a_def Some)
  qed (simp add: a_def visible_def)
  then have t: "trim (log_command after) = ''LOG'' @ a"
    using trim_line [of "''LOG'' @ a"] by (simp add: log_command_def a_def visible_def)
  have v: "list_all visible ''LOG''" "list_all visible ''after=''" by (simp_all add: visible_def)
  have "split_whitespace (''LOG'' @ a) = ''LOG'' # (case after of Some n \<Rightarrow> [''after='' @ fmt_nat 10 n] | None \<Rightarrow> [])"
  proof (cases after)
    case None
    then show ?thesis using split_whitespace_word(2) [OF v(1)] by (simp add: a_def)
  next
    case (Some n)
    have "list_all visible (''after='' @ fmt_nat 10 n)" using v(2) by simp
    then show ?thesis using split_whitespace_word(1) [OF v(1), of "''after='' @ fmt_nat 10 n"]
        split_whitespace_word(2) [of "''after='' @ fmt_nat 10 n"] by (simp add: a_def Some)
  qed
  moreover have "parse_uint 64 (fmt_nat 10 n) = Some n" if "after = Some n" for n
    by (rule parse_uint_fmt) (use assms that in simp)
  ultimately show ?thesis unfolding dispatch_log_def t by (cases after) (simp_all add: Let_def)
qed

end
