(* ===== verification/Base64.thy ===== *)
theory Base64
  imports Lens
begin

text \<open>
  Standard base64: the encoder of src/src/config/types.rs, which a key's fingerprint and an HTTP Basic
  credential go through, and the decoder of src/src/sandbox/control/capture.rs, which reads a capture
  back from the control wire. The 32-bit accumulator of the decoder wraps; the shifts and disjunctions
  of disjoint bits are written as arithmetic.
\<close>

section \<open>Encoding\<close>

definition ALPHABET :: string where
  "ALPHABET = ''ABCDEFGHIJKLMNOPQRSTUVWXYZabcdefghijklmnopqrstuvwxyz0123456789+/''"

text \<open>\<open>slice::chunks(3)\<close>.\<close>

fun chunks3 :: "string \<Rightarrow> string list" where
  "chunks3 [] = []"
| "chunks3 [a] = [[a]]"
| "chunks3 [a, b] = [[a, b]]"
| "chunks3 (a # b # c # s) = [a, b, c] # chunks3 s"

definition encode_chunk :: "string \<Rightarrow> string" where
  "encode_chunk chunk =
     (let b0 = byte (chunk ! 0);
          b1 = (if 1 < length chunk then byte (chunk ! 1) else 0);
          b2 = (if 2 < length chunk then byte (chunk ! 2) else 0);
          n = b0 * 65536 + b1 * 256 + b2
      in [ALPHABET ! (n div 262144 mod 64), ALPHABET ! (n div 4096 mod 64),
          if 1 < length chunk then ALPHABET ! (n div 64 mod 64) else CHR ''='',
          if 2 < length chunk then ALPHABET ! (n mod 64) else CHR ''=''])"

definition base64_encode :: "string \<Rightarrow> string" where
  "base64_encode input = concat (map encode_chunk (chunks3 input))"

section \<open>Decoding\<close>

definition base64_value :: "char \<Rightarrow> nat option" where
  "base64_value c =
     (if CHR ''A'' \<le> c \<and> c \<le> CHR ''Z'' then Some (byte c - byte CHR ''A'')
      else if CHR ''a'' \<le> c \<and> c \<le> CHR ''z'' then Some (byte c - byte CHR ''a'' + 26)
      else if CHR ''0'' \<le> c \<and> c \<le> CHR ''9'' then Some (byte c - byte CHR ''0'' + 52)
      else if c = CHR ''+'' then Some 62
      else if c = CHR ''/'' then Some 63
      else None)"

fun decode_loop :: "string \<Rightarrow> nat \<Rightarrow> nat \<Rightarrow> string \<Rightarrow> (nat \<times> nat \<times> string) option" where
  "decode_loop [] acc bits out = Some (acc, bits, out)"
| "decode_loop (c # s) acc bits out =
     (case base64_value c of
        None \<Rightarrow> None
      | Some v \<Rightarrow>
          (let acc = acc * 64 mod 2 ^ 32 + v; bits = bits + 6 in
           if 8 \<le> bits then decode_loop s acc (bits - 8) (out @ [char_of (acc div 2 ^ (bits - 8) mod 256)])
           else decode_loop s acc bits out))"

definition base64_decode :: "string \<Rightarrow> string option" where
  "base64_decode s =
     (if length s mod 4 \<noteq> 0 then None
      else
        let unpadded = trim_end_char CHR ''='' s in
        if 2 < length s - length unpadded then None
        else case decode_loop unpadded 0 0 [] of
          None \<Rightarrow> None
        | Some (acc, bits, out) \<Rightarrow> if 6 \<le> bits \<or> acc mod 2 ^ bits \<noteq> 0 then None else Some out)"

section \<open>One group\<close>

lemma ALPHABET_bytes: "ALPHABET = map char_of ([65..<91] @ [97..<123] @ [48..<58] @ [43, 47 :: nat])"
  by code_simp

lemma ALPHABET_nth:
  "v < 26 \<Longrightarrow> ALPHABET ! v = char_of (65 + v)" "26 \<le> v \<Longrightarrow> v < 52 \<Longrightarrow> ALPHABET ! v = char_of (71 + v)"
  "k < 10 \<Longrightarrow> ALPHABET ! (52 + k) = char_of (48 + k)" "ALPHABET ! 62 = CHR ''+''" "ALPHABET ! 63 = CHR ''/''"
proof -
  show "ALPHABET ! 62 = CHR ''+''" "ALPHABET ! 63 = CHR ''/''" by code_simp+
qed (unfold ALPHABET_bytes, simp_all add: nth_append del: upt_rec_numeral upt_conv_Cons)

lemma letter_of_value: "base64_value c = Some v \<Longrightarrow> v < 64 \<and> ALPHABET ! v = c"
proof -
  assume *: "base64_value c = Some v"
  then consider "65 \<le> byte c" "byte c \<le> 90" "v = byte c - 65" | "97 \<le> byte c" "byte c \<le> 122" "v = byte c - 71"
    | "48 \<le> byte c" "byte c \<le> 57" "v = 52 + (byte c - 48)" | "c = CHR ''+''" "v = 62" | "c = CHR ''/''" "v = 63"
    by (auto simp: base64_value_def less_eq_char_def split: if_splits)
  then show ?thesis
  proof cases
    case 1
    then show ?thesis using ALPHABET_nth(1) [of v] by simp
  next
    case 2
    then show ?thesis using ALPHABET_nth(2) [of v] by simp
  next
    case 3
    then show ?thesis using ALPHABET_nth(3) [of "byte c - 48"] by simp
  qed (simp_all add: ALPHABET_nth)
qed

lemma value_of_letter: "v < 64 \<Longrightarrow> base64_value (ALPHABET ! v) = Some v"
proof -
  assume "v < 64"
  then consider "v < 26" | "26 \<le> v" "v < 52" | "52 \<le> v" "v < 62" | "v = 62" | "v = 63" by linarith
  then show ?thesis
  proof cases
    case 1
    then show ?thesis by (simp add: ALPHABET_nth base64_value_def less_eq_char_def)
  next
    case 2
    then show ?thesis by (simp add: ALPHABET_nth base64_value_def less_eq_char_def)
  next
    case 3
    then obtain k where "v = 52 + k" "k < 10" by (auto simp: le_iff_add)
    then show ?thesis by (simp add: ALPHABET_nth base64_value_def less_eq_char_def)
  qed (simp_all add: ALPHABET_nth base64_value_def less_eq_char_def)
qed

section \<open>Whole groups\<close>

text \<open>What a group of three bytes is as a number, and the bytes and letters it is read as.\<close>

text \<open>What the wrapping accumulator remembers: the last two letters, above anything.\<close>

definition remembers :: "nat \<Rightarrow> nat \<Rightarrow> bool" where
  "remembers v a \<longleftrightarrow> v < 64 \<and> a mod 64 = v"

lemma wrap_shift: "a * 64 mod 4294967296 = 64 * (a mod 67108864)" for a :: nat
  using mult_mod_right [of 64 a 67108864] by (simp add: mult.commute)

lemma remembers_first: "v < 64 \<Longrightarrow> remembers v (a * 64 mod 4294967296 + v)"
  unfolding wrap_shift remembers_def by simp

lemma accumulate:
  assumes "remembers v a" "v' < 64"
  shows "\<exists>p. a * 64 mod 4294967296 + v' = 4096 * p + 64 * v + v'"
proof -
  have "a mod 67108864 = 64 * (a div 64 mod 1048576) + a mod 64" using mod_mult2_eq [of a 64 1048576] by simp
  then show ?thesis using assms unfolding wrap_shift by (intro exI [of _ "a div 64 mod 1048576"]) (simp add: remembers_def)
qed

lemma low_part: "b < c \<Longrightarrow> (b + c * q) mod c = b" for b c q :: nat
  by simp

lemma bytes_of_letters:
  fixes p :: nat
  assumes "v < 64" "w < 64" "a = 4096 * p + 64 * v + w"
  shows "a div 16 mod 256 = 4 * v + w div 16" "a div 4 mod 256 = v mod 16 * 16 + w div 4" "a mod 256 = v mod 4 * 64 + w"
    "a mod 16 = w mod 16" "a mod 4 = w mod 4" "remembers w a"
proof -
  have x: "(w + 16 * q) div 16 = q + w div 16" "(w + 16 * q) mod 16 = w mod 16"
    "(w + 4 * q) div 4 = q + w div 4" "(w + 4 * q) mod 4 = w mod 4" for q by simp_all
  have "a = w + 16 * (4 * v + 256 * p)" unfolding assms(3) by simp
  then have "a div 16 = (4 * v + 256 * p) + w div 16" "a mod 16 = w mod 16" using x(1,2) by metis+
  then show "a div 16 mod 256 = 4 * v + w div 16" "a mod 16 = w mod 16"
    using low_part [of "4 * v + w div 16" 256 p] assms(1,2) by (simp_all add: ac_simps)
  define d16 where "d16 = v div 16"
  define m16 where "m16 = v mod 16"
  have dm16: "v div 16 = d16" "v mod 16 = m16" "v = 16 * d16 + m16" "m16 < 16" by (simp_all add: d16_def m16_def)
  have "a = w + 4 * (16 * m16 + 256 * (d16 + 4 * p))" unfolding assms(3) dm16(3) by simp
  then have "a div 4 = (16 * m16 + 256 * (d16 + 4 * p)) + w div 4" "a mod 4 = w mod 4" using x(3,4) by metis+
  then show "a div 4 mod 256 = v mod 16 * 16 + w div 4" "a mod 4 = w mod 4"
    using low_part [of "m16 * 16 + w div 4" 256 "d16 + 4 * p"] assms(2) dm16 by (simp_all add: ac_simps)
  define d4 where "d4 = v div 4"
  define m4 where "m4 = v mod 4"
  have dm4: "v div 4 = d4" "v mod 4 = m4" "v = 4 * d4 + m4" "m4 < 4" by (simp_all add: d4_def m4_def)
  have "a = (m4 * 64 + w) + 256 * (d4 + 16 * p)" unfolding assms(3) dm4(3) by simp
  then show "a mod 256 = v mod 4 * 64 + w" using low_part [of "m4 * 64 + w" 256 "d4 + 16 * p"] assms(2) dm4 by simp
  have "a = w + 64 * (v + 64 * p)" unfolding assms(3) by simp
  then show "remembers w a" using low_part [of w 64 "v + 64 * p"] assms(2) by (simp add: remembers_def)
qed

lemma b64_div_low: "b < c \<Longrightarrow> (b + c * q) div c = q" for b c q :: nat
  by simp

lemma letters_of_number:
  assumes "v1 < 64" "v2 < 64" "v3 < 64" "v4 < (64 :: nat)" "n = v1 * 262144 + v2 * 4096 + v3 * 64 + v4"
  shows "n div 262144 mod 64 = v1" "n div 4096 mod 64 = v2" "n div 64 mod 64 = v3" "n mod 64 = v4"
proof -
  have "n = (v2 * 4096 + v3 * 64 + v4) + 262144 * v1" "v2 * 4096 + v3 * 64 + v4 < 262144" using assms by simp_all
  then show "n div 262144 mod 64 = v1" using b64_div_low assms(1) by (metis mod_less)
  have "n = (v3 * 64 + v4) + 4096 * (v2 + 64 * v1)" "v3 * 64 + v4 < 4096" using assms by simp_all
  then show "n div 4096 mod 64 = v2" using b64_div_low low_part assms(2) by metis
  have "n = v4 + 64 * (v3 + 64 * (v2 + 64 * v1))" using assms by simp
  then show "n div 64 mod 64 = v3" "n mod 64 = v4" using b64_div_low low_part assms(3,4) by metis+
qed

lemma number_of_bytes:
  fixes v1 v2 v3 v4 :: nat
  shows "(4 * v1 + v2 div 16) * 65536 + (v2 mod 16 * 16 + v3 div 4) * 256 + (v3 mod 4 * 64 + v4) =
    v1 * 262144 + v2 * 4096 + v3 * 64 + v4"
proof -
  have "(4 * v1 + d2) * 65536 + (m2 * 16 + d3) * 256 + (m3 * 64 + v4) =
      v1 * 262144 + (16 * d2 + m2) * 4096 + (4 * d3 + m3) * 64 + v4" for d2 m2 d3 m3 :: nat by simp
  from this [of "v2 div 16" "v2 mod 16" "v3 div 4" "v3 mod 4"] show ?thesis by simp
qed

section \<open>Decoding what was encoded\<close>

definition digit :: "nat \<Rightarrow> nat \<Rightarrow> nat" where
  "digit n k = n div k mod 64"

definition letter :: "nat \<Rightarrow> nat \<Rightarrow> char" where
  "letter n k = ALPHABET ! digit n k"

lemma letter_value [simp]: "base64_value (letter n k) = Some (digit n k)"
  by (simp add: letter_def digit_def value_of_letter)

definition number :: "nat \<Rightarrow> nat \<Rightarrow> nat \<Rightarrow> nat" where
  "number a b c = a * 65536 + b * 256 + c"

text \<open>The letters of a text, without the padding.\<close>

fun raw :: "string \<Rightarrow> string" where
  "raw [] = []"
| "raw [a] = (let n = number (byte a) 0 0 in [letter n 262144, letter n 4096])"
| "raw [a, b] = (let n = number (byte a) (byte b) 0 in [letter n 262144, letter n 4096, letter n 64])"
| "raw (a # b # c # s) =
     (let n = number (byte a) (byte b) (byte c) in [letter n 262144, letter n 4096, letter n 64, letter n 1]) @ raw s"

definition padding :: "string \<Rightarrow> string" where
  "padding x = replicate ((3 - length x mod 3) mod 3) CHR ''=''"

lemma encode_chunk_cases:
  "encode_chunk [a] = raw [a] @ ''==''" "encode_chunk [a, b] = raw [a, b] @ ''=''" "encode_chunk [a, b, c] = raw [a, b, c]"
  by (simp_all add: encode_chunk_def letter_def digit_def number_def Let_def)

lemma padding_cases: "padding [] = []" "padding [a] = ''==''" "padding [a, b] = ''=''"
proof -
  have "replicate 2 c = [c, c]" "replicate 1 c = [c]" for c :: char unfolding numeral_2_eq_2 by simp_all
  then show "padding [] = []" "padding [a] = ''==''" "padding [a, b] = ''=''" by (simp_all add: padding_def)
qed

lemma padding_step: "padding (a # b # c # s) = padding s"
proof -
  have "length (a # b # c # s) = length s + 3" by simp
  then have "length (a # b # c # s) mod 3 = length s mod 3" by (simp only: mod_add_self2)
  then show ?thesis by (simp only: padding_def)
qed

lemma raw_step: "raw (a # b # c # s) = raw [a, b, c] @ raw s"
  by (simp add: Let_def)

lemma encode_raw: "base64_encode x = raw x @ padding x"
proof (induction x rule: raw.induct)
  case (4 a b c s)
  then have "base64_encode s = raw s @ padding s" by blast
  moreover have "base64_encode (a # b # c # s) = encode_chunk [a, b, c] @ base64_encode s" by (simp add: base64_encode_def)
  ultimately show ?case using padding_step [of a b c s] by (simp add: encode_chunk_cases(3))
qed (simp_all only: base64_encode_def encode_chunk_cases padding_cases chunks3.simps list.map concat.simps append_Nil2 append.assoc raw.simps(1))

lemma letter_not_pad [simp]: "letter n k \<noteq> CHR ''=''" "CHR ''='' \<noteq> letter n k"
proof -
  show "letter n k \<noteq> CHR ''=''"
  proof
    assume "letter n k = CHR ''=''"
    then have "base64_value CHR ''='' = Some (digit n k)" by (metis letter_value)
    then show False by (simp add: base64_value_def less_eq_char_def)
  qed
  then show "CHR ''='' \<noteq> letter n k" by metis
qed

lemma raw_letters: "CHR ''='' \<notin> set (raw x)"
  by (induction x rule: raw.induct) (simp_all add: Let_def)

lemma trim_raw: "trim_end_char CHR ''='' (raw x @ replicate k CHR ''='') = raw x"
proof -
  have "dropWhile (\<lambda>c. c = CHR ''='') (replicate k CHR ''='' @ r) = dropWhile (\<lambda>c. c = CHR ''='') r" for r
    by (induction k) simp_all
  moreover have "dropWhile (\<lambda>c. c = CHR ''='') (rev (raw x)) = rev (raw x)"
    using raw_letters [of x] by (simp add: dropWhile_eq_self_iff) (metis hd_in_set rev_is_Nil_conv set_rev)
  ultimately show ?thesis by (simp add: trim_end_char_def)
qed

text \<open>The letters of a number are its digits to the base 64, and the bytes read off them its digits to the base 256.\<close>

lemma number_digits:
  assumes "a < 256" "b < 256" "c < 256"
  defines "n \<equiv> number a b c"
  defines "v1 \<equiv> digit n 262144" and "v2 \<equiv> digit n 4096" and "v3 \<equiv> digit n 64" and "v4 \<equiv> digit n 1"
  shows "4 * v1 + v2 div 16 = a" "v2 mod 16 * 16 + v3 div 4 = b" "v3 mod 4 * 64 + v4 = c"
proof -
  have lt: "n < 64 * 262144" using assms(1-3) by (simp add: n_def number_def)
  have "n = 64 * (n div 64) + v4" "n div 64 = 64 * (n div 4096) + v3" "n div 4096 = 64 * (n div 262144) + v2"
    using div_mult2_eq [of n 64 64] div_mult2_eq [of n 4096 64] by (simp_all add: v2_def v3_def v4_def digit_def)
  moreover have "n div 262144 = v1" using lt by (simp add: v1_def digit_def less_mult_imp_div_less)
  ultimately have "n = v1 * 262144 + v2 * 4096 + v3 * 64 + v4" by simp
  then have e: "number a b c = (4 * v1 + v2 div 16) * 65536 + (v2 mod 16 * 16 + v3 div 4) * 256 + (v3 mod 4 * 64 + v4)"
    unfolding number_of_bytes n_def .
  have v: "v1 < 64" "v2 < 64" "v3 < 64" "v4 < 64" by (simp_all add: v1_def v2_def v3_def v4_def digit_def)
  have lows: "v2 mod 16 * 16 + v3 div 4 < 256" "v3 mod 4 * 64 + v4 < 256"
  proof -
    have "v2 mod 16 < 16" "v3 div 4 < 16" "v3 mod 4 < 4" using v by simp_all
    then show "v2 mod 16 * 16 + v3 div 4 < 256" "v3 mod 4 * 64 + v4 < 256" using v by linarith+
  qed
  have digits: "x = x' \<and> y = y' \<and> z = z'" if "y < 256" "z < 256" "y' < 256" "z' < 256" "x * 65536 + y * 256 + z = x' * 65536 + y' * 256 + z'" for x y z x' y' z' :: nat
  proof -
    have e: "z + 256 * (y + 256 * x) = z' + 256 * (y' + 256 * x')" using that(5) by simp
    have "z = z'" using low_part [of z 256 "y + 256 * x"] low_part [of z' 256 "y' + 256 * x'"] e that by metis
    moreover have e: "y + 256 * x = y' + 256 * x'" using b64_div_low [of z 256 "y + 256 * x"] b64_div_low [of z' 256 "y' + 256 * x'"] e that by metis
    moreover have "y = y'" using low_part [of y 256 x] low_part [of y' 256 x'] e that by metis
    moreover have "x = x'" using b64_div_low [of y 256 x] b64_div_low [of y' 256 x'] e that by metis
    ultimately show ?thesis by simp
  qed
  show "4 * v1 + v2 div 16 = a" "v2 mod 16 * 16 + v3 div 4 = b" "v3 mod 4 * 64 + v4 = c"
    using digits [of b c _ _ a, OF assms(2,3) lows] e unfolding number_def by blast+
qed

lemma decode_letter:
  assumes "base64_value c = Some v"
  shows "decode_loop (c # s) acc 0 out = decode_loop s (acc * 64 mod 4294967296 + v) 6 out"
    "decode_loop (c # s) acc 6 out = decode_loop s (acc * 64 mod 4294967296 + v) 4 (out @ [char_of ((acc * 64 mod 4294967296 + v) div 16 mod 256)])"
    "decode_loop (c # s) acc 4 out = decode_loop s (acc * 64 mod 4294967296 + v) 2 (out @ [char_of ((acc * 64 mod 4294967296 + v) div 4 mod 256)])"
    "decode_loop (c # s) acc 2 out = decode_loop s (acc * 64 mod 4294967296 + v) 0 (out @ [char_of ((acc * 64 mod 4294967296 + v) mod 256)])"
  using assms by (simp_all add: Let_def)

lemma decode_valued: "decode_loop (c # s) acc bits out \<noteq> None \<Longrightarrow> \<exists>v. base64_value c = Some v"
  by (cases "base64_value c") simp_all

declare decode_loop.simps(2) [simp del]

lemma decode_four:
  assumes "base64_value c1 = Some v1" "base64_value c2 = Some v2" "base64_value c3 = Some v3" "base64_value c4 = Some v4"
  shows "\<exists>acc'. decode_loop (c1 # c2 # c3 # c4 # s) acc 0 out = decode_loop s acc' 0
    (out @ [char_of (4 * v1 + v2 div 16), char_of (v2 mod 16 * 16 + v3 div 4), char_of (v3 mod 4 * 64 + v4)])"
    "\<exists>acc'. decode_loop [c1, c2, c3] acc 0 out =
      Some (acc', 2, out @ [char_of (4 * v1 + v2 div 16), char_of (v2 mod 16 * 16 + v3 div 4)]) \<and> acc' mod 4 = v3 mod 4"
    "\<exists>acc'. decode_loop [c1, c2] acc 0 out = Some (acc', 4, out @ [char_of (4 * v1 + v2 div 16)]) \<and> acc' mod 16 = v2 mod 16"
proof -
  have v: "v1 < 64" "v2 < 64" "v3 < 64" "v4 < 64" using letter_of_value assms by blast+
  define a1 where "a1 = acc * 64 mod 4294967296 + v1"
  define a2 where "a2 = a1 * 64 mod 4294967296 + v2"
  define a3 where "a3 = a2 * 64 mod 4294967296 + v3"
  define a4 where "a4 = a3 * 64 mod 4294967296 + v4"
  have "remembers v1 a1" unfolding a1_def by (rule remembers_first [OF v(1)])
  then obtain p where "a2 = 4096 * p + 64 * v1 + v2" unfolding a2_def using accumulate v(2) by blast
  note b2 = bytes_of_letters [OF v(1,2) this]
  obtain p where "a3 = 4096 * p + 64 * v2 + v3" unfolding a3_def using accumulate [OF b2(6) v(3)] by blast
  note b3 = bytes_of_letters [OF v(2,3) this]
  obtain p where "a4 = 4096 * p + 64 * v3 + v4" unfolding a4_def using accumulate [OF b3(6) v(4)] by blast
  note b4 = bytes_of_letters [OF v(3,4) this]
  have "decode_loop (c1 # c2 # c3 # c4 # s) acc 0 out =
      decode_loop s a4 0 (out @ [char_of (a2 div 16 mod 256), char_of (a3 div 4 mod 256), char_of (a4 mod 256)])"
    by (simp add: decode_letter [OF assms(1)] decode_letter [OF assms(2)] decode_letter [OF assms(3)] decode_letter [OF assms(4)] flip: a1_def a2_def a3_def a4_def)
  then show "\<exists>acc'. decode_loop (c1 # c2 # c3 # c4 # s) acc 0 out = decode_loop s acc' 0
    (out @ [char_of (4 * v1 + v2 div 16), char_of (v2 mod 16 * 16 + v3 div 4), char_of (v3 mod 4 * 64 + v4)])"
    unfolding b2(1) b3(2) b4(3) by blast
  have "decode_loop [c1, c2, c3] acc 0 out = Some (a3, 2, out @ [char_of (a2 div 16 mod 256), char_of (a3 div 4 mod 256)])"
    by (simp add: decode_letter [OF assms(1)] decode_letter [OF assms(2)] decode_letter [OF assms(3)] flip: a1_def a2_def a3_def)
  then show "\<exists>acc'. decode_loop [c1, c2, c3] acc 0 out =
      Some (acc', 2, out @ [char_of (4 * v1 + v2 div 16), char_of (v2 mod 16 * 16 + v3 div 4)]) \<and> acc' mod 4 = v3 mod 4"
    unfolding b2(1) b3(2) using b3(5) by blast
  have "decode_loop [c1, c2] acc 0 out = Some (a2, 4, out @ [char_of (a2 div 16 mod 256)])"
    by (simp add: decode_letter [OF assms(1)] decode_letter [OF assms(2)] flip: a1_def a2_def)
  then show "\<exists>acc'. decode_loop [c1, c2] acc 0 out = Some (acc', 4, out @ [char_of (4 * v1 + v2 div 16)]) \<and> acc' mod 16 = v2 mod 16"
    unfolding b2(1) using b2(4) by blast
qed

lemma decode_raw: "\<exists>acc' bits. decode_loop (raw x) acc 0 out = Some (acc', bits, out @ x) \<and> bits < 6 \<and> acc' mod 2 ^ bits = 0"
proof (induction x arbitrary: acc out rule: raw.induct)
  case 1
  show ?case by simp
next
  case (2 a)
  let ?n = "number (byte a) 0 0"
  have "0 < (256 :: nat)" by simp
  note d = number_digits [OF byte_less [of a] this this]
  have z: "digit ?n 4096 mod 16 = 0" using d(2) by simp
  obtain acc' where "decode_loop [letter ?n 262144, letter ?n 4096] acc 0 out = Some (acc', 4, out @ [a])" "acc' mod 16 = 0"
    using decode_four(3) [OF letter_value [of ?n 262144] letter_value [of ?n 4096] letter_value [of ?n 64] letter_value [of ?n 1], of acc out] unfolding d(1) z by auto
  then show ?case unfolding raw.simps Let_def by (intro exI [of _ acc'] exI [of _ 4]) simp
next
  case (3 a b)
  let ?n = "number (byte a) (byte b) 0"
  have "0 < (256 :: nat)" by simp
  note d = number_digits [OF byte_less [of a] byte_less [of b] this]
  have z: "digit ?n 64 mod 4 = 0" using d(3) by simp
  obtain acc' where "decode_loop [letter ?n 262144, letter ?n 4096, letter ?n 64] acc 0 out = Some (acc', 2, out @ [a, b])" "acc' mod 4 = 0"
    using decode_four(2) [OF letter_value [of ?n 262144] letter_value [of ?n 4096] letter_value [of ?n 64] letter_value [of ?n 1], of acc out] unfolding d(1,2) z by auto
  then show ?case unfolding raw.simps Let_def by (intro exI [of _ acc'] exI [of _ 2]) simp
next
  case (4 a b c s)
  let ?n = "number (byte a) (byte b) (byte c)"
  note d = number_digits [OF byte_less [of a] byte_less [of b] byte_less [of c]]
  obtain acc' where "decode_loop (letter ?n 262144 # letter ?n 4096 # letter ?n 64 # letter ?n 1 # raw s) acc 0 out =
      decode_loop (raw s) acc' 0 (out @ [a, b, c])"
    using decode_four(1) [OF letter_value [of ?n 262144] letter_value [of ?n 4096] letter_value [of ?n 64] letter_value [of ?n 1], of "raw s" acc out] unfolding d by auto
  then show ?case using "4.IH" [of acc' "out @ [a, b, c]"] unfolding raw.simps Let_def by simp
qed

section \<open>Only what was encoded decodes\<close>

lemma number_letters:
  assumes "v1 < 64" "v2 < 64" "v3 < 64" "v4 < 64"
  defines "n \<equiv> number (4 * v1 + v2 div 16) (v2 mod 16 * 16 + v3 div 4) (v3 mod 4 * 64 + v4)"
  shows "digit n 262144 = v1" "digit n 4096 = v2" "digit n 64 = v3" "digit n 1 = v4"
    "4 * v1 + v2 div 16 < 256" "v2 mod 16 * 16 + v3 div 4 < 256" "v3 mod 4 * 64 + v4 < 256"
proof -
  have n: "n = v1 * 262144 + v2 * 4096 + v3 * 64 + v4" unfolding n_def number_def by (rule number_of_bytes)
  show "digit n 262144 = v1" "digit n 4096 = v2" "digit n 64 = v3" "digit n 1 = v4"
    using letters_of_number [OF assms(1-4) n] unfolding digit_def div_by_1 by blast+
  have "v2 mod 16 < 16" "v3 div 4 < 16" "v3 mod 4 < 4" "v2 div 16 < 4" using assms(2,3) by (simp_all add: less_mult_imp_div_less)
  then show "4 * v1 + v2 div 16 < 256" "v2 mod 16 * 16 + v3 div 4 < 256" "v3 mod 4 * 64 + v4 < 256" using assms(1,4) by linarith+
qed

lemma byte_char_of: "n < 256 \<Longrightarrow> byte (char_of n) = n"
  by simp

text \<open>The letters are those of the bytes read off them.\<close>

lemma letters_are_raw:
  assumes "base64_value c1 = Some v1" "base64_value c2 = Some v2" "base64_value c3 = Some v3" "base64_value c4 = Some v4"
  shows "raw [char_of (4 * v1 + v2 div 16), char_of (v2 mod 16 * 16 + v3 div 4), char_of (v3 mod 4 * 64 + v4)] = [c1, c2, c3, c4]"
    "v3 mod 4 = 0 \<Longrightarrow> raw [char_of (4 * v1 + v2 div 16), char_of (v2 mod 16 * 16 + v3 div 4)] = [c1, c2, c3]"
    "v2 mod 16 = 0 \<Longrightarrow> raw [char_of (4 * v1 + v2 div 16)] = [c1, c2]"
proof -
  note l = assms [THEN letter_of_value]
  have v: "v1 < 64" "v2 < 64" "v3 < 64" "v4 < 64" and c: "ALPHABET ! v1 = c1" "ALPHABET ! v2 = c2" "ALPHABET ! v3 = c3" "ALPHABET ! v4 = c4"
    using l by blast+
  note n = number_letters [OF v]
  show "raw [char_of (4 * v1 + v2 div 16), char_of (v2 mod 16 * 16 + v3 div 4), char_of (v3 mod 4 * 64 + v4)] = [c1, c2, c3, c4]"
    unfolding raw.simps Let_def byte_char_of [OF n(5)] byte_char_of [OF n(6)] byte_char_of [OF n(7)] letter_def n(1-4) c by simp
  have z: "0 < (64 :: nat)" by simp
  show "raw [char_of (4 * v1 + v2 div 16), char_of (v2 mod 16 * 16 + v3 div 4)] = [c1, c2, c3]" if "v3 mod 4 = 0"
  proof -
    note n = number_letters [OF v(1-3) z, unfolded that mult_0 add_0]
    show ?thesis unfolding raw.simps Let_def byte_char_of [OF n(5)] byte_char_of [OF n(6)] letter_def n(1-3) c by simp
  qed
  show "raw [char_of (4 * v1 + v2 div 16)] = [c1, c2]" if "v2 mod 16 = 0"
  proof -
    note n = number_letters [OF v(1,2) z z, unfolded that mult_0 add_0 div_0 mod_0]
    show ?thesis unfolding raw.simps Let_def byte_char_of [OF n(5)] letter_def n(1,2) c by simp
  qed
qed

lemma decode_letters:
  "decode_loop (c # s) acc 0 out = Some r \<Longrightarrow> \<exists>v acc' out'. base64_value c = Some v \<and> decode_loop s acc' 6 out' = Some r"
  "decode_loop (c # s) acc 6 out = Some r \<Longrightarrow> \<exists>v acc' out'. base64_value c = Some v \<and> decode_loop s acc' 4 out' = Some r"
  "decode_loop (c # s) acc 4 out = Some r \<Longrightarrow> \<exists>v acc' out'. base64_value c = Some v \<and> decode_loop s acc' 2 out' = Some r"
  "decode_loop (c # s) acc 2 out = Some r \<Longrightarrow> \<exists>v. base64_value c = Some v"
proof -
  have v: "\<exists>v. base64_value c = Some v" if "decode_loop (c # s) acc bits out = Some r" for bits
    using decode_valued [of c s acc bits out] that by simp
  show "decode_loop (c # s) acc 0 out = Some r \<Longrightarrow> \<exists>v acc' out'. base64_value c = Some v \<and> decode_loop s acc' 6 out' = Some r"
    using v [of 0] decode_letter(1) [of c] by (metis (no_types))
  show "decode_loop (c # s) acc 6 out = Some r \<Longrightarrow> \<exists>v acc' out'. base64_value c = Some v \<and> decode_loop s acc' 4 out' = Some r"
    using v [of 6] decode_letter(2) [of c] by (metis (no_types))
  show "decode_loop (c # s) acc 4 out = Some r \<Longrightarrow> \<exists>v acc' out'. base64_value c = Some v \<and> decode_loop s acc' 2 out' = Some r"
    using v [of 4] decode_letter(3) [of c] by (metis (no_types))
  show "decode_loop (c # s) acc 2 out = Some r \<Longrightarrow> \<exists>v. base64_value c = Some v" using v [of 2] .
qed

lemma decode_only_raw:
  assumes "decode_loop s acc 0 out = Some (acc', bits, out')" "bits < 6" "acc' mod 2 ^ bits = 0"
  shows "\<exists>x. out' = out @ x \<and> s = raw x"
  using assms
proof (induction "length s" arbitrary: s acc out rule: less_induct)
  case less
  consider "s = []" | c1 where "s = [c1]" | c1 c2 where "s = [c1, c2]" | c1 c2 c3 where "s = [c1, c2, c3]"
    | c1 c2 c3 c4 r where "s = c1 # c2 # c3 # c4 # r"
    by (metis list.exhaust)
  then show ?case
  proof cases
    case 1
    then show ?thesis using less.prems(1) by (intro exI [of _ "[]"]) simp
  next
    case (2 c1)
    obtain v1 where v: "base64_value c1 = Some v1" using less.prems(1) decode_valued unfolding 2 by blast
    then show ?thesis using less.prems(1,2) unfolding 2 by (simp add: decode_letter(1) [OF v])
  next
    case (3 c1 c2)
    obtain v1 v2 where v: "base64_value c1 = Some v1" "base64_value c2 = Some v2"
      using less.prems(1) unfolding 3 by (blast dest: decode_letters)
    obtain a where "decode_loop [c1, c2] acc 0 out = Some (a, 4, out @ [char_of (4 * v1 + v2 div 16)])" "a mod 16 = v2 mod 16"
      using decode_four(3) [OF v v] by blast
    then have "out' = out @ [char_of (4 * v1 + v2 div 16)]" "v2 mod 16 = 0" using less.prems unfolding 3 by simp_all
    then show ?thesis using letters_are_raw(3) [OF v v] 3 by metis
  next
    case (4 c1 c2 c3)
    obtain v1 v2 v3 where v: "base64_value c1 = Some v1" "base64_value c2 = Some v2" "base64_value c3 = Some v3"
      using less.prems(1) unfolding 4 by (blast dest: decode_letters)
    obtain a where "decode_loop [c1, c2, c3] acc 0 out = Some (a, 2, out @ [char_of (4 * v1 + v2 div 16), char_of (v2 mod 16 * 16 + v3 div 4)])"
      "a mod 4 = v3 mod 4"
      using decode_four(2) [OF v v(3)] by blast
    then have "out' = out @ [char_of (4 * v1 + v2 div 16), char_of (v2 mod 16 * 16 + v3 div 4)]" "v3 mod 4 = 0"
      using less.prems unfolding 4 by simp_all
    then show ?thesis using letters_are_raw(2) [OF v v(3)] 4 by metis
  next
    case (5 c1 c2 c3 c4 r)
    obtain v1 v2 v3 v4 where v: "base64_value c1 = Some v1" "base64_value c2 = Some v2" "base64_value c3 = Some v3" "base64_value c4 = Some v4"
      using less.prems(1) unfolding 5 by (blast dest: decode_letters)
    let ?x = "[char_of (4 * v1 + v2 div 16), char_of (v2 mod 16 * 16 + v3 div 4), char_of (v3 mod 4 * 64 + v4)]"
    obtain a where a: "decode_loop s acc 0 out = decode_loop r a 0 (out @ ?x)" using decode_four(1) [OF v, of r acc out] unfolding 5 by blast
    then obtain x where "out' = (out @ ?x) @ x" "r = raw x" using less.hyps [of r a "out @ ?x"] less.prems unfolding 5 by auto
    moreover have "raw (?x @ x) = [c1, c2, c3, c4] @ raw x"
      using raw_step [of _ _ _ x] letters_are_raw(1) [OF v] by (metis append_Cons append_Nil)
    ultimately show ?thesis unfolding 5 by (intro exI [of _ "?x @ x"]) (simp del: raw.simps)
  qed
qed

lemma raw_length: "length (raw x) + length (padding x) = 4 * ((length x + 2) div 3)" "length (padding x) \<le> 2"
proof (induction x rule: raw.induct)
  case (4 a b c s)
  have "(length (a # b # c # s) + 2) div 3 = (length s + 2) div 3 + 1" using div_add_self2 [of 3 "length s + 2"] by simp
  moreover have "length (raw (a # b # c # s)) = 4 + length (raw s)" by (simp add: Let_def)
  ultimately show "length (raw (a # b # c # s)) + length (padding (a # b # c # s)) = 4 * ((length (a # b # c # s) + 2) div 3)"
    using 4(1) unfolding padding_step by simp
  show "length (padding (a # b # c # s)) \<le> 2" unfolding padding_step by (rule 4(2))
qed (simp_all add: padding_cases Let_def)

text \<open>C39. A captured body crosses the control wire unchanged, and in one spelling only: the decoder
  answers the bytes that were encoded, and accepts no text but the encoding of some bytes, so neither
  stray padding, nor left-over bits, nor a character outside the alphabet passes as a body.\<close>

theorem base64_decode_iff: "base64_decode s = Some x \<longleftrightarrow> s = base64_encode x"
proof
  assume s: "s = base64_encode x"
  have e: "s = raw x @ replicate (length (padding x)) CHR ''=''" unfolding s encode_raw by (simp add: padding_def)
  have l: "length s = 4 * ((length x + 2) div 3)" "length s - length (raw x) \<le> 2" using raw_length [of x] unfolding s encode_raw by simp_all
  have t: "trim_end_char CHR ''='' s = raw x" unfolding e by (rule trim_raw)
  obtain acc' bits where "decode_loop (raw x) 0 0 [] = Some (acc', bits, [] @ x)" "bits < 6" "acc' mod 2 ^ bits = 0"
    using decode_raw [of x 0 "[]"] by metis
  then show "base64_decode s = Some x" using l by (simp add: base64_decode_def t)
next
  assume d: "base64_decode s = Some x"
  define u where "u = trim_end_char CHR ''='' s"
  define k where "k = length s - length u"
  obtain acc bits where u: "decode_loop u 0 0 [] = Some (acc, bits, x)" "bits < 6" "acc mod 2 ^ bits = 0" "length s mod 4 = 0" "k \<le> 2"
    using d unfolding base64_decode_def u_def k_def by (auto simp: Let_def split: if_splits option.splits)
  have x: "u = raw x" using decode_only_raw [OF u(1-3)] by auto
  have "s = u @ replicate k CHR ''=''"
  proof -
    have "rev s = takeWhile (\<lambda>c. c = CHR ''='') (rev s) @ rev u" by (simp add: u_def trim_end_char_def)
    moreover have "takeWhile (\<lambda>c. c = CHR ''='') (rev s) = replicate (length (takeWhile (\<lambda>c. c = CHR ''='') (rev s))) CHR ''=''"
      by (rule replicate_length_same [symmetric]) (auto dest: set_takeWhileD)
    ultimately obtain j where "rev s = replicate j CHR ''='' @ rev u" by metis
    then have "s = u @ replicate j CHR ''=''" by (metis rev_append rev_replicate rev_rev_ident)
    then show ?thesis by (simp add: k_def)
  qed
  moreover have "k = length (padding x)"
  proof -
    have "(length (raw x) + k) mod 4 = 0" using u(4) \<open>s = u @ replicate k CHR ''=''\<close> by (simp add: x)
    moreover have "(length (raw x) + length (padding x)) mod 4 = 0" unfolding raw_length(1) by simp
    ultimately show ?thesis using u(5) raw_length(2) [of x] by presburger
  qed
  ultimately show "s = base64_encode x" unfolding encode_raw x by (simp add: padding_def)
qed

end
