(* ===== verification/Lens_Events.thy ===== *)
theory Lens_Events
  imports Lens
begin

text \<open>
  The events of the five lenses and the door each enters its ring by: the ssh agent
  (src/src/sandbox/sshagent_control.rs), the brokers (src/src/sandbox/broker_control.rs), the signers
  (src/src/sandbox/signer_control.rs), the filesystem (src/src/sandbox/fs_control.rs) and the executed
  commands (src/src/sandbox/proc_control.rs). Four of them are a kind and a text; the locale
  \<open>kind_event\<close> states what their token tables and markers promise and gives each the contract of
  \<open>wire_event\<close>. The fifth has a caller in the middle of its line.
\<close>

section \<open>Events of a kind and a text\<close>

record 'k kind_event =
  ke_seq :: nat
  ke_at :: nat
  ke_kind :: 'k
  ke_text :: string

definition format_kind_line :: "('k \<Rightarrow> string) \<Rightarrow> string \<Rightarrow> 'k kind_event \<Rightarrow> string" where
  "format_kind_line token marker e =
     ''event seq='' @ fmt_nat 10 (ke_seq e) @ '' at='' @ fmt_nat 10 (ke_at e) @ '' kind='' @ token (ke_kind e) @
     '' '' @ marker @ ke_text e @ [LF]"

definition parse_kind_line :: "(string \<Rightarrow> 'k option) \<Rightarrow> string \<Rightarrow> string \<Rightarrow> 'k kind_event option" where
  "parse_kind_line from_token marker line =
     (case read_event_line line marker of
        None \<Rightarrow> None
      | Some (kvs, detail) \<Rightarrow>
          (case (field_of kvs ''seq'' (parse_uint 64), field_of kvs ''at'' (parse_uint 128), field_of kvs ''kind'' from_token) of
             (Some seq, Some at, Some kd) \<Rightarrow> Some \<lparr>ke_seq = seq, ke_at = at, ke_kind = kd, ke_text = detail\<rparr>
           | _ \<Rightarrow> None))"

definition kind_made :: "'k \<Rightarrow> string \<Rightarrow> nat \<Rightarrow> nat \<Rightarrow> 'k kind_event" where
  "kind_made kd detail = (\<lambda>seq at. \<lparr>ke_seq = seq, ke_at = at, ke_kind = kd, ke_text = detail\<rparr>)"

definition push_kind :: "'k \<Rightarrow> string \<Rightarrow> nat \<Rightarrow> 'k kind_event ring \<Rightarrow> nat \<times> 'k kind_event ring" where
  "push_kind kd detail = Ring_push (kind_made kd detail)"

subsection \<open>The ssh agent\<close>

definition AGENT_RING_CAP :: nat where
  "AGENT_RING_CAP = 500"

datatype AgentKind = AgentList | AgentSign | AgentRefuse

fun AgentKind_token :: "AgentKind \<Rightarrow> string" where
  "AgentKind_token AgentList = ''list''"
| "AgentKind_token AgentSign = ''sign''"
| "AgentKind_token AgentRefuse = ''refuse''"

definition AgentKind_from_token :: "string \<Rightarrow> AgentKind option" where
  "AgentKind_from_token s =
     (if s = ''list'' then Some AgentList else if s = ''sign'' then Some AgentSign
      else if s = ''refuse'' then Some AgentRefuse else None)"

definition AgentEvent_format_line :: "AgentKind kind_event \<Rightarrow> string" where
  "AgentEvent_format_line = format_kind_line AgentKind_token ''detail=''"

definition AgentEvent_parse_line :: "string \<Rightarrow> AgentKind kind_event option" where
  "AgentEvent_parse_line = parse_kind_line AgentKind_from_token ''detail=''"

text \<open>The subject and the reason of what a push announces on the desktop, where there is a notifier.\<close>

definition AgentRing_push ::
  "bool \<Rightarrow> AgentKind \<Rightarrow> string \<Rightarrow> nat \<Rightarrow> AgentKind kind_event ring \<Rightarrow> (string \<times> string) option \<times> nat \<times> AgentKind kind_event ring" where
  "AgentRing_push notifier kd detail now r =
     ((if kd = AgentRefuse \<and> notifier then Some (detail, ''withheld'') else None),
      push_kind kd (sanitize_detail detail) now r)"

subsection \<open>The brokers\<close>

definition BROKER_RING_CAP :: nat where
  "BROKER_RING_CAP = 500"

datatype BrokerKind = BrokerForward | BrokerAnswer | BrokerRefuse | BrokerWithhold

fun BrokerKind_token :: "BrokerKind \<Rightarrow> string" where
  "BrokerKind_token BrokerForward = ''forward''"
| "BrokerKind_token BrokerAnswer = ''answer''"
| "BrokerKind_token BrokerRefuse = ''refuse''"
| "BrokerKind_token BrokerWithhold = ''withhold''"

definition BrokerKind_from_token :: "string \<Rightarrow> BrokerKind option" where
  "BrokerKind_from_token s =
     (if s = ''forward'' then Some BrokerForward else if s = ''answer'' then Some BrokerAnswer
      else if s = ''refuse'' then Some BrokerRefuse else if s = ''withhold'' then Some BrokerWithhold else None)"

definition BrokerEvent_format_line :: "BrokerKind kind_event \<Rightarrow> string" where
  "BrokerEvent_format_line = format_kind_line BrokerKind_token ''detail=''"

definition BrokerEvent_parse_line :: "string \<Rightarrow> BrokerKind kind_event option" where
  "BrokerEvent_parse_line = parse_kind_line BrokerKind_from_token ''detail=''"

text \<open>What was seen, and a plugin's own words behind a dash (U+2014).\<close>

definition labelled :: "string \<Rightarrow> string \<Rightarrow> string option \<Rightarrow> string" where
  "labelled name observed label =
     name @ '': '' @ observed @
     (case label of Some l \<Rightarrow> if l \<noteq> [] then '' '' @ [CHR 0xE2, CHR 0x80, CHR 0x94] @ '' '' @ l else [] | None \<Rightarrow> [])"

definition BrokerRing_push ::
  "BrokerKind \<Rightarrow> string \<Rightarrow> string \<Rightarrow> string option \<Rightarrow> nat \<Rightarrow> BrokerKind kind_event ring \<Rightarrow> nat \<times> BrokerKind kind_event ring" where
  "BrokerRing_push kd broker observed label = push_kind kd (sanitize_detail (labelled broker observed label))"

subsection \<open>The signers\<close>

definition SIGNER_RING_CAP :: nat where
  "SIGNER_RING_CAP = 1000"

datatype SignerKind = SignerSign | SignerRefuse

fun SignerKind_token :: "SignerKind \<Rightarrow> string" where
  "SignerKind_token SignerSign = ''sign''"
| "SignerKind_token SignerRefuse = ''refuse''"

definition SignerKind_from_token :: "string \<Rightarrow> SignerKind option" where
  "SignerKind_from_token s =
     (if s = ''sign'' then Some SignerSign else if s = ''refuse'' then Some SignerRefuse else None)"

definition SignerEvent_format_line :: "SignerKind kind_event \<Rightarrow> string" where
  "SignerEvent_format_line = format_kind_line SignerKind_token ''detail=''"

definition SignerEvent_parse_line :: "string \<Rightarrow> SignerKind kind_event option" where
  "SignerEvent_parse_line = parse_kind_line SignerKind_from_token ''detail=''"

definition SignerRing_push_detail ::
  "SignerKind \<Rightarrow> string \<Rightarrow> nat \<Rightarrow> SignerKind kind_event ring \<Rightarrow> nat \<times> SignerKind kind_event ring" where
  "SignerRing_push_detail kd detail = push_kind kd (sanitize_detail detail)"

definition signer_detail ::
  "(string \<Rightarrow> string \<Rightarrow> nat option) \<Rightarrow> string \<Rightarrow> string \<Rightarrow> string option \<Rightarrow> secret_needle list \<Rightarrow> string" where
  "signer_detail finder signer observed claimed needles =
     sanitize_detail (fst (redact_string finder (labelled signer observed claimed) needles Plain))"

subsection \<open>The filesystem\<close>

definition FS_RING_CAP :: nat where
  "FS_RING_CAP = 1000"

datatype FsKind = FsWrite | FsCreate | FsRemove | FsRename

fun FsKind_token :: "FsKind \<Rightarrow> string" where
  "FsKind_token FsWrite = ''write''"
| "FsKind_token FsCreate = ''create''"
| "FsKind_token FsRemove = ''remove''"
| "FsKind_token FsRename = ''rename''"

definition FsKind_from_token :: "string \<Rightarrow> FsKind option" where
  "FsKind_from_token s =
     (if s = ''write'' then Some FsWrite else if s = ''create'' then Some FsCreate
      else if s = ''remove'' then Some FsRemove else if s = ''rename'' then Some FsRename else None)"

definition FsEvent_format_line :: "FsKind kind_event \<Rightarrow> string" where
  "FsEvent_format_line = format_kind_line FsKind_token ''path=''"

definition FsEvent_parse_line :: "string \<Rightarrow> FsKind kind_event option" where
  "FsEvent_parse_line = parse_kind_line FsKind_from_token ''path=''"

definition FsRing_push :: "FsKind \<Rightarrow> string \<Rightarrow> nat \<Rightarrow> FsKind kind_event ring \<Rightarrow> nat \<times> FsKind kind_event ring" where
  "FsRing_push kd path = push_kind kd path"

section \<open>Executed commands\<close>

definition EXEC_RING_CAP :: nat where
  "EXEC_RING_CAP = 1000"

record exec_event =
  ee_seq :: nat
  ee_at :: nat
  ee_pid :: nat
  ee_verdict :: string
  ee_caller :: string
  ee_command :: string

definition head_token :: "string \<Rightarrow> string" where
  "head_token value = concat (map (\<lambda>c. if c \<in> set white_space \<or> c = ''='' then ''_'' else c) (chars value))"

definition ExecEvent_format_line :: "exec_event \<Rightarrow> string" where
  "ExecEvent_format_line e =
     (let by = (if ee_caller e = [] then [] else ''by='' @ ee_caller e @ '' '') in
      ''event seq='' @ fmt_nat 10 (ee_seq e) @ '' at='' @ fmt_nat 10 (ee_at e) @ '' pid='' @ fmt_nat 10 (ee_pid e) @
      '' verdict='' @ ee_verdict e @ '' '' @ by @ ''cmd='' @ ee_command e @ [LF])"

definition ExecEvent_parse_line :: "string \<Rightarrow> exec_event option" where
  "ExecEvent_parse_line line =
     (case read_event_line line ''cmd='' of
        None \<Rightarrow> None
      | Some (kvs, command) \<Rightarrow>
          (let text_of = (\<lambda>key. case field_of kvs key Some of Some v \<Rightarrow> v | None \<Rightarrow> []) in
           case (field_of kvs ''seq'' (parse_uint 64), field_of kvs ''at'' (parse_uint 128), field_of kvs ''pid'' (parse_uint 32)) of
             (Some seq, Some at, Some pid) \<Rightarrow>
               Some \<lparr>ee_seq = seq, ee_at = at, ee_pid = pid, ee_verdict = text_of ''verdict'',
                 ee_caller = text_of ''by'', ee_command = command\<rparr>
           | _ \<Rightarrow> None))"

definition exec_made :: "nat \<Rightarrow> string \<Rightarrow> string \<Rightarrow> string \<Rightarrow> nat \<Rightarrow> nat \<Rightarrow> exec_event" where
  "exec_made pid caller command verdict =
     (let caller = head_token (sanitize caller); command = sanitize command in
      (\<lambda>seq at. \<lparr>ee_seq = seq, ee_at = at, ee_pid = pid, ee_verdict = verdict,
        ee_caller = caller, ee_command = command\<rparr>))"

definition ExecRing_push_verdict ::
  "nat \<Rightarrow> string \<Rightarrow> string \<Rightarrow> string \<Rightarrow> nat \<Rightarrow> exec_event ring \<Rightarrow> nat \<times> exec_event ring" where
  "ExecRing_push_verdict pid caller command verdict = Ring_push (exec_made pid caller command verdict)"

definition ExecRing_push :: "nat \<Rightarrow> string \<Rightarrow> nat \<Rightarrow> exec_event ring \<Rightarrow> nat \<times> exec_event ring" where
  "ExecRing_push pid command = ExecRing_push_verdict pid [] command ''observe''"

section \<open>The words of a line's head\<close>

definition plain_word :: "string \<Rightarrow> bool" where
  "plain_word w \<longleftrightarrow> w \<noteq> [] \<and> valid_utf8 w \<and> set (chars w) \<inter> set white_space = {}"

lemma one_char_ascii: "one_char c \<Longrightarrow> is_ascii a \<Longrightarrow> a \<in> set c \<Longrightarrow> c = [a]"
proof (cases c)
  case (Cons b r)
  assume *: "one_char c" "is_ascii a" "a \<in> set c"
  then have s: "utf8_seq b r = (True, length r)" by (simp add: Cons)
  then have "list_all is_continuation r" using utf8_seq_consumed [OF s] by simp
  then have "a = b" using * is_ascii_not_continuation by (auto simp: Cons list_all_iff)
  then show ?thesis using s *(2) by (simp add: Cons)
qed simp

lemma ascii_char: "valid_utf8 s \<Longrightarrow> is_ascii a \<Longrightarrow> a \<in> set s \<Longrightarrow> [a] \<in> set (chars s)"
proof -
  assume *: "valid_utf8 s" "is_ascii a" "a \<in> set s"
  then obtain c where "c \<in> set (chars s)" "a \<in> set c" by (metis concat_chars UN_E set_concat)
  then show ?thesis using one_char_ascii [of c a] chars_valid [OF *(1)] * by (auto simp: list_all_iff)
qed

lemma plain_word_no_space: "plain_word w \<Longrightarrow> CHR '' '' \<notin> set w"
  using ascii_char [of w "CHR '' ''"] by (auto simp: plain_word_def is_ascii_def white_space_code)

lemma plain_word_visible: "list_all visible v \<Longrightarrow> v \<noteq> [] \<Longrightarrow> plain_word v"
  using visible_not_white by (fastforce simp: plain_word_def chars_graph list_all_iff intro: valid_utf8_ascii)

lemma chars_append_valid: "valid_utf8 v \<Longrightarrow> chars (v @ w) = chars v @ chars w"
proof -
  assume "valid_utf8 v"
  then have "list_all one_char (chars v)" by (rule chars_valid)
  moreover have "list_all one_char cs \<Longrightarrow> chars (concat cs @ w) = cs @ chars w" for cs
    by (induction cs) (simp_all add: chars_one)
  ultimately show ?thesis by (metis concat_chars)
qed

lemma plain_word_append: "plain_word v \<Longrightarrow> plain_word w \<Longrightarrow> plain_word (v @ w)"
  by (auto simp: plain_word_def chars_append_valid valid_utf8_append)

lemma split_white_chars:
  "set cs \<inter> set white_space = {} \<Longrightarrow> split_white (cs @ [CHR '' ''] # rest) = cs # split_white rest"
proof (induction cs)
  case Nil
  have "[CHR '' ''] \<in> set white_space" by (simp add: white_space_code)
  then show ?case by simp
qed auto

lemma split_whitespace_plain: "plain_word w \<Longrightarrow> split_whitespace (w @ CHR '' '' # s) = w # split_whitespace s"
proof -
  assume *: "plain_word w"
  then have "chars w \<noteq> []" by (metis concat.simps(1) concat_chars plain_word_def)
  moreover have "chars (w @ CHR '' '' # s) = chars w @ [CHR '' ''] # chars s"
    using * by (simp add: plain_word_def chars_append_valid chars.simps(2) is_ascii_def)
  ultimately show ?thesis using * by (simp add: split_whitespace_def split_white_chars plain_word_def)
qed

text \<open>A marker is not found in a word that does not hold it.\<close>

lemma skip_word:
  assumes "CHR '' '' \<notin> set m" "m \<noteq> []" "\<not> sublist m w" "CHR '' '' \<notin> set w"
  shows "split_once_str m (w @ CHR '' '' # r) = map_option (\<lambda>(a, b). (w @ CHR '' '' # a, b)) (split_once_str m r)"
  using assms(3,4)
proof (induction w)
  case Nil
  have "strip_prefix m (CHR '' '' # r) = None" using assms(1,2) by (cases m) (auto simp: strip_prefix_None)
  then show ?case by (simp add: option.map_comp comp_def case_prod_unfold)
next
  case (Cons c w)
  have "\<not> prefix m (c # w @ CHR '' '' # r)"
  proof
    assume "prefix m (c # w @ CHR '' '' # r)"
    then consider "prefix m (c # w)" | "CHR '' '' \<in> set m"
      using prefix_append [of m "c # w" "CHR '' '' # r"] by (auto simp: prefix_Cons)
    then show False using assms(1) Cons.prems(1) by cases (auto dest: prefix_imp_sublist)
  qed
  then have "strip_prefix m (c # w @ CHR '' '' # r) = None" by (simp add: strip_prefix_None)
  then show ?case using Cons by (simp add: option.map_comp comp_def case_prod_unfold sublist_Cons_right)
qed

lemma marker_in_token:
  assumes "CHR ''='' \<notin> set k" "CHR ''='' \<notin> set v" "\<not> suffix m k" "CHR ''='' \<notin> set m"
  shows "\<not> sublist (m @ ''='') (k @ CHR ''='' # v)"
proof
  assume "sublist (m @ ''='') (k @ CHR ''='' # v)"
  then obtain p q where "k @ CHR ''='' # v = (p @ m) @ CHR ''='' # q" by (auto simp: sublist_def)
  then have "k = p @ m"
    using append_Cons_eq_iff [OF assms(1,2), of "p @ m" q] by simp
  then show False using assms(3) by (simp add: suffix_def)
qed

text \<open>Walking one token of a head: \<open>rest\<close> is what the rest of the line reads as.\<close>

definition read_head :: "string \<Rightarrow> string \<Rightarrow> ((string \<times> string) list \<times> string) option" where
  "read_head m rest =
     (case split_once_str m rest of
        None \<Rightarrow> None
      | Some (hd', tl') \<Rightarrow>
          (case those (map (split_once CHR ''='') (split_whitespace hd')) of None \<Rightarrow> None | Some kvs \<Rightarrow> Some (kvs, tl')))"

lemma read_event_head: "read_event_line (''event '' @ rest) m = read_head m rest"
  by (simp add: read_event_line_def read_head_def)

lemma read_head_end: "m \<noteq> [] \<Longrightarrow> read_head m (m @ t) = Some ([], t)"
  by (cases m) (simp_all add: read_head_def)

text \<open>A token is a key and a value of which neither holds a \<open>=\<close>, and the key does not end in the marker's.\<close>

definition head_ok :: "string \<Rightarrow> string \<Rightarrow> string \<Rightarrow> bool" where
  "head_ok m k v \<longleftrightarrow> CHR ''='' \<notin> set k \<and> CHR ''='' \<notin> set v \<and> \<not> suffix m k \<and> plain_word (k @ CHR ''='' # v)"

lemma read_head_token:
  assumes "head_ok m k v" "CHR ''='' \<notin> set m" "CHR '' '' \<notin> set m"
  shows "read_head (m @ ''='') (k @ CHR ''='' # v @ CHR '' '' # rest) =
    map_option (\<lambda>(kvs, t). ((k, v) # kvs, t)) (read_head (m @ ''='') rest)"
proof -
  let ?w = "k @ CHR ''='' # v"
  have w: "plain_word ?w" "CHR '' '' \<notin> set ?w" "\<not> sublist (m @ ''='') ?w"
    using assms marker_in_token [of k v m] plain_word_no_space [of ?w] by (simp_all add: head_ok_def)
  have s: "split_once CHR ''='' ?w = Some (k, v)" using assms(1) by (simp add: split_once_Some head_ok_def)
  have "split_once_str (m @ ''='') (?w @ CHR '' '' # rest) =
      map_option (\<lambda>(a, b). (?w @ CHR '' '' # a, b)) (split_once_str (m @ ''='') rest)"
    by (rule skip_word) (use w assms in auto)
  moreover have "split_whitespace (?w @ CHR '' '' # a) = ?w # split_whitespace a" for a by (rule split_whitespace_plain [OF w(1)])
  ultimately show ?thesis using s
    by (cases "split_once_str (m @ ''='') rest") (auto simp: read_head_def split: option.splits)
qed

lemma head_ok_visible: "CHR ''='' \<notin> set k \<Longrightarrow> CHR ''='' \<notin> set v \<Longrightarrow> \<not> suffix m k \<Longrightarrow> list_all visible (k @ v) \<Longrightarrow> head_ok m k v"
  by (auto simp: head_ok_def intro!: plain_word_visible) (simp add: visible_def)

lemma no_equals_fmt [simp]: "CHR ''='' \<notin> set (fmt_nat 10 n)"
  using fmt_nat_10_digits by (fastforce simp: is_ascii_digit_def)

lemma one_line_append [simp]: "one_line (s @ t) \<longleftrightarrow> one_line s \<and> one_line t"
  by (simp add: one_line_def)

lemma visible_line: "list_all visible s \<Longrightarrow> one_line s \<and> list_all is_ascii s"
  using visible_not_white by (induction s) (auto simp: visible_def)

lemma visible_utf8: "list_all visible s \<Longrightarrow> valid_utf8 s"
  using visible_line valid_utf8_ascii by blast

section \<open>The contract of an event of a kind and a text\<close>

locale kind_event =
  fixes token :: "'k \<Rightarrow> string" and from_token :: "string \<Rightarrow> 'k option" and mark :: string
  assumes from_token: "from_token (token k) = Some k"
    and token: "list_all visible (token k)" "CHR ''='' \<notin> set (token k)"
    and mark: "list_all visible mark" "CHR ''='' \<notin> set mark"
      "\<not> suffix mark ''seq''" "\<not> suffix mark ''at''" "\<not> suffix mark ''kind''"
begin

definition good_kind_event :: "'k kind_event \<Rightarrow> bool" where
  "good_kind_event e \<longleftrightarrow> ke_seq e < 2 ^ 64 \<and> ke_at e < 2 ^ 128 \<and> one_line (ke_text e) \<and> valid_utf8 (ke_text e)"

lemma parse_formatted:
  assumes "good_kind_event e"
  shows "parse_kind_line from_token (mark @ ''='')
    (''event seq='' @ fmt_nat 10 (ke_seq e) @ '' at='' @ fmt_nat 10 (ke_at e) @ '' kind='' @ token (ke_kind e) @
      '' '' @ (mark @ ''='') @ ke_text e) = Some e"
proof -
  have m: "CHR ''='' \<notin> set mark" "CHR '' '' \<notin> set mark" using mark by (auto simp: list_all_iff visible_def)
  let ?rest = "''seq'' @ CHR ''='' # fmt_nat 10 (ke_seq e) @ CHR '' '' # ''at'' @ CHR ''='' # fmt_nat 10 (ke_at e) @
    CHR '' '' # ''kind'' @ CHR ''='' # token (ke_kind e) @ CHR '' '' # (mark @ ''='') @ ke_text e"
  have ok: "head_ok mark ''seq'' (fmt_nat 10 n)" "head_ok mark ''at'' (fmt_nat 10 n)" "head_ok mark ''kind'' (token k)" for n k
    by (rule head_ok_visible; use mark token in \<open>simp add: visible_def\<close>)+
  have end_of: "read_head (mark @ ''='') ((mark @ ''='') @ t) = Some ([], t)" for t
    by (rule read_head_end) simp
  have "read_head (mark @ ''='') ?rest =
      Some ([(''seq'', fmt_nat 10 (ke_seq e)), (''at'', fmt_nat 10 (ke_at e)), (''kind'', token (ke_kind e))], ke_text e)"
    unfolding read_head_token [OF ok(1) m] read_head_token [OF ok(2) m] read_head_token [OF ok(3) m] end_of by simp
  moreover have "''event seq='' @ fmt_nat 10 (ke_seq e) @ '' at='' @ fmt_nat 10 (ke_at e) @ '' kind='' @ token (ke_kind e) @
      '' '' @ (mark @ ''='') @ ke_text e = ''event '' @ ?rest" by simp
  ultimately have r: "read_event_line (''event seq='' @ fmt_nat 10 (ke_seq e) @ '' at='' @ fmt_nat 10 (ke_at e) @ '' kind='' @
      token (ke_kind e) @ '' '' @ (mark @ ''='') @ ke_text e) (mark @ ''='') =
      Some ([(''seq'', fmt_nat 10 (ke_seq e)), (''at'', fmt_nat 10 (ke_at e)), (''kind'', token (ke_kind e))], ke_text e)"
    by (simp only: read_event_head)
  show ?thesis using assms unfolding parse_kind_line_def r by (simp add: field_of_def parse_uint_fmt from_token good_kind_event_def)
qed

lemma kind_wire_line:
  assumes "good_kind_event e"
  shows "\<exists>l. format_kind_line token (mark @ ''='') e = l @ [LF] \<and> one_line l \<and> valid_utf8 l \<and> prefix ''event '' l \<and>
    parse_kind_line from_token (mark @ ''='') l = Some e"
proof (intro exI conjI)
  let ?w = "\<lambda>s. one_line s \<and> list_all is_ascii s"
  have w: "?w (fmt_nat 10 n)" "?w (token k)" "?w mark" for n k
    using visible_line [OF visible_fmt] visible_line [OF token(1)] visible_line [OF mark(1)] by blast+
  let ?h = "''event seq='' @ fmt_nat 10 (ke_seq e) @ '' at='' @ fmt_nat 10 (ke_at e) @ '' kind='' @ token (ke_kind e) @
      '' '' @ mark @ ''=''"
  have h: "?w ?h" using w by (simp add: is_ascii_def)
  show "one_line (?h @ ke_text e)" using h assms by (simp add: good_kind_event_def)
  show "valid_utf8 (?h @ ke_text e)" 
    by (rule valid_utf8_append [OF valid_utf8_ascii [OF conjunct2 [OF h]]]) (use assms in \<open>simp add: good_kind_event_def\<close>)
  show "format_kind_line token (mark @ ''='') e = (?h @ ke_text e) @ [LF]" by (simp add: format_kind_line_def)
  show "parse_kind_line from_token (mark @ ''='') (?h @ ke_text e) = Some e" using parse_formatted [OF assms] by simp
qed simp

end

sublocale kind_event \<subseteq> wire_event ke_seq "format_kind_line token (mark @ ''='')" "parse_kind_line from_token (mark @ ''='')" good_kind_event
  by unfold_locales (rule kind_wire_line)

interpretation agent: kind_event AgentKind_token AgentKind_from_token "''detail''"
proof unfold_locales
  fix k
  show "AgentKind_from_token (AgentKind_token k) = Some k" "list_all visible (AgentKind_token k)" "CHR ''='' \<notin> set (AgentKind_token k)"
    by (cases k; simp add: AgentKind_from_token_def visible_def)+
qed (simp_all add: visible_def suffix_def Cons_eq_append_conv)

interpretation broker: kind_event BrokerKind_token BrokerKind_from_token "''detail''"
proof unfold_locales
  fix k
  show "BrokerKind_from_token (BrokerKind_token k) = Some k" "list_all visible (BrokerKind_token k)" "CHR ''='' \<notin> set (BrokerKind_token k)"
    by (cases k; simp add: BrokerKind_from_token_def visible_def)+
qed (simp_all add: visible_def suffix_def Cons_eq_append_conv)

interpretation signer: kind_event SignerKind_token SignerKind_from_token "''detail''"
proof unfold_locales
  fix k
  show "SignerKind_from_token (SignerKind_token k) = Some k" "list_all visible (SignerKind_token k)" "CHR ''='' \<notin> set (SignerKind_token k)"
    by (cases k; simp add: SignerKind_from_token_def visible_def)+
qed (simp_all add: visible_def suffix_def Cons_eq_append_conv)

interpretation fs: kind_event FsKind_token FsKind_from_token "''path''"
proof unfold_locales
  fix k
  show "FsKind_from_token (FsKind_token k) = Some k" "list_all visible (FsKind_token k)" "CHR ''='' \<notin> set (FsKind_token k)"
    by (cases k; simp add: FsKind_from_token_def visible_def)+
qed (simp_all add: visible_def suffix_def Cons_eq_append_conv)

section \<open>A command's line\<close>

lemma head_token_chars:
  assumes "valid_utf8 s" "one_line s"
  defines "h \<equiv> head_token s"
  shows "valid_utf8 h" "CHR ''='' \<notin> set h" "one_line h" "set (chars h) \<inter> set white_space = {}"
proof -
  let ?f = "\<lambda>c. if c \<in> set white_space \<or> c = ''='' then ''_'' else c"
  have one: "list_all one_char (map ?f (chars s))" using chars_valid [OF assms(1)] by (auto simp: list_all_iff is_ascii_def)
  have h: "h = concat (map ?f (chars s))" by (simp add: h_def head_token_def)
  have c: "chars h = map ?f (chars s)" unfolding h by (rule chars_concat [OF one])
  show v: "valid_utf8 h" unfolding h by (rule valid_utf8_concat [OF one])
  have "''_'' \<notin> set white_space" by (simp add: white_space_code)
  then show "set (chars h) \<inter> set white_space = {}" by (auto simp: c)
  have "''='' \<notin> set (chars h)" by (auto simp: c)
  then show "CHR ''='' \<notin> set h" using ascii_char [OF v, of "CHR ''=''"] by (auto simp: is_ascii_def)
  have "one_line (concat cs) \<Longrightarrow> list_all one_line cs" for cs by (induction cs) simp_all
  from this [of "chars s"] have "list_all one_line (chars s)" using assms(2) by simp
  then have "list_all one_line (map ?f (chars s))" by (auto simp: list_all_iff)
  then show "one_line h" unfolding h by (rule one_line_concat)
qed

definition good_exec_event :: "exec_event \<Rightarrow> bool" where
  "good_exec_event e \<longleftrightarrow> ee_seq e < 2 ^ 64 \<and> ee_at e < 2 ^ 128 \<and> ee_pid e < 2 ^ 32 \<and>
     list_all visible (ee_verdict e) \<and> CHR ''='' \<notin> set (ee_verdict e) \<and>
     one_line (ee_caller e) \<and> valid_utf8 (ee_caller e) \<and> CHR ''='' \<notin> set (ee_caller e) \<and>
     set (chars (ee_caller e)) \<inter> set white_space = {} \<and>
     one_line (ee_command e) \<and> valid_utf8 (ee_command e)"

lemma head_ok_word:
  assumes "list_all visible k" "CHR ''='' \<notin> set k" "CHR ''='' \<notin> set v" "\<not> suffix m k" "valid_utf8 v" "set (chars v) \<inter> set white_space = {}"
  shows "head_ok m k v"
proof -
  have "plain_word (k @ ''='')" by (rule plain_word_visible) (use assms(1) in \<open>simp_all add: visible_def\<close>)
  then have "plain_word ((k @ ''='') @ v)"
    using assms(5,6) plain_word_append [of "k @ ''=''" v] by (cases "v = []") (simp_all add: plain_word_def [of v])
  then show ?thesis using assms by (simp add: head_ok_def)
qed

lemma exec_wire_line:
  assumes "good_exec_event e"
  shows "\<exists>l. ExecEvent_format_line e = l @ [LF] \<and> one_line l \<and> valid_utf8 l \<and> prefix ''event '' l \<and> ExecEvent_parse_line l = Some e"
proof (intro exI conjI)
  note g = assms [unfolded good_exec_event_def]
  have w: "one_line (fmt_nat 10 n)" "list_all is_ascii (fmt_nat 10 n)" "one_line (ee_verdict e)" "list_all is_ascii (ee_verdict e)" for n
    using visible_line [OF visible_fmt] visible_line [of "ee_verdict e"] g by blast+
  let ?by = "if ee_caller e = [] then [] else ''by='' @ ee_caller e @ '' ''"
  let ?h = "''event seq='' @ fmt_nat 10 (ee_seq e) @ '' at='' @ fmt_nat 10 (ee_at e) @ '' pid='' @ fmt_nat 10 (ee_pid e) @
      '' verdict='' @ ee_verdict e @ '' ''"
  let ?l = "?h @ ?by @ ''cmd='' @ ee_command e"
  have h: "one_line ?h" "list_all is_ascii ?h" using w by (simp_all add: is_ascii_def)
  have bw: "one_line ?by" "valid_utf8 ?by" using g by (simp_all add: valid_utf8_append valid_utf8_Cons is_ascii_def)
  have cmd: "valid_utf8 (''cmd='' @ ee_command e)" using g by (simp add: valid_utf8_Cons is_ascii_def)
  show "one_line ?l" using h bw g by simp
  show "valid_utf8 ?l" by (rule valid_utf8_append [OF valid_utf8_ascii [OF h(2)] valid_utf8_append [OF bw(2) cmd]])
  show "prefix ''event '' ?l" by simp
  show "ExecEvent_format_line e = ?l @ [LF]" by (simp add: ExecEvent_format_line_def Let_def)
  have m: "CHR ''='' \<notin> set ''cmd''" "CHR '' '' \<notin> set ''cmd''" by simp_all
  have num: "head_ok ''cmd'' k (fmt_nat 10 n)" if "list_all visible k" "CHR ''='' \<notin> set k" "\<not> suffix ''cmd'' k" for k n
    by (rule head_ok_visible) (use that in simp_all)
  have ok: "head_ok ''cmd'' ''seq'' (fmt_nat 10 n)" "head_ok ''cmd'' ''at'' (fmt_nat 10 n)" "head_ok ''cmd'' ''pid'' (fmt_nat 10 n)" for n
    by (rule num; simp add: visible_def suffix_def Cons_eq_append_conv)+
  have okv: "head_ok ''cmd'' ''verdict'' (ee_verdict e)"
    by (rule head_ok_visible) (use g in \<open>simp_all add: visible_def suffix_def Cons_eq_append_conv\<close>)
  have okb: "head_ok ''cmd'' ''by'' (ee_caller e)"
    by (rule head_ok_word) (use g in \<open>simp_all add: visible_def suffix_def Cons_eq_append_conv\<close>)
  have fin: "read_head (''cmd'' @ ''='') (''cmd='' @ t) = Some ([], t)" for t
    using read_head_end [of "''cmd=''" t] by simp
  note steps = read_head_token [OF ok(1) m] read_head_token [OF ok(2) m] read_head_token [OF ok(3) m] read_head_token [OF okv m]
    read_head_token [OF okb m] fin
  let ?kvs = "[(''seq'', fmt_nat 10 (ee_seq e)), (''at'', fmt_nat 10 (ee_at e)), (''pid'', fmt_nat 10 (ee_pid e)),
      (''verdict'', ee_verdict e)] @ (if ee_caller e = [] then [] else [(''by'', ee_caller e)])"
  have "read_event_line ?l ''cmd='' = read_head (''cmd'' @ ''='') (''seq'' @ CHR ''='' # fmt_nat 10 (ee_seq e) @ CHR '' '' #
      ''at'' @ CHR ''='' # fmt_nat 10 (ee_at e) @ CHR '' '' # ''pid'' @ CHR ''='' # fmt_nat 10 (ee_pid e) @ CHR '' '' #
      ''verdict'' @ CHR ''='' # ee_verdict e @ CHR '' '' # (if ee_caller e = [] then ''cmd='' @ ee_command e
        else ''by'' @ CHR ''='' # ee_caller e @ CHR '' '' # ''cmd='' @ ee_command e))"
    unfolding read_event_head [symmetric] by simp
  also have "\<dots> = Some (?kvs, ee_command e)" by (simp only: steps split: if_split) simp
  finally have r: "read_event_line ?l ''cmd='' = Some (?kvs, ee_command e)" .
  show "ExecEvent_parse_line ?l = Some e"
    using g unfolding ExecEvent_parse_line_def r by (simp add: field_of_def parse_uint_fmt)
qed

interpretation exec: wire_event ee_seq ExecEvent_format_line ExecEvent_parse_line good_exec_event
  by unfold_locales (rule exec_wire_line)

section \<open>What a ring holds after any number of pushes\<close>

definition push_all :: "((nat \<Rightarrow> nat \<Rightarrow> 'e) \<times> nat) list \<Rightarrow> 'e ring \<Rightarrow> 'e ring" where
  "push_all ps r = foldl (\<lambda>r (mk, now). snd (Ring_push mk now r)) r ps"

text \<open>What was pushed, with the number and the time the ring put on it.\<close>

definition stamped :: "((nat \<Rightarrow> nat \<Rightarrow> 'e) \<times> nat) list \<Rightarrow> 'e list" where
  "stamped ps = map (\<lambda>i. fst (ps ! i) (i + 1) (snd (ps ! i))) [0..<length ps]"

lemma stamped_snoc: "stamped (ps @ [p]) = stamped ps @ [fst p (length ps + 1) (snd p)]"
  by (simp add: stamped_def nth_append)

lemma length_stamped [simp]: "length (stamped ps) = length ps"
  by (simp add: stamped_def)

lemma push_all_new:
  "push_all ps (Ring_new cap) =
     \<lparr>rg_next = length ps + 1, rg_events = drop (length ps - max cap 1) (stamped ps), rg_cap = max cap 1\<rparr>"
proof (induction ps rule: rev_induct)
  case Nil
  show ?case by (simp add: push_all_def Ring_new_def stamped_def)
next
  case (snoc p ps)
  define k where "k = max cap 1"
  let ?n = "length ps" and ?k = "k"
  have "push_all (ps @ [p]) (Ring_new cap) = snd (Ring_push (fst p) (snd p) (push_all ps (Ring_new cap)))"
    by (simp add: push_all_def split_beta)
  also have "\<dots> = \<lparr>rg_next = ?n + 2, rg_events = drop (?n - (?n - ?k) + 1 - ?k) (drop (?n - ?k) (stamped ps) @ [fst p (?n + 1) (snd p)]),
      rg_cap = ?k\<rparr>"
    unfolding snoc.IH k_def by (simp add: Ring_push_def Let_def)
  also have "drop (?n - (?n - ?k) + 1 - ?k) (drop (?n - ?k) (stamped ps) @ [fst p (?n + 1) (snd p)]) =
      drop (?n + 1 - ?k) (stamped (ps @ [p]))"
  proof (cases "?k \<le> ?n")
    case True
    then have "?n - (?n - ?k) + 1 - ?k = 1" "?n + 1 - ?k = 1 + (?n - ?k)" by simp_all
    then show ?thesis using True unfolding stamped_snoc by (simp add: drop_drop add.commute)
  next
    case False
    then show ?thesis unfolding stamped_snoc by simp
  qed
  finally show ?case by (simp add: k_def)
qed

text \<open>What a reader is told of it.\<close>

definition window :: "('e \<Rightarrow> nat) \<Rightarrow> nat \<Rightarrow> nat option \<Rightarrow> 'e list \<Rightarrow> 'e lens_snapshot" where
  "window seq_of cap after es =
     \<lparr>sp_events = filter (\<lambda>e. case after of Some a \<Rightarrow> a < seq_of e | None \<Rightarrow> 0 < seq_of e) (drop (length es - cap) es),
      sp_dropped = (case after of Some a \<Rightarrow> length es - cap - a | None \<Rightarrow> 0), sp_head = length es\<rparr>"

lemma snapshot_pushed:
  assumes "\<forall>p \<in> set ps. \<forall>n t. seq_of (fst p n t) = n" "length ps < 2 ^ 64"
  shows "Ring_snapshot seq_of after (push_all ps (Ring_new cap)) = window seq_of (max cap 1) after (stamped ps)"
proof -
  define d where "d = length ps - max cap 1"
  have first: "seq_of e = d + 1" if "drop d (stamped ps) = e # es" for e es
  proof -
    have "d < length ps" using that by (metis drop_all length_stamped list.distinct(1) not_le)
    then have "e = stamped ps ! d" using that by (metis Cons_nth_drop_Suc length_stamped list.inject)
    then show ?thesis using assms(1) \<open>d < length ps\<close> by (simp add: stamped_def)
  qed
  have "(case (after, drop d (stamped ps)) of
      (Some a, oldest # _) \<Rightarrow> if min (a + 1) U64_MAX < seq_of oldest then seq_of oldest - a - 1 else 0 | _ \<Rightarrow> 0) =
      (case after of Some a \<Rightarrow> d - a | None \<Rightarrow> 0)"
  proof (cases "drop d (stamped ps)")
    case Nil
    then have "length ps \<le> d" by (metis drop_eq_Nil length_stamped)
    then have "length ps = 0" using max.cobounded2 [of "1::nat" cap] unfolding d_def by linarith
    then have "ps = []" by simp
    then show ?thesis by (simp add: stamped_def d_def split: option.splits)
  next
    case (Cons e es)
    have "d + 1 \<le> U64_MAX" using assms(2) by (simp add: U64_MAX_def d_def)
    then show ?thesis using first [OF Cons] by (simp add: Cons min_def split: option.splits)
  qed
  then show ?thesis unfolding push_all_new Ring_snapshot_def window_def length_stamped d_def [symmetric]
    by (cases after) (simp_all add: Let_def d_def [symmetric])
qed

context wire_event
begin

lemma log_of_pushed:
  assumes "\<forall>p \<in> set ps. \<forall>n t. seq_of (fst p n t) = n" "length ps < 2 ^ 64" "pred_option (\<lambda>n. n < 2 ^ 64) after"
    and "list_all good (stamped ps)"
  shows "read_log parse (dispatch_log seq_of format (trim (log_command after)) (push_all ps (Ring_new cap))) =
    Inr (window seq_of (max cap 1) after (stamped ps))"
proof -
  have g: "list_all good (sp_events (window seq_of (max cap 1) after (stamped ps)))"
    using assms(4) by (auto simp: window_def list_all_iff dest: in_set_dropD)
  have n: "sp_dropped (window seq_of (max cap 1) after (stamped ps)) < 2 ^ 64" "sp_head (window seq_of (max cap 1) after (stamped ps)) < 2 ^ 64"
    using assms(2) by (auto simp: window_def split: option.splits)
  show ?thesis unfolding log_command_read [OF assms(3)] snapshot_pushed [OF assms(1,2)] Let_def by (rule read_reply [OF g n])
qed

end

lemma stamped_all:
  assumes "\<And>p n. p \<in> set ps \<Longrightarrow> 0 < n \<Longrightarrow> n \<le> length ps \<Longrightarrow> P (fst p n (snd p))"
  shows "list_all P (stamped ps)"
  using assms by (auto simp: stamped_def list_all_iff)

section \<open>What a reader of the logs sees\<close>

lemma exec_made_simps:
  "ee_seq (exec_made pid caller command verdict n t) = n" "ee_pid (exec_made pid caller command verdict n t) = pid"
  "ee_verdict (exec_made pid caller command verdict n t) = verdict" "ee_at (exec_made pid caller command verdict n t) = t"
  "ee_caller (exec_made pid caller command verdict n t) = head_token (sanitize caller)"
  "ee_command (exec_made pid caller command verdict n t) = sanitize command"
  by (simp_all add: exec_made_def)

lemma sanitize_utf8: "valid_utf8 s \<Longrightarrow> valid_utf8 (sanitize s)"
  using sanitize_chars [of s] chars_valid concat_chars valid_utf8_concat by metis

text \<open>The words the supervisor and the observer give a verdict.\<close>

definition exec_verdicts :: "string list" where
  "exec_verdicts = [''observe'', ''allow'', ''deny'', ''absent'', ''ask'']"

lemma exec_made_good:
  assumes "pid < 2 ^ 32" "valid_utf8 caller" "valid_utf8 command" "verdict \<in> set exec_verdicts" "n < 2 ^ 64" "t < 2 ^ 128"
  shows "good_exec_event (exec_made pid caller command verdict n t)"
proof -
  note h = head_token_chars [OF sanitize_utf8 [OF assms(2)] sanitize_one_line]
  have "list_all visible verdict \<and> CHR ''='' \<notin> set verdict" using assms(4) by (auto simp: exec_verdicts_def visible_def)
  then show ?thesis using assms h sanitize_one_line sanitize_utf8 by (simp add: good_exec_event_def exec_made_simps)
qed

text \<open>A session's commands, each with who ran it, what the policy said and when.\<close>

definition exec_session :: "(nat \<times> string \<times> string \<times> string \<times> nat) list \<Rightarrow> nat \<Rightarrow> exec_event ring" where
  "exec_session ps cap =
     foldl (\<lambda>r (pid, caller, command, verdict, now). snd (ExecRing_push_verdict pid caller command verdict now r)) (Ring_new cap) ps"

definition exec_stamped :: "(nat \<times> string \<times> string \<times> string \<times> nat) list \<Rightarrow> exec_event list" where
  "exec_stamped ps = stamped (map (\<lambda>(pid, caller, command, verdict, now). (exec_made pid caller command verdict, now)) ps)"

lemma exec_session_all:
  "exec_session ps cap = push_all (map (\<lambda>(pid, caller, command, verdict, now). (exec_made pid caller command verdict, now)) ps) (Ring_new cap)"
  unfolding exec_session_def push_all_def foldl_map ExecRing_push_verdict_def by (simp add: case_prod_unfold)

lemma exec_stamped_good:
  assumes "list_all (\<lambda>(pid, caller, command, verdict, now). pid < 2 ^ 32 \<and> valid_utf8 caller \<and> valid_utf8 command \<and>
      verdict \<in> set exec_verdicts \<and> now < 2 ^ 128) ps" "length ps < 2 ^ 64"
  shows "list_all good_exec_event (exec_stamped ps)"
  unfolding exec_stamped_def
  by (rule stamped_all) (use assms in \<open>fastforce simp: list_all_iff intro: exec_made_good\<close>)

text \<open>C31. The command log cannot be forged: whatever bytes a cage chose for its command lines and its
  program names, a reader that asks for the log (past a cursor or not) reads from the server's reply
  exactly the pushes the ring still holds, one event for each in order, with the process and the verdict
  the supervisor gave, how many were evicted before the cursor, and the newest number.\<close>

theorem exec_log_unforgeable:
  assumes "list_all (\<lambda>(pid, caller, command, verdict, now). pid < 2 ^ 32 \<and> valid_utf8 caller \<and> valid_utf8 command \<and>
      verdict \<in> set exec_verdicts \<and> now < 2 ^ 128) ps"
    and "length ps < 2 ^ 64" "pred_option (\<lambda>n. n < 2 ^ 64) after"
  shows "read_log ExecEvent_parse_line
      (dispatch_log ee_seq ExecEvent_format_line (trim (log_command after)) (exec_session ps cap)) =
    Inr (window ee_seq (max cap 1) after (exec_stamped ps))"
proof -
  let ?ps = "map (\<lambda>(pid, caller, command, verdict, now). (exec_made pid caller command verdict, now)) ps"
  have "list_all good_exec_event (stamped ?ps)" using exec_stamped_good [OF assms(1,2)] by (simp add: exec_stamped_def)
  moreover have "\<forall>p \<in> set ?ps. \<forall>n t. ee_seq (fst p n t) = n" by (auto simp: exec_made_simps)
  ultimately show ?thesis unfolding exec_session_all exec_stamped_def
    using exec.log_of_pushed [of ?ps after cap] assms(2,3) by simp
qed

theorem exec_log_unforgeable_witness:
  "(let ps = [(7, ''/bin/sh by=x'', ''ls'' @ [LF] @ ''event seq=9 at=0 pid=1 verdict=allow cmd=rm'', ''deny'', 5)] in
    read_log ExecEvent_parse_line (dispatch_log ee_seq ExecEvent_format_line (trim (log_command (Some 0))) (exec_session ps 4)) =
    Inr (window ee_seq (max 4 1) (Some 0) (exec_stamped ps)))"
  unfolding Let_def
  by (rule exec_log_unforgeable) (simp_all add: exec_verdicts_def valid_utf8_ascii is_ascii_def LF_def)



lemma sanitize_detail_utf8: "valid_utf8 s \<Longrightarrow> valid_utf8 (sanitize_detail s)"
  using sanitize_detail_chars [of s] valid_utf8_concat by metis

context kind_event
begin

lemma kind_session_log:
  assumes "list_all (\<lambda>(k, d, now). one_line d \<and> valid_utf8 d \<and> now < 2 ^ 128) ps" "length ps < 2 ^ 64" "pred_option (\<lambda>n. n < 2 ^ 64) after"
  shows "read_log (parse_kind_line from_token (mark @ ''=''))
      (dispatch_log ke_seq (format_kind_line token (mark @ ''='')) (trim (log_command after))
        (push_all (map (\<lambda>(k, d, now). (kind_made k d, now)) ps) (Ring_new cap))) =
    Inr (window ke_seq (max cap 1) after (stamped (map (\<lambda>(k, d, now). (kind_made k d, now)) ps)))"
proof (rule log_of_pushed)
  let ?ps = "map (\<lambda>(k, d, now). (kind_made k d, now)) ps"
  show "list_all good_kind_event (stamped ?ps)"
    by (rule stamped_all) (use assms(1,2) in \<open>fastforce simp: list_all_iff good_kind_event_def kind_made_def\<close>)
  show "\<forall>p \<in> set ?ps. \<forall>n t. ke_seq (fst p n t) = n" by (auto simp: kind_made_def)
  show "length ?ps < 2 ^ 64" using assms(2) by simp
qed (rule assms(3))

end

definition agent_session :: "bool \<Rightarrow> (AgentKind \<times> string \<times> nat) list \<Rightarrow> AgentKind kind_event ring" where
  "agent_session notifier ps = foldl (\<lambda>r (k, d, now). snd (snd (AgentRing_push notifier k d now r))) (Ring_new AGENT_RING_CAP) ps"

definition broker_session :: "(BrokerKind \<times> string \<times> string \<times> string option \<times> nat) list \<Rightarrow> BrokerKind kind_event ring" where
  "broker_session ps = foldl (\<lambda>r (k, b, d, l, now). snd (BrokerRing_push k b d l now r)) (Ring_new BROKER_RING_CAP) ps"

definition signer_session :: "(SignerKind \<times> string \<times> nat) list \<Rightarrow> SignerKind kind_event ring" where
  "signer_session ps = foldl (\<lambda>r (k, d, now). snd (SignerRing_push_detail k d now r)) (Ring_new SIGNER_RING_CAP) ps"

definition fs_session :: "(FsKind \<times> string \<times> nat) list \<Rightarrow> FsKind kind_event ring" where
  "fs_session ps = foldl (\<lambda>r (k, p, now). snd (FsRing_push k (sanitize p) now r)) (Ring_new FS_RING_CAP) ps"

text \<open>The events of a list of kinds and texts, as the ring stamps them.\<close>

definition kinds_stamped :: "('k \<times> string \<times> nat) list \<Rightarrow> 'k kind_event list" where
  "kinds_stamped ps = stamped (map (\<lambda>(k, d, now). (kind_made k d, now)) ps)"

lemma agent_log:
  assumes "list_all (\<lambda>(k, d, now). valid_utf8 d \<and> now < 2 ^ 128) ps" "length ps < 2 ^ 64" "pred_option (\<lambda>n. n < 2 ^ 64) after"
  shows "read_log AgentEvent_parse_line (dispatch_log ke_seq AgentEvent_format_line (trim (log_command after)) (agent_session notifier ps)) =
    Inr (window ke_seq AGENT_RING_CAP after (kinds_stamped (map (\<lambda>(k, d, now). (k, sanitize_detail d, now)) ps)))"
proof -
  let ?ps = "map (\<lambda>(k, d, now). (k, sanitize_detail d, now)) ps"
  have "agent_session notifier ps = push_all (map (\<lambda>(k, d, now). (kind_made k d, now)) ?ps) (Ring_new AGENT_RING_CAP)"
    unfolding agent_session_def push_all_def foldl_map AgentRing_push_def push_kind_def by (simp add: case_prod_unfold)
  moreover have "list_all (\<lambda>(k, d, now). one_line d \<and> valid_utf8 d \<and> now < 2 ^ 128) ?ps"
    using assms(1) sanitize_detail_one_line sanitize_detail_utf8 by (auto simp: list_all_iff)
  ultimately show ?thesis using agent.kind_session_log [of ?ps after AGENT_RING_CAP] assms(2,3)
    by (simp add: AgentEvent_parse_line_def AgentEvent_format_line_def kinds_stamped_def AGENT_RING_CAP_def)
qed

lemma broker_log:
  assumes "list_all (\<lambda>(k, b, d, l, now). valid_utf8 (labelled b d l) \<and> now < 2 ^ 128) ps" "length ps < 2 ^ 64" "pred_option (\<lambda>n. n < 2 ^ 64) after"
  shows "read_log BrokerEvent_parse_line (dispatch_log ke_seq BrokerEvent_format_line (trim (log_command after)) (broker_session ps)) =
    Inr (window ke_seq BROKER_RING_CAP after (kinds_stamped (map (\<lambda>(k, b, d, l, now). (k, sanitize_detail (labelled b d l), now)) ps)))"
proof -
  let ?ps = "map (\<lambda>(k, b, d, l, now). (k, sanitize_detail (labelled b d l), now)) ps"
  have "broker_session ps = push_all (map (\<lambda>(k, d, now). (kind_made k d, now)) ?ps) (Ring_new BROKER_RING_CAP)"
    unfolding broker_session_def push_all_def foldl_map BrokerRing_push_def push_kind_def by (simp add: case_prod_unfold)
  moreover have "list_all (\<lambda>(k, d, now). one_line d \<and> valid_utf8 d \<and> now < 2 ^ 128) ?ps"
    using assms(1) sanitize_detail_one_line sanitize_detail_utf8 by (auto simp: list_all_iff)
  ultimately show ?thesis using broker.kind_session_log [of ?ps after BROKER_RING_CAP] assms(2,3)
    by (simp add: BrokerEvent_parse_line_def BrokerEvent_format_line_def kinds_stamped_def BROKER_RING_CAP_def)
qed

lemma signer_log:
  assumes "list_all (\<lambda>(k, d, now). valid_utf8 d \<and> now < 2 ^ 128) ps" "length ps < 2 ^ 64" "pred_option (\<lambda>n. n < 2 ^ 64) after"
  shows "read_log SignerEvent_parse_line (dispatch_log ke_seq SignerEvent_format_line (trim (log_command after)) (signer_session ps)) =
    Inr (window ke_seq SIGNER_RING_CAP after (kinds_stamped (map (\<lambda>(k, d, now). (k, sanitize_detail d, now)) ps)))"
proof -
  let ?ps = "map (\<lambda>(k, d, now). (k, sanitize_detail d, now)) ps"
  have "signer_session ps = push_all (map (\<lambda>(k, d, now). (kind_made k d, now)) ?ps) (Ring_new SIGNER_RING_CAP)"
    unfolding signer_session_def push_all_def foldl_map SignerRing_push_detail_def push_kind_def by (simp add: case_prod_unfold)
  moreover have "list_all (\<lambda>(k, d, now). one_line d \<and> valid_utf8 d \<and> now < 2 ^ 128) ?ps"
    using assms(1) sanitize_detail_one_line sanitize_detail_utf8 by (auto simp: list_all_iff)
  ultimately show ?thesis using signer.kind_session_log [of ?ps after SIGNER_RING_CAP] assms(2,3)
    by (simp add: SignerEvent_parse_line_def SignerEvent_format_line_def kinds_stamped_def SIGNER_RING_CAP_def)
qed

lemma fs_log:
  assumes "list_all (\<lambda>(k, p, now). valid_utf8 p \<and> now < 2 ^ 128) ps" "length ps < 2 ^ 64" "pred_option (\<lambda>n. n < 2 ^ 64) after"
  shows "read_log FsEvent_parse_line (dispatch_log ke_seq FsEvent_format_line (trim (log_command after)) (fs_session ps)) =
    Inr (window ke_seq FS_RING_CAP after (kinds_stamped (map (\<lambda>(k, p, now). (k, sanitize p, now)) ps)))"
proof -
  let ?ps = "map (\<lambda>(k, p, now). (k, sanitize p, now)) ps"
  have "fs_session ps = push_all (map (\<lambda>(k, d, now). (kind_made k d, now)) ?ps) (Ring_new FS_RING_CAP)"
    unfolding fs_session_def push_all_def foldl_map FsRing_push_def push_kind_def by (simp add: case_prod_unfold)
  moreover have "list_all (\<lambda>(k, d, now). one_line d \<and> valid_utf8 d \<and> now < 2 ^ 128) ?ps"
    using assms(1) sanitize_one_line sanitize_utf8 by (auto simp: list_all_iff)
  ultimately show ?thesis using fs.kind_session_log [of ?ps after FS_RING_CAP] assms(2,3)
    by (simp add: FsEvent_parse_line_def FsEvent_format_line_def kinds_stamped_def FS_RING_CAP_def)
qed

text \<open>C35. The logs of the channels that use a credential, and of the filesystem, cannot be forged
  either: an ssh agent's, a broker's, a signer's and a watcher's log read back event for event from
  their replies, whatever a key comment, a plugin's label, a request or a file's name held.\<close>

theorem credential_logs_unforgeable:
  assumes "list_all (\<lambda>(k, d, now). valid_utf8 d \<and> now < 2 ^ 128) agents" "length agents < 2 ^ 64"
    and "list_all (\<lambda>(k, b, d, l, now). valid_utf8 (labelled b d l) \<and> now < 2 ^ 128) brokers" "length brokers < 2 ^ 64"
    and "list_all (\<lambda>(k, d, now). valid_utf8 d \<and> now < 2 ^ 128) signers" "length signers < 2 ^ 64"
    and "list_all (\<lambda>(k, p, now). valid_utf8 p \<and> now < 2 ^ 128) files" "length files < 2 ^ 64"
    and "pred_option (\<lambda>n. n < 2 ^ 64) after"
  defines "log \<equiv> trim (log_command after)"
  shows "read_log AgentEvent_parse_line (dispatch_log ke_seq AgentEvent_format_line log (agent_session notifier agents)) =
      Inr (window ke_seq AGENT_RING_CAP after (kinds_stamped (map (\<lambda>(k, d, now). (k, sanitize_detail d, now)) agents))) \<and>
    read_log BrokerEvent_parse_line (dispatch_log ke_seq BrokerEvent_format_line log (broker_session brokers)) =
      Inr (window ke_seq BROKER_RING_CAP after (kinds_stamped (map (\<lambda>(k, b, d, l, now). (k, sanitize_detail (labelled b d l), now)) brokers))) \<and>
    read_log SignerEvent_parse_line (dispatch_log ke_seq SignerEvent_format_line log (signer_session signers)) =
      Inr (window ke_seq SIGNER_RING_CAP after (kinds_stamped (map (\<lambda>(k, d, now). (k, sanitize_detail d, now)) signers))) \<and>
    read_log FsEvent_parse_line (dispatch_log ke_seq FsEvent_format_line log (fs_session files)) =
      Inr (window ke_seq FS_RING_CAP after (kinds_stamped (map (\<lambda>(k, p, now). (k, sanitize p, now)) files)))"
  unfolding log_def using agent_log [OF assms(1,2,9)] broker_log [OF assms(3,4,9)] signer_log [OF assms(5,6,9)] fs_log [OF assms(7,8,9)]
  by blast

theorem credential_logs_unforgeable_witness:
  "(let agents = [(AgentSign, ''key'' @ [LF] @ ''event seq=2 at=0 kind=sign detail=x'', 5)];
      brokers = [(BrokerRefuse, ''b'', ''GET / detail='', Some ''label'', 6)];
      signers = [(SignerSign, ''s: x'', 7)]; files = [(FsCreate, ''a path=b'' @ [CR], 8)]; log = trim (log_command None) in
    read_log AgentEvent_parse_line (dispatch_log ke_seq AgentEvent_format_line log (agent_session True agents)) =
      Inr (window ke_seq AGENT_RING_CAP None (kinds_stamped (map (\<lambda>(k, d, now). (k, sanitize_detail d, now)) agents))) \<and>
    read_log BrokerEvent_parse_line (dispatch_log ke_seq BrokerEvent_format_line log (broker_session brokers)) =
      Inr (window ke_seq BROKER_RING_CAP None (kinds_stamped (map (\<lambda>(k, b, d, l, now). (k, sanitize_detail (labelled b d l), now)) brokers))) \<and>
    read_log SignerEvent_parse_line (dispatch_log ke_seq SignerEvent_format_line log (signer_session signers)) =
      Inr (window ke_seq SIGNER_RING_CAP None (kinds_stamped (map (\<lambda>(k, d, now). (k, sanitize_detail d, now)) signers))) \<and>
    read_log FsEvent_parse_line (dispatch_log ke_seq FsEvent_format_line log (fs_session files)) =
      Inr (window ke_seq FS_RING_CAP None (kinds_stamped (map (\<lambda>(k, p, now). (k, sanitize p, now)) files))))"
  unfolding Let_def
  by (rule credential_logs_unforgeable)
    (simp_all add: labelled_def valid_utf8.simps is_ascii_def LF_def CR_def utf8_seq_def utf8_char_width_def second_ok_def is_continuation_def)

end
