(* ===== verification/Lens_Record.thy ===== *)
theory Lens_Record
  imports Lens_Events
begin

text \<open>
  What a session record (\<open>Recorder\<close>, src/src/sandbox/lens.rs) holds after any sequence of writes, whole
  or cut, and what its reader makes of it: the identity it was opened under, a size the reader's own
  ceiling admits, and the events that were pushed.
\<close>

section \<open>Redaction keeps a line a line\<close>

text \<open>A line feed stands at the end of a text or nowhere in it.\<close>

definition lf_last :: "string \<Rightarrow> bool" where
  "lf_last s \<longleftrightarrow> LF \<notin> set (butlast s)"

lemma lf_last_append: "LF \<notin> set a \<Longrightarrow> lf_last b \<Longrightarrow> lf_last (a @ b)"
  by (auto simp: lf_last_def butlast_append dest: in_set_butlastD)

lemma lf_last_appendD:
  assumes "lf_last (a @ b)"
  shows "lf_last b" "b \<noteq> [] \<Longrightarrow> LF \<notin> set a" "lf_last a"
  using assms by (auto simp: lf_last_def butlast_append split: if_splits dest: in_set_butlastD)

lemma lf_last_prefix: "prefix a b \<Longrightarrow> lf_last b \<Longrightarrow> lf_last a"
  using lf_last_appendD(3) by (metis prefix_def)

lemma lf_last_notin: "LF \<notin> set s \<Longrightarrow> lf_last s"
  by (auto simp: lf_last_def dest: in_set_butlastD)

lemma lossy_no_LF: "LF \<notin> set s \<Longrightarrow> LF \<notin> set (utf8_lossy s)"
  using utf8_lossy_ascii_mem [of LF s] by simp

lemma utf8_lossy_is_valid: "valid_utf8 (utf8_lossy s)"
proof (induction s rule: utf8_lossy.induct)
  case (2 b s)
  obtain ok k where k: "utf8_seq b s = (ok, k)" by force
  then have "valid_utf8 (utf8_lossy (drop k s))" using 2 by simp
  moreover have "one_char (b # take k s)" if ok
    using that k utf8_seq_take [of b s k] utf8_seq_bound [OF k] by simp
  moreover have "one_char replacement" by code_simp
  ultimately show ?case using k by (simp add: utf8_lossy.simps(2) valid_utf8_one [of "b # _", simplified] valid_utf8_one)
qed simp

lemma lf_last_lossy: "lf_last s \<Longrightarrow> lf_last (utf8_lossy s)"
proof (cases "s = []")
  case False
  assume *: "lf_last s"
  show ?thesis
  proof (cases "last s = LF")
    case True
    then have "s = butlast s @ LF # []" using False by (metis append_butlast_last_id)
    then have "utf8_lossy s = utf8_lossy (butlast s) @ LF # utf8_lossy []" using utf8_lossy_cut [of LF "butlast s" "[]"] by simp
    then show ?thesis using * lossy_no_LF by (simp add: lf_last_def)
  next
    case False
    then have "LF \<notin> set s" using * \<open>s \<noteq> []\<close> by (metis UnE append_butlast_last_id lf_last_def list.set(1) list.set(2) set_append singletonD)
    then show ?thesis using lossy_no_LF lf_last_notin by blast
  qed
qed (simp add: lf_last_def)

context substring_finder
begin

lemma named_loop_lf:
  "named_loop finder n repl out i nxt count = (res, count') \<Longrightarrow> i \<le> length out \<Longrightarrow> LF \<notin> set repl \<Longrightarrow> lf_last (drop i out) \<Longrightarrow>
    \<exists>tail. res = nxt @ tail \<and> lf_last tail"
proof (induction "Suc (length out) - i" arbitrary: i nxt count rule: less_induct)
  case less
  show ?case
  proof (cases "find_in finder n out i")
    case None
    then show ?thesis using less.prems(1,4) by (auto simp: named_loop.simps)
  next
    case (Some at)
    note f = find_in_Some [OF Some]
    let ?i = "at + length (sn_bytes n)"
    let ?piece = "take (at - i) (drop i out)"
    have i: "?i \<le> length out" using f by (simp add: found_at_def)
    have whole: "drop i out = ?piece @ take (length (sn_bytes n)) (drop at out) @ drop ?i out" using drop_pieces f by blast
    have ne: "take (length (sn_bytes n)) (drop at out) @ drop ?i out \<noteq> []" using f i by (auto simp: found_at_def)
    have l: "LF \<notin> set ?piece" "lf_last (drop ?i out)"
      using less.prems(4) lf_last_appendD(2) [of ?piece, OF _ ne] lf_last_appendD(1) whole by metis+
    have step: "named_loop finder n repl out ?i (nxt @ ?piece @ repl) (count + 1) = (res, count')"
      using less.prems(1) Some by (simp add: named_loop.simps [of finder n _ out i])
    have "Suc (length out) - ?i < Suc (length out) - i" using f i by (cases "sn_bytes n") auto
    then obtain tail where "res = (nxt @ ?piece @ repl) @ tail" "lf_last tail"
      using less.hyps [OF _ step i less.prems(3) l(2)] by blast
    then show ?thesis using l(1) less.prems(3) lf_last_append [of "?piece @ repl" tail] by simp
  qed
qed

lemma redact_one_lf:
  assumes "lf_last out" "LF \<notin> set (Placeholder_render ph (sn_name n))"
  shows "lf_last (fst (redact_one finder ph (out, count) n))"
proof -
  obtain res c where r: "named_loop finder n (Placeholder_render ph (sn_name n)) out 0 [] count = (res, c)" by force
  have "lf_last res" using named_loop_lf [OF r _ assms(2)] assms(1) by simp
  then show ?thesis using assms(1) r by (simp add: redact_one_def)
qed

lemma redact_string_line:
  assumes "lf_last line" "list_all (\<lambda>n. LF \<notin> set (sn_name n)) needles"
  shows "lf_last (fst (redact_string finder line needles Plain)) \<and> valid_utf8 (fst (redact_string finder line needles Plain))"
proof -
  have "lf_last (fst (foldl (redact_one finder Plain) (s, c) ns))"
    if "lf_last s" "list_all (\<lambda>n. LF \<notin> set (sn_name n)) ns" for ns s c
    using that
  proof (induction ns arbitrary: s c)
    case (Cons n ns)
    have "lf_last (fst (redact_one finder Plain (s, c) n))" using Cons.prems by (intro redact_one_lf) (simp_all add: LF_def)
    then show ?case using Cons.IH [of "fst (redact_one finder Plain (s, c) n)" "snd (redact_one finder Plain (s, c) n)"] Cons.prems by simp
  qed simp
  moreover have "list_all (\<lambda>n. LF \<notin> set (sn_name n)) (rev (sort_key (\<lambda>n. length (sn_bytes n)) (rev needles)))"
    using assms(2) by (simp add: list_all_iff)
  ultimately have "lf_last (fst (redact_named finder line needles Plain))" using assms(1) by (simp add: redact_named_def)
  then show ?thesis using lf_last_lossy utf8_lossy_is_valid by (simp add: redact_string_def case_prod_unfold Let_def)
qed

end

section \<open>What the file holds\<close>

text \<open>A line the writer lets through: one line of text that could not be read as one of the file's own.\<close>

definition recorded_line :: "string \<Rightarrow> bool" where
  "recorded_line l \<longleftrightarrow> LF \<notin> set l \<and> valid_utf8 l \<and> \<not> list_ex (\<lambda>p. starts_with p l) RECORD_RESERVED"

text \<open>The header, the lines, and behind them at most a cut or a note that closed the record.\<close>

definition record_shape :: "string \<Rightarrow> bool \<Rightarrow> recorder \<Rightarrow> bool" where
  "record_shape h failed rc \<longleftrightarrow>
     (\<exists>ls tl. rc_file rc = h @ concat (map (\<lambda>l. l @ [LF]) ls) @ tl \<and> list_all recorded_line ls \<and>
        lf_last tl \<and> \<not> prefix ''app='' tl \<and> (valid_utf8 tl \<or> failed) \<and>
        length (h @ concat (map (\<lambda>l. l @ [LF]) ls)) \<le> RECORD_MAX_BYTES \<and> length (rc_file rc) \<le> RECORD_READ_MAX \<and>
        (rc_open rc \<longrightarrow> tl = [] \<and> rc_written rc = length (rc_file rc)))"

lemma reserved_prefix: "list_ex (\<lambda>p. starts_with p l) RECORD_RESERVED \<Longrightarrow> list_ex (\<lambda>p. starts_with p (l @ m)) RECORD_RESERVED"
  by (auto simp: list_ex_iff starts_with_def strip_prefix_None) (metis prefix_append)+

lemma app_reserved: "prefix ''app='' l \<Longrightarrow> list_ex (\<lambda>p. starts_with p l) RECORD_RESERVED"
  by (auto simp: RECORD_RESERVED_def str_simps)

context substring_finder
begin

lemma line_written:
  assumes "lf_last line" "list_all (\<lambda>n. LF \<notin> set (sn_name n)) needles"
  defines "line' \<equiv> fst (redact_string finder line needles Plain)"
  assumes "\<not> list_ex (\<lambda>p. starts_with p line') RECORD_RESERVED"
  obtains l where "(if ends_with [LF] line' then line' else line' @ [LF]) = l @ [LF]" "recorded_line l"
proof -
  have r: "lf_last line'" "valid_utf8 line'" using redact_string_line [OF assms(1,2)] by (simp_all add: line'_def)
  show thesis
  proof (cases "ends_with [LF] line'")
    case True
    then obtain l where l: "line' = l @ [LF]" by (auto simp: str_simps suffix_def)
    then have "recorded_line l"
      using r assms(4) reserved_prefix [of l "[LF]"] valid_utf8_snoc [of LF l] by (auto simp: recorded_line_def lf_last_def is_ascii_def LF_def)
    then show ?thesis using that [of l] True l by simp
  next
    case False
    then have "LF \<notin> set line'"
      using r(1) by (cases line' rule: rev_cases) (auto simp: lf_last_def str_simps)
    then show ?thesis using that [of line'] False r(2) assms(4) by (simp add: recorded_line_def)
  qed
qed

lemma record_shape_step:
  assumes "record_shape h failed rc" "lf_last line" "list_all (\<lambda>n. LF \<notin> set (sn_name n)) needles"
  shows "record_shape h (failed \<or> outcome \<noteq> None) (Recorder_record finder needles outcome line rc)"
proof -
  let ?line = "fst (redact_string finder line needles Plain)"
  let ?rc = "Recorder_record finder needles outcome line rc"
  obtain ls tl where s: "rc_file rc = h @ concat (map (\<lambda>l. l @ [LF]) ls) @ tl" "list_all recorded_line ls"
    "lf_last tl" "\<not> prefix ''app='' tl" "valid_utf8 tl \<or> failed" "length (h @ concat (map (\<lambda>l. l @ [LF]) ls)) \<le> RECORD_MAX_BYTES"
    "length (rc_file rc) \<le> RECORD_READ_MAX" "rc_open rc \<longrightarrow> tl = [] \<and> rc_written rc = length (rc_file rc)"
    using assms(1) unfolding record_shape_def by blast
  have same: "record_shape h (failed \<or> outcome \<noteq> None) rc" using assms(1) unfolding record_shape_def by blast
  have "?rc = rc" if "list_ex (\<lambda>p. starts_with p ?line) RECORD_RESERVED \<or> \<not> rc_open rc"
    using that unfolding Recorder_record_def Let_def by (elim disjE) simp_all
  then consider "?rc = rc" | "\<not> list_ex (\<lambda>p. starts_with p ?line) RECORD_RESERVED" "rc_open rc" by blast
  then show ?thesis
  proof cases
    case 2
    obtain l where l: "(if ends_with [LF] ?line then ?line else ?line @ [LF]) = l @ [LF]" "recorded_line l"
      using line_written [OF assms(2,3) 2(1)] by blast
    have t: "tl = []" "rc_written rc = length (rc_file rc)" using s(8) 2(2) by simp_all
    have rc: "?rc = (if RECORD_MAX_BYTES < length (rc_file rc) + length (l @ [LF]) then
          rc\<lparr>rc_file := rc_file rc @ (case outcome of None \<Rightarrow> RECORD_TRUNCATED_NOTE | Some n \<Rightarrow> take n RECORD_TRUNCATED_NOTE), rc_open := False\<rparr>
        else case outcome of
          Some n \<Rightarrow> rc\<lparr>rc_file := rc_file rc @ take n (l @ [LF]), rc_open := False\<rparr>
        | None \<Rightarrow> rc\<lparr>rc_file := rc_file rc @ l @ [LF], rc_written := rc_written rc + length (l @ [LF])\<rparr>)"
      using 2 unfolding Recorder_record_def Let_def l(1) t(2) by simp
    have closed: "record_shape h (failed \<or> outcome \<noteq> None) (rc\<lparr>rc_file := rc_file rc @ x, rc_open := False\<rparr>)"
      if "lf_last x" "\<not> prefix ''app='' x" "valid_utf8 x \<or> outcome \<noteq> None" "length (rc_file rc) + length x \<le> RECORD_READ_MAX" for x
      unfolding record_shape_def by (rule exI [of _ ls], rule exI [of _ x]) (use that s(1,2,6) t in auto)
    show ?thesis
    proof (cases "RECORD_MAX_BYTES < length (rc_file rc) + length (l @ [LF])")
      case True
      let ?x = "case outcome of None \<Rightarrow> RECORD_TRUNCATED_NOTE | Some n \<Rightarrow> take n RECORD_TRUNCATED_NOTE"
      have p: "prefix ?x RECORD_TRUNCATED_NOTE" by (cases outcome) (simp_all add: take_is_prefix)
      have "lf_last RECORD_TRUNCATED_NOTE" by (simp add: lf_last_def RECORD_TRUNCATED_NOTE_def LF_def butlast_append)
      then have "lf_last ?x" by (rule lf_last_prefix [OF p])
      moreover have "\<not> prefix ''app='' ?x"
        using p prefix_order.order_trans [of "''app=''" ?x RECORD_TRUNCATED_NOTE] by (auto simp: RECORD_TRUNCATED_NOTE_def)
      moreover have "valid_utf8 ?x \<or> outcome \<noteq> None"
        by (cases outcome) (simp_all add: RECORD_TRUNCATED_NOTE_def valid_utf8_ascii is_ascii_def LF_def)
      moreover have "length (rc_file rc) + length ?x \<le> RECORD_READ_MAX"
        using s(1,6) t(1) prefix_length_le [OF p] by (simp add: RECORD_READ_MAX_def)
      ultimately show ?thesis unfolding rc using closed [of ?x] True by simp
    next
      case False
      show ?thesis
      proof (cases outcome)
        case None
        have "record_shape h (failed \<or> outcome \<noteq> None) (rc\<lparr>rc_file := rc_file rc @ l @ [LF], rc_written := rc_written rc + length (l @ [LF])\<rparr>)"
          unfolding record_shape_def
          by (rule exI [of _ "ls @ [l]"], rule exI [of _ "[]"])
            (use s t l(2) False 2(2) in \<open>auto simp: RECORD_READ_MAX_def lf_last_def\<close>)
        then show ?thesis unfolding rc using None False by simp
      next
        case (Some n)
        let ?x = "take n (l @ [LF])"
        have p: "prefix ?x (l @ [LF])" by (rule take_is_prefix)
        have "lf_last (l @ [LF])" using l(2) by (simp add: lf_last_def recorded_line_def)
        then have "lf_last ?x" by (rule lf_last_prefix [OF p])
        moreover have "\<not> prefix ''app='' ?x"
        proof
          assume "prefix ''app='' ?x"
          then have "prefix ''app='' (l @ [LF])" using p prefix_order.order_trans by blast
          moreover have "''app='' \<noteq> l @ [LF]" by (rule notI, drule arg_cong [where f = last]) (simp add: LF_def)
          ultimately have "prefix ''app='' l" by (simp add: prefix_snoc)
          then show False using l(2) app_reserved by (simp add: recorded_line_def)
        qed
        moreover have "length (rc_file rc) + length ?x \<le> RECORD_READ_MAX" using False by (simp add: RECORD_READ_MAX_def)
        ultimately show ?thesis unfolding rc using closed [of ?x] Some False by simp
      qed
    qed
  qed (use same in simp)
qed

end

section \<open>What its reader makes of it\<close>

text \<open>The line a reader sees where \<open>l\<close> was written: a carriage return before the line feed goes with it.\<close>

definition strip_cr :: "string \<Rightarrow> string" where
  "strip_cr l = (case strip_suffix [CR] l of None \<Rightarrow> l | Some l' \<Rightarrow> l')"

lemma str_lines_cut: "LF \<notin> set l \<Longrightarrow> str_lines (l @ LF # rest) = strip_cr l # str_lines rest"
  by (simp add: str_lines_def split_inclusive_line strip_cr_def)

lemma str_lines_concat:
  "list_all (\<lambda>l. LF \<notin> set l) ls \<Longrightarrow> str_lines (concat (map (\<lambda>l. l @ [LF]) ls) @ rest) = map strip_cr ls @ str_lines rest"
  by (induction ls) (simp_all add: str_lines_cut)

lemma strip_cr_prefix: "prefix (strip_cr l) l"
  by (auto simp: strip_cr_def prefix_def strip_suffix_Some split: option.splits)

lemma strip_cr_plain [simp]: "CR \<notin> set l \<Longrightarrow> strip_cr l = l"
  by (simp add: strip_cr_def strip_suffix_notin)

lemma split_inclusive_one: "LF \<notin> set l \<Longrightarrow> split_inclusive l = (if l = [] then [] else [l])"
  by (induction l) (auto split: if_splits)

lemma str_lines_last: "lf_last tl' \<Longrightarrow> x \<in> set (str_lines tl') \<Longrightarrow> prefix x tl'"
proof (cases "LF \<in> set tl'")
  case True
  assume *: "lf_last tl'" "x \<in> set (str_lines tl')"
  obtain l where l: "tl' = l @ [LF]" "LF \<notin> set l"
    using True *(1) by (cases tl' rule: rev_cases) (auto simp: lf_last_def)
  then have "x = strip_cr l" using *(2) str_lines_cut [OF l(2), of "[]"] by simp
  then show ?thesis using strip_cr_prefix [of l] l(1) by (simp add: prefix_append)
next
  case False
  assume *: "lf_last tl'" "x \<in> set (str_lines tl')"
  then have "x = tl'" using split_inclusive_one [OF False] False by (auto simp: str_lines_def strip_suffix_notin split: if_splits)
  then show ?thesis by simp
qed

lemma utf8_error_valid: "valid_utf8 s \<Longrightarrow> utf8_error s = None"
  by (induction s rule: utf8_error.induct) (auto simp: utf8_error.simps(2) valid_utf8.simps(2) split: prod.splits)

text \<open>Once the header is read, no line renames the session.\<close>

lemma read_lines_named:
  assumes "\<forall>l \<in> set ls. sr_app r = None \<longrightarrow> \<not> prefix ''app='' l"
  shows "sr_project (fst (foldl (read_record_line parse) (r, True) ls)) = sr_project r \<and>
    sr_app (fst (foldl (read_record_line parse) (r, True) ls)) = sr_app r"
  using assms
proof (induction ls arbitrary: r)
  case (Cons l ls)
  have "\<exists>r'. read_record_line parse (r, True) l = (r', True) \<and> sr_project r' = sr_project r \<and> sr_app r' = sr_app r"
  proof (cases "strip_prefix ''app='' l")
    case None
    then show ?thesis by (cases "strip_prefix ''project='' l"; cases "parse l") (simp_all add: read_record_line_def)
  next
    case (Some x)
    then have "sr_app r \<noteq> None" using Cons.prems by (auto simp: strip_prefix_Some)
    then show ?thesis using Some by (cases "strip_prefix ''project='' l") (simp_all add: read_record_line_def)
  qed
  then obtain r' where r': "read_record_line parse (r, True) l = (r', True)" "sr_project r' = sr_project r" "sr_app r' = sr_app r"
    by blast
  then show ?case using Cons.IH [of r'] Cons.prems by simp
qed simp

lemma read_header:
  assumes "identity_is_recordable project app"
  shows "foldl (read_record_line parse) (\<lparr>sr_project = [], sr_app = None, sr_truncated = over, sr_events = []\<rparr>, False)
      (str_lines (record_header project app @ body)) =
    foldl (read_record_line parse) (\<lparr>sr_project = project, sr_app = app, sr_truncated = over, sr_events = []\<rparr>, True) (str_lines body)"
proof -
  have p: "LF \<notin> set (''project='' @ project)" "CR \<notin> set (''project='' @ project)"
    using assms by (auto simp: identity_is_recordable_def LF_def CR_def)
  show ?thesis
  proof (cases app)
    case None
    have "str_lines (record_header project app @ body) = (''project='' @ project) # str_lines body"
      using str_lines_cut [OF p(1), of body] strip_cr_plain [OF p(2)] by (simp add: record_header_def None)
    then show ?thesis by (simp add: read_record_line_def None)
  next
    case (Some a)
    have a: "LF \<notin> set (''app='' @ a)" "CR \<notin> set (''app='' @ a)"
      using assms by (auto simp: identity_is_recordable_def Some LF_def CR_def)
    have "str_lines (record_header project app @ body) = (''project='' @ project) # (''app='' @ a) # str_lines body"
      using str_lines_cut [OF p(1), of "''app='' @ a @ LF # body"] str_lines_cut [OF a(1), of body] strip_cr_plain [OF p(2)] strip_cr_plain [OF a(2)]
      by (simp add: record_header_def Some)
    then show ?thesis by (simp add: read_record_line_def Some)
  qed
qed

lemma valid_lines: "list_all valid_utf8 ls \<Longrightarrow> valid_utf8 (concat (map (\<lambda>l. l @ [LF]) ls))"
  by (induction ls) (simp_all add: valid_utf8_append valid_utf8_Cons is_ascii_def LF_def)

lemma read_shape:
  fixes parse :: "string \<Rightarrow> 'e option"
  assumes "record_shape (record_header project app) failed rc" "identity_is_recordable project app"
    and "valid_utf8 project" "pred_option valid_utf8 app"
  shows "case read_record_with parse (rc_file rc) of
      Inr r \<Rightarrow> sr_project r = project \<and> sr_app r = app
    | Inl _ \<Rightarrow> failed"
proof -
  let ?h = "record_header project app"
  obtain ls tl where s: "rc_file rc = ?h @ concat (map (\<lambda>l. l @ [LF]) ls) @ tl" "list_all recorded_line ls"
    "lf_last tl" "\<not> prefix ''app='' tl" "valid_utf8 tl \<or> failed" "length (rc_file rc) \<le> RECORD_READ_MAX"
    using assms(1) unfolding record_shape_def by blast
  have whole: "take RECORD_READ_MAX (rc_file rc) = rc_file rc" "\<not> RECORD_READ_MAX < length (rc_file rc)" using s(6) by simp_all
  have "valid_utf8 ?h"
    using assms(3,4) by (cases app) (simp_all add: record_header_def valid_utf8_Cons valid_utf8_append is_ascii_def LF_def)
  moreover have "list_all valid_utf8 ls" "list_all (\<lambda>l. LF \<notin> set l) ls" using s(2) by (auto simp: list_all_iff recorded_line_def)
  ultimately have "valid_utf8 (rc_file rc) \<or> failed" using s(1,5) valid_lines valid_utf8_append by metis
  then have fail: "failed" if "utf8_error (rc_file rc) \<noteq> None" using that utf8_error_valid [of "rc_file rc"] by auto
  have "str_lines (concat (map (\<lambda>l. l @ [LF]) ls) @ tl) = map strip_cr ls @ str_lines tl"
    by (rule str_lines_concat) fact
  moreover have "\<not> prefix ''app='' (strip_cr l)" if "l \<in> set ls" for l
    using that s(2) app_reserved [of l] prefix_order.order_trans [OF _ strip_cr_prefix [of l]] by (auto simp: list_all_iff recorded_line_def)
  moreover have "\<not> prefix ''app='' l" if "l \<in> set (str_lines tl)" for l
    using s(4) prefix_order.order_trans [OF _ str_lines_last [OF s(3) that]] by blast
  ultimately have none: "\<forall>l \<in> set (str_lines (concat (map (\<lambda>l. l @ [LF]) ls) @ tl)). \<not> prefix ''app='' l" by auto
  define r :: "'e session_record" where "r = \<lparr>sr_project = project, sr_app = app, sr_truncated = False, sr_events = []\<rparr>"
  have r: "foldl (read_record_line parse) (\<lparr>sr_project = [], sr_app = None, sr_truncated = False, sr_events = []\<rparr>, False)
      (str_lines (rc_file rc)) = foldl (read_record_line parse) (r, True) (str_lines (concat (map (\<lambda>l. l @ [LF]) ls) @ tl))"
    "sr_project r = project" "sr_app r = app"
    unfolding s(1) r_def using read_header [OF assms(2)] by simp_all
  then show ?thesis
    using fail read_lines_named [of "str_lines (concat (map (\<lambda>l. l @ [LF]) ls) @ tl)" r parse] none whole
    by (cases "utf8_error (rc_file rc)") (simp_all add: read_record_with_def read_bounded_def)
qed

section \<open>A session's record\<close>

text \<open>Any sequence of writes to one record: the needles of the moment, how the write ended, the line.\<close>

definition record_lines ::
  "(string \<Rightarrow> string \<Rightarrow> nat option) \<Rightarrow> (secret_needle list \<times> nat option \<times> string) list \<Rightarrow> recorder \<Rightarrow> recorder" where
  "record_lines finder ws rc = foldl (\<lambda>rc (needles, outcome, line). Recorder_record finder needles outcome line rc) rc ws"

lemma record_lines_shape:
  assumes "substring_finder finder" "record_shape h failed rc"
    and "list_all (\<lambda>(needles, outcome, line). lf_last line \<and> list_all (\<lambda>n. LF \<notin> set (sn_name n)) needles) ws"
  shows "record_shape h (failed \<or> list_ex (\<lambda>(needles, outcome, line). outcome \<noteq> None) ws) (record_lines finder ws rc)"
  using assms(2,3)
proof (induction ws arbitrary: failed rc)
  case (Cons w ws)
  obtain needles outcome line where w: "w = (needles, outcome, line)" by (rule prod_cases3)
  have "record_shape h (failed \<or> outcome \<noteq> None) (Recorder_record finder needles outcome line rc)"
    by (rule substring_finder.record_shape_step [OF assms(1) Cons.prems(1)]) (use Cons.prems(2) w in simp_all)
  from Cons.IH [OF this] show ?case using Cons.prems(2) by (simp add: record_lines_def w disj_assoc)
qed (simp add: record_lines_def)

lemma record_created:
  assumes "Recorder_create project app None = Some rc" "length (record_header project app) \<le> RECORD_MAX_BYTES"
  shows "record_shape (record_header project app) False rc \<and> identity_is_recordable project app"
proof -
  have rc: "rc = \<lparr>rc_file = record_header project app, rc_written = length (record_header project app), rc_open = True\<rparr>"
    "identity_is_recordable project app"
    using assms(1) by (auto simp: Recorder_create_def Let_def split: if_splits)
  show ?thesis unfolding rc(1) record_shape_def using assms(2) rc(2)
    by (intro conjI exI [of _ "[]"]) (simp_all add: lf_last_def RECORD_READ_MAX_def)
qed

text \<open>C32. A session's record stays the session's: after any sequence of events, redacted against any
  credentials and with any of the writes failing part way, the file is within what its reader reads
  whole, and the reader finds in it the project and the app it was opened for, or nothing at all, which
  happens only where a write was cut.\<close>

theorem record_names_its_session:
  assumes "Recorder_create project app None = Some rc" "length (record_header project app) \<le> RECORD_MAX_BYTES"
    and "valid_utf8 project" "pred_option valid_utf8 app" "substring_finder finder"
    and "list_all (\<lambda>(needles, outcome, line). lf_last line \<and> list_all (\<lambda>n. LF \<notin> set (sn_name n)) needles) ws"
  shows "length (rc_file (record_lines finder ws rc)) \<le> RECORD_READ_MAX \<and>
    (case read_record_with parse (rc_file (record_lines finder ws rc)) of
       Inr r \<Rightarrow> sr_project r = project \<and> sr_app r = app
     | Inl _ \<Rightarrow> list_ex (\<lambda>(needles, outcome, line). outcome \<noteq> None) ws)"
proof -
  have c: "record_shape (record_header project app) False rc" "identity_is_recordable project app"
    using record_created [OF assms(1,2)] by simp_all
  have s: "record_shape (record_header project app) (list_ex (\<lambda>(needles, outcome, line). outcome \<noteq> None) ws) (record_lines finder ws rc)"
    using record_lines_shape [OF assms(5) c(1) assms(6)] by simp
  then have "length (rc_file (record_lines finder ws rc)) \<le> RECORD_READ_MAX" unfolding record_shape_def by blast
  then show ?thesis using read_shape [OF s c(2) assms(3,4)] by blast
qed

theorem record_names_its_session_witness:
  "(let rc = \<lparr>rc_file = record_header ''/p'' None, rc_written = 11, rc_open = True\<rparr>;
      ws = [([], None, ''app=other'' @ [LF]), ([], Some 3, ''event seq=1'')] in
    length (rc_file (record_lines first_at ws rc)) \<le> RECORD_READ_MAX \<and>
    (case read_record_with ExecEvent_parse_line (rc_file (record_lines first_at ws rc)) of
       Inr r \<Rightarrow> sr_project r = ''/p'' \<and> sr_app r = None
     | Inl _ \<Rightarrow> list_ex (\<lambda>(needles, outcome, line). outcome \<noteq> None) ws))"
  unfolding Let_def
  by (rule record_names_its_session)
    (simp_all add: Recorder_create_def identity_is_recordable_def record_header_def LF_def CR_def RECORD_MAX_BYTES_def
      valid_utf8_ascii is_ascii_def lf_last_def left_to_right.substring_finder_axioms)

text \<open>A write that ends inside a character leaves a record its reader refuses as a whole.\<close>

lemma redact_nothing: "valid_utf8 line \<Longrightarrow> fst (redact_string finder line [] ph) = line"
  by (simp add: redact_string_def redact_named_def utf8_lossy_valid)

lemma utf8_error_char: "utf8_seq b s = (True, k) \<Longrightarrow> utf8_error (b # s) = map_option (\<lambda>(n, unfinished). (Suc k + n, unfinished)) (utf8_error (drop k s))"
  by (simp add: utf8_error.simps(2))

lemma utf8_error_valid_append: "valid_utf8 s \<Longrightarrow> utf8_error (s @ t) = map_option (\<lambda>(n, unfinished). (length s + n, unfinished)) (utf8_error t)"
proof (induction s rule: valid_utf8.induct)
  case (2 b s)
  obtain k where k: "utf8_seq b s = (True, k)" "valid_utf8 (drop k s)"
    using "2.prems" by (auto simp: valid_utf8.simps(2) split: prod.splits)
  have b: "k \<le> length s" using utf8_seq_bound [OF k(1)] .
  have "utf8_error (drop k s @ t) = map_option (\<lambda>(n, unfinished). (length (drop k s) + n, unfinished)) (utf8_error t)"
    using "2.IH" k by simp
  then show ?case using utf8_error_char [OF utf8_seq_append [OF k(1)]] b
    by (auto simp: option.map_comp comp_def case_prod_unfold intro!: option.map_cong)
qed (simp add: option.map_ident case_prod_unfold)

lemma cut_character_costs_the_record:
  assumes "valid_utf8 project" "valid_utf8 line" "LF \<notin> set line"
    and "length (record_header project None @ line) + 4 \<le> RECORD_MAX_BYTES" "identity_is_recordable project None"
    and "\<not> list_ex (\<lambda>p. starts_with p line) RECORD_RESERVED"
  shows "\<exists>rc. Recorder_create project None None = Some rc \<and>
    read_record_with parse (rc_file (record_lines finder [([], None, line), ([], Some 1, [CHR 0xC3, CHR 0xA9])] rc)) = Inl Broken"
proof -
  let ?h = "record_header project None"
  let ?rc = "\<lparr>rc_file = ?h, rc_written = length ?h, rc_open = True\<rparr>"
  have e: "valid_utf8 [CHR 0xC3, CHR 0xA9]" by code_simp
  have r: "\<not> list_ex (\<lambda>p. starts_with p [CHR 0xC3, CHR 0xA9]) RECORD_RESERVED" "\<not> ends_with [LF] [CHR 0xC3, CHR 0xA9]" by code_simp+
  have l: "\<not> ends_with [LF] line" using assms(3) by (auto simp: str_simps suffix_def)
  let ?rc' = "?rc\<lparr>rc_file := ?h @ line @ [LF], rc_written := length ?h + length (line @ [LF])\<rparr>"
  have n: "Recorder_record finder [] None line ?rc = ?rc'"
    using assms(4,6) l by (simp add: Recorder_record_def redact_nothing [OF assms(2)] Let_def)
  have "Recorder_record finder [] (Some 1) [CHR 0xC3, CHR 0xA9] ?rc' = ?rc'\<lparr>rc_file := (?h @ line @ [LF]) @ [CHR 0xC3], rc_open := False\<rparr>"
    using assms(4) r by (simp add: Recorder_record_def redact_nothing [OF e] Let_def)
  then have f: "rc_file (record_lines finder [([], None, line), ([], Some 1, [CHR 0xC3, CHR 0xA9])] ?rc) = (?h @ line @ [LF]) @ [CHR 0xC3]"
    unfolding record_lines_def foldl.simps prod.case n by simp
  have v: "valid_utf8 (?h @ line @ [LF])"
    using assms(1,2) by (simp add: record_header_def valid_utf8_append valid_utf8_Cons is_ascii_def LF_def)
  have "utf8_error [CHR 0xC3] = Some (0, True)" by code_simp
  then have u: "utf8_error ((?h @ line @ [LF]) @ [CHR 0xC3]) = Some (length (?h @ line @ [LF]), True)"
    unfolding utf8_error_valid_append [OF v] by simp
  have "length ((?h @ line @ [LF]) @ [CHR 0xC3]) \<le> RECORD_READ_MAX" using assms(4) by (simp add: RECORD_READ_MAX_def)
  then have "read_record_with parse ((?h @ line @ [LF]) @ [CHR 0xC3]) = Inl Broken"
    using u unfolding read_record_with_def read_bounded_def Let_def by simp
  then show ?thesis using f assms(5) by (intro exI [of _ ?rc]) (simp add: Recorder_create_def Let_def)
qed

section \<open>A record reads back as the session\<close>

definition recorded_session ::
  "(string \<Rightarrow> string \<Rightarrow> nat option) \<Rightarrow> ('e \<Rightarrow> string) \<Rightarrow> ((nat \<Rightarrow> nat \<Rightarrow> 'e) \<times> nat) list \<Rightarrow> nat \<Rightarrow> recorder \<Rightarrow>
    'e ring \<times> recorder option" where
  "recorded_session finder format ps cap rc =
     foldl (\<lambda>st (mk, now). snd (Ring_push_recorded finder [] None format mk now st)) (Ring_new cap, Some rc) ps"

lemma Recorder_line:
  assumes "valid_utf8 l" "prefix ''event '' l" "LF \<notin> set l" "rc_open rc" "rc_written rc + length l + 1 \<le> RECORD_MAX_BYTES"
  shows "Recorder_record finder [] None (l @ [LF]) rc =
    rc\<lparr>rc_file := rc_file rc @ l @ [LF], rc_written := rc_written rc + length (l @ [LF])\<rparr>"
proof -
  have v: "valid_utf8 (l @ [LF])" using assms(1) by (simp add: valid_utf8_snoc is_ascii_def LF_def)
  obtain r where "l @ [LF] = ''event '' @ r" using assms(2) by (auto simp: prefix_def)
  then have "\<not> list_ex (\<lambda>p. starts_with p (l @ [LF])) RECORD_RESERVED" by (simp add: RECORD_RESERVED_def str_simps)
  moreover have "ends_with [LF] (l @ [LF])" by (simp add: str_simps)
  ultimately show ?thesis using assms(4,5) by (simp add: Recorder_record_def redact_nothing [OF v] Let_def)
qed

context wire_event
begin

lemma recorded_session_file:
  assumes "list_all good (stamped ps)"
    and "length h + length (concat (map format (stamped ps))) \<le> RECORD_MAX_BYTES"
  shows "recorded_session finder format ps cap \<lparr>rc_file = h, rc_written = length h, rc_open = True\<rparr> =
    (push_all ps (Ring_new cap), Some \<lparr>rc_file = h @ concat (map format (stamped ps)),
      rc_written = length h + length (concat (map format (stamped ps))), rc_open = True\<rparr>)"
  using assms
proof (induction ps rule: rev_induct)
  case Nil
  show ?case by (simp add: recorded_session_def push_all_def stamped_def)
next
  case (snoc p ps)
  let ?e = "fst p (length ps + 1) (snd p)"
  let ?f = "h @ concat (map format (stamped ps))"
  have g: "list_all good (stamped ps)" "good ?e" using snoc.prems(1) by (simp_all add: stamped_snoc)
  note l = event_line [OF g(2)]
  have len: "length ?f + length (format ?e) \<le> RECORD_MAX_BYTES" using snoc.prems(2) by (simp add: stamped_snoc)
  have "Recorder_record finder [] None (format ?e) \<lparr>rc_file = ?f, rc_written = length ?f, rc_open = True\<rparr> =
      \<lparr>rc_file = ?f @ format ?e, rc_written = length ?f + length (format ?e), rc_open = True\<rparr>"
    unfolding l(1) using Recorder_line [OF l(3,4) conjunct1 [OF one_line_ends [OF l(2)]], of "\<lparr>rc_file = ?f, rc_written = length ?f, rc_open = True\<rparr>" finder]
      len [unfolded l(1)] by simp
  moreover have "recorded_session finder format ps cap \<lparr>rc_file = h, rc_written = length h, rc_open = True\<rparr> =
      (push_all ps (Ring_new cap), Some \<lparr>rc_file = ?f, rc_written = length ?f, rc_open = True\<rparr>)"
    using snoc.IH [OF g(1)] len by simp
  moreover have "Ring_push (fst p) (snd p) (push_all ps (Ring_new cap)) = (length ps + 1, push_all (ps @ [p]) (Ring_new cap))"
  proof (rule prod_eqI)
    show "fst (Ring_push (fst p) (snd p) (push_all ps (Ring_new cap))) = fst (length ps + 1, push_all (ps @ [p]) (Ring_new cap))"
      by (simp add: Ring_push_def Let_def push_all_new)
    show "snd (Ring_push (fst p) (snd p) (push_all ps (Ring_new cap))) = snd (length ps + 1, push_all (ps @ [p]) (Ring_new cap))"
      by (simp add: push_all_def case_prod_unfold)
  qed
  ultimately show ?case by (simp add: recorded_session_def Ring_push_recorded_def case_prod_unfold stamped_snoc)
qed

lemma read_event_lines:
  assumes "list_all good es"
  shows "foldl (read_record_line parse) (r, True) (map line_of_event es) = (r\<lparr>sr_events := sr_events r @ es\<rparr>, True)"
  using assms
proof (induction es arbitrary: r)
  case (Cons e es)
  then have g: "good e" by simp
  obtain x where x: "line_of_event e = ''event '' @ x" using event_line(4) [OF g] by (auto simp: prefix_def)
  have "read_record_line parse (r, True) (line_of_event e) = (r\<lparr>sr_events := sr_events r @ [e]\<rparr>, True)"
    using event_line(5) [OF g] unfolding x by (simp add: read_record_line_def starts_with_def)
  then show ?case using Cons by simp
qed simp

lemma record_read_back:
  assumes "list_all good es" "length (record_header project app @ concat (map format es)) \<le> RECORD_MAX_BYTES"
    and "identity_is_recordable project app" "valid_utf8 project" "pred_option valid_utf8 app"
  shows "read_record_with parse (record_header project app @ concat (map format es)) =
    Inr \<lparr>sr_project = project, sr_app = app, sr_truncated = False, sr_events = es\<rparr>"
proof -
  let ?file = "record_header project app @ concat (map format es)"
  have "length ?file \<le> RECORD_READ_MAX" using assms(2) by (simp add: RECORD_READ_MAX_def)
  then have w: "take RECORD_READ_MAX ?file = ?file" "\<not> RECORD_READ_MAX < length ?file" by simp_all
  have "valid_utf8 (concat (map format es))"
    using assms(1) by (induction es) (simp_all add: event_line(1,3) valid_utf8_append valid_utf8_Cons is_ascii_def LF_def)
  moreover have "valid_utf8 (record_header project app)"
    using assms(4,5) by (cases app) (simp_all add: record_header_def valid_utf8_Cons valid_utf8_append is_ascii_def LF_def)
  ultimately have u: "utf8_error ?file = None" using utf8_error_valid valid_utf8_append by blast
  have lines: "str_lines (concat (map format es)) = map line_of_event es" using lines_of_events [OF assms(1), of "[]"] by simp
  have "foldl (read_record_line parse) (\<lparr>sr_project = [], sr_app = None, sr_truncated = False, sr_events = []\<rparr>, False) (str_lines ?file) =
      (\<lparr>sr_project = project, sr_app = app, sr_truncated = False, sr_events = es\<rparr>, True)"
    unfolding read_header [OF assms(3)] lines read_event_lines [OF assms(1)] by simp
  then show ?thesis using w u by (simp add: read_record_with_def read_bounded_def)
qed

end

text \<open>C33. A session's record reads back as the session: with no credential to redact and while it fits,
  every command pushed is read from the file, also those the ring has dropped since, under the identity
  the record was opened with and with nothing said to be missing.\<close>

theorem exec_record_roundtrip:
  assumes "Recorder_create project app None = Some rc" "valid_utf8 project" "pred_option valid_utf8 app"
    and "list_all (\<lambda>(pid, caller, command, verdict, now). pid < 2 ^ 32 \<and> valid_utf8 caller \<and> valid_utf8 command \<and>
      verdict \<in> set exec_verdicts \<and> now < 2 ^ 128) ps" "length ps < 2 ^ 64"
    and "length (record_header project app) + length (concat (map ExecEvent_format_line (exec_stamped ps))) \<le> RECORD_MAX_BYTES"
  shows "\<exists>rc'. recorded_session finder ExecEvent_format_line
      (map (\<lambda>(pid, caller, command, verdict, now). (exec_made pid caller command verdict, now)) ps) cap rc = (exec_session ps cap, Some rc') \<and>
    read_record_with ExecEvent_parse_line (rc_file rc') =
      Inr \<lparr>sr_project = project, sr_app = app, sr_truncated = False, sr_events = exec_stamped ps\<rparr>"
proof -
  let ?h = "record_header project app"
  have rc: "rc = \<lparr>rc_file = ?h, rc_written = length ?h, rc_open = True\<rparr>" "identity_is_recordable project app"
    using assms(1) by (auto simp: Recorder_create_def Let_def split: if_splits)
  have g: "list_all good_exec_event (exec_stamped ps)" by (rule exec_stamped_good [OF assms(4,5)])
  show ?thesis
    using exec.recorded_session_file [OF g [unfolded exec_stamped_def] assms(6) [unfolded exec_stamped_def], of finder cap]
      exec.record_read_back [OF g _ rc(2) assms(2,3)] assms(6)
    unfolding rc(1) exec_session_all exec_stamped_def [symmetric] by simp
qed

theorem exec_record_roundtrip_witness:
  "(let ps = [(7, ''sh'', ''ls'', ''allow'', 5), (8, ''sh'', ''rm'', ''deny'', 6)];
      rc = \<lparr>rc_file = record_header ''/p'' None, rc_written = length (record_header ''/p'' None), rc_open = True\<rparr> in
    \<exists>rc'. recorded_session first_at ExecEvent_format_line
      (map (\<lambda>(pid, caller, command, verdict, now). (exec_made pid caller command verdict, now)) ps) 1 rc = (exec_session ps 1, Some rc') \<and>
    read_record_with ExecEvent_parse_line (rc_file rc') =
      Inr \<lparr>sr_project = ''/p'', sr_app = None, sr_truncated = False, sr_events = exec_stamped ps\<rparr>)"
proof -
  let ?ps = "[(7, ''sh'', ''ls'', ''allow'', 5), (8, ''sh'', ''rm'', ''deny'', 6)]"
  have "length (concat (map ExecEvent_format_line (exec_stamped ?ps))) = 99" by code_simp
  then show ?thesis unfolding Let_def
    by (intro exec_record_roundtrip)
      (simp_all add: Recorder_create_def identity_is_recordable_def LF_def CR_def RECORD_MAX_BYTES_def Let_def
        valid_utf8_ascii is_ascii_def record_header_def exec_verdicts_def)
qed

end
