(* ===== verification/Ws_Stream.thy ===== *)
theory Ws_Stream
  imports Ws_Frame "HOL-Library.Multiset"
begin

text \<open>
  What the frame tee makes of a whole stream: the leak scan reports exactly what occurs
  (\<open>scan_sees\<close>), a header is read back as a peer wrote it, and a tee fed a stream of whole frames,
  cut into any chunks, follows what the frames say (\<open>tracks\<close>).
\<close>

section \<open>The leak scan reports what occurs\<close>

definition occurs :: "string \<Rightarrow> string \<Rightarrow> bool" where
  "occurs p x \<longleftrightarrow> p \<noteq> [] \<and> sublist p x"

lemma occurs_Nil [simp]: "\<not> occurs p []"
  by (auto simp: occurs_def)

lemma occurs_append: "occurs p m \<Longrightarrow> occurs p (m @ piece)"
  by (auto simp: occurs_def intro: sublist_order.order_trans)

text \<open>A scan has seen the texts \<open>T\<close> and the message \<open>m\<close> so far: exactly the needles that occur in one of
  them are reported, each named once among the names drained and those still to drain.\<close>

definition scan_sees :: "leak_scan \<Rightarrow> string set \<Rightarrow> string \<Rightarrow> bool" where
  "scan_sees s T m \<longleftrightarrow>
     length (ls_reported s) = length (ls_needles s) \<and>
     (\<forall>n \<in> set (ls_needles s). length (sn_bytes n) \<le> Suc (ls_keep s)) \<and>
     (\<forall>i < length (ls_needles s). ls_reported s ! i \<longleftrightarrow> (\<exists>x \<in> insert m T. occurs (sn_bytes (ls_needles s ! i)) x)) \<and>
     (list_all id (ls_reported s) \<or> ls_carry s = drop (length m - ls_keep s) m)"

lemma fold_max_upper: "(\<forall>x \<in> set xs. x \<le> fold max xs (a :: nat)) \<and> a \<le> fold max xs a"
proof (induction xs arbitrary: a)
  case (Cons x xs)
  show ?case using Cons [of "max x a"] by auto
qed simp

lemma scan_sees_new: "LeakScan_new needles = Some s \<Longrightarrow> scan_sees s {} [] \<and> ls_needles s = needles"
proof -
  assume n: "LeakScan_new needles = Some s"
  let ?k = "fold max (map (\<lambda>n. length (sn_bytes n)) needles) 0"
  have "length (sn_bytes n) \<le> Suc (?k - 1)" if "n \<in> set needles" for n
  proof -
    have "length (sn_bytes n) \<le> ?k" using fold_max_upper [of "map (\<lambda>n. length (sn_bytes n)) needles" 0] that by simp
    then show ?thesis by simp
  qed
  then show ?thesis using n by (auto simp: LeakScan_new_def scan_sees_def split: if_splits)
qed

lemma foldl_set_True: "length (foldl (\<lambda>r i. r[i := True]) r hits) = length r \<and>
    (\<forall>i < length r. foldl (\<lambda>r i. r[i := True]) r hits ! i \<longleftrightarrow> r ! i \<or> i \<in> set hits)"
proof (induction hits arbitrary: r)
  case (Cons j hits)
  show ?case using Cons [of "r[j := True]"]
    by (cases "j < length r") (auto simp: nth_list_update list_update_beyond)
qed simp

lemma occurs_straddling:
  assumes "occurs p (m @ piece)" "length p \<le> Suc keep" "\<not> occurs p m"
  shows "occurs p (drop (length m - keep) m @ piece)"
proof -
  obtain i where i: "found_at p (m @ piece) i" and p: "p \<noteq> []"
    using assms(1) by (auto simp: occurs_def sublist_found_at)
  have "\<not> i + length p \<le> length m"
  proof
    assume "i + length p \<le> length m"
    then have "found_at p m i" using i by (auto simp: found_at_def)
    then show False using assms(3) p by (auto simp: occurs_def sublist_found_at)
  qed
  then have k: "length m - keep \<le> i" using assms(2) by simp
  have "drop (length m - keep) m @ piece = drop (length m - keep) (m @ piece)" by simp
  moreover have "found_at p (drop (length m - keep) (m @ piece)) (i - (length m - keep))"
    using i k found_at_drop [of "length m - keep" "m @ piece" p "i - (length m - keep)"] by simp
  ultimately show ?thesis using p by (auto simp: occurs_def sublist_found_at)
qed

context substring_finder begin

lemma find_in_occurs: "find_in finder n s 0 \<noteq> None \<longleftrightarrow> occurs (sn_bytes n) s"
  using find_in_Some [of n s 0] find_in_None [of n s 0]
  by (cases "find_in finder n s 0"; cases "sn_bytes n = []") (auto simp: sublist_found_at find_in_def occurs_def)

lemma scan_sees_take:
  assumes "scan_sees s T m"
  shows "scan_sees (LeakScan_take finder piece s) T (m @ piece)"
proof (cases "list_all id (ls_reported s)")
  case True
  then show ?thesis using assms occurs_append
    by (simp add: LeakScan_take_def scan_sees_def list_all_length) blast
next
  case False
  let ?c = "ls_carry s @ piece" and ?s = "LeakScan_take finder piece s"
  let ?hits = "filter (\<lambda>i. \<not> ls_reported s ! i \<and> find_in finder (ls_needles s ! i) ?c 0 \<noteq> None) [0..<length (ls_needles s)]"
  have len: "length (ls_reported s) = length (ls_needles s)" and carry: "ls_carry s = drop (length m - ls_keep s) m"
    using assms False by (simp_all add: scan_sees_def)
  have fields: "ls_needles ?s = ls_needles s" "ls_keep ?s = ls_keep s"
    "ls_reported ?s = foldl (\<lambda>r i. r[i := True]) (ls_reported s) ?hits"
    "ls_carry ?s = drop (length ?c - ls_keep s) ?c"
    using False by (simp_all add: LeakScan_take_def Let_def)
  have rep: "ls_reported ?s ! i \<longleftrightarrow> ls_reported s ! i \<or> occurs (sn_bytes (ls_needles s ! i)) ?c" if "i < length (ls_needles s)" for i
    using foldl_set_True [of "ls_reported s" ?hits] that len find_in_occurs unfolding fields(3) by auto
  have seen: "occurs (sn_bytes (ls_needles s ! i)) ?c \<or> ls_reported s ! i \<longleftrightarrow>
      (\<exists>x \<in> insert (m @ piece) T. occurs (sn_bytes (ls_needles s ! i)) x)" if i: "i < length (ls_needles s)" for i
  proof -
    let ?p = "sn_bytes (ls_needles s ! i)"
    have r: "ls_reported s ! i \<longleftrightarrow> (\<exists>x \<in> insert m T. occurs ?p x)" and k: "length ?p \<le> Suc (ls_keep s)"
      using assms i by (simp_all add: scan_sees_def)
    have "suffix ?c (m @ piece)" by (simp add: carry suffix_drop)
    then have "occurs ?p ?c \<Longrightarrow> occurs ?p (m @ piece)"
      unfolding occurs_def using suffix_imp_sublist sublist_order.order_trans by blast
    moreover have "occurs ?p (m @ piece) \<Longrightarrow> occurs ?p m \<or> occurs ?p ?c" using occurs_straddling [OF _ k] carry by auto
    ultimately show ?thesis using r occurs_append [of ?p m piece] by blast
  qed
  have "ls_carry ?s = drop (length (m @ piece) - ls_keep s) (m @ piece)"
    unfolding fields(4) carry by (cases "length m \<le> ls_keep s") (simp_all add: add.commute)
  moreover have "ls_reported ?s ! i \<longleftrightarrow> (\<exists>x \<in> insert (m @ piece) T. occurs (sn_bytes (ls_needles s ! i)) x)"
    if "i < length (ls_needles s)" for i
    using rep [OF that] seen [OF that] by blast
  moreover have "length (ls_reported ?s) = length (ls_needles s)" using foldl_set_True [of "ls_reported s" ?hits] len fields(3) by simp
  ultimately show ?thesis using assms unfolding scan_sees_def fields(1,2) by blast
qed

lemma scan_sees_standalone:
  assumes "scan_sees s T m"
  shows "scan_sees (LeakScan_take_standalone finder piece s) (insert piece T) m"
proof -
  have "scan_sees (s\<lparr>ls_carry := []\<rparr>) (insert m T) []" using assms by (auto simp: scan_sees_def)
  from scan_sees_take [OF this, of piece]
  have t: "scan_sees (LeakScan_take finder piece (s\<lparr>ls_carry := []\<rparr>)) (insert m T) piece" by simp
  have same: "ls_keep (LeakScan_take finder piece s') = ls_keep s'" for s' by (simp add: LeakScan_take_def Let_def)
  have mono: "list_all id (ls_reported s) \<Longrightarrow> list_all id (ls_reported (LeakScan_take finder piece (s\<lparr>ls_carry := []\<rparr>)))"
    by (simp add: LeakScan_take_def)
  show ?thesis using t assms mono unfolding scan_sees_def LeakScan_take_standalone_def Let_def
    by (auto simp: same insert_commute)
qed

end

lemma scan_sees_start: "scan_sees s T m \<Longrightarrow> scan_sees (LeakScan_start_message s) (insert m T) []"
  by (auto simp: scan_sees_def LeakScan_start_message_def)

section \<open>Frame headers\<close>

lemma xor_byte_less: "xor (byte b) (byte k) < 256"
proof -
  have "take_bit 8 (byte c) = byte c" for c using byte_less by (simp add: take_bit_eq_mod)
  then have "xor (byte b) (byte k) mod 256 = xor (byte b) (byte k)"
    using take_bit_xor [of 8 "byte b" "byte k"] by (simp add: take_bit_eq_mod)
  then show ?thesis using mod_less_divisor [of 256 "xor (byte b) (byte k)"] by simp
qed

lemma xor_byte_involution [simp]: "xor_byte (xor_byte b k) k = b"
  using xor_byte_less [of b k] by (simp add: xor_byte_def xor.assoc)

lemma be_bytes_snoc: "be_bytes (xs @ [x]) = be_bytes xs * 256 + byte x"
  by (simp add: be_bytes_def)

lemma header_done:
  assumes "scan_frame_header h = HeaderDone i"
  defines "opcode \<equiv> byte (h ! 0) mod 16"
  shows "(opcode \<le> 2 \<or> 8 \<le> opcode) \<and> hd_keeps i = (opcode \<le> 2) \<and> hd_control i = (8 \<le> opcode) \<and>
    (hd_starts_message i \<longrightarrow> opcode \<le> 2) \<and>
    (8 \<le> opcode \<longrightarrow> hd_payload_len i \<le> CONTROL_MAX \<and> hd_fin i)"
proof -
  define P where "P = (opcode \<in> {0, 1, 2, 8, 9, 10})"
  define K where "K = (opcode \<in> {0, 1, 2})"
  define C where "C = (opcode \<in> {8, 9, 10})"
  define S where "S = (opcode \<in> {1, 2})"
  define X where "X = (if byte (h ! 1) mod 128 = 126 then 2 else if byte (h ! 1) mod 128 = 127 then 8 else 0 :: nat)"
  define L where "L = (if X = 2 then be_bytes (take 2 (drop 2 h)) else if X = 8 then be_bytes (take 8 (drop 2 h)) else byte (h ! 1) mod 128)"
  have n: "(opcode \<notin> {0, 1, 2, 8, 9, 10}) = (\<not> P)" by (simp only: P_def)
  have "P \<Longrightarrow> (opcode \<le> 2 \<or> 8 \<le> opcode) \<and> K = (opcode \<le> 2) \<and> C = (8 \<le> opcode) \<and> (S \<longrightarrow> opcode \<le> 2)"
    unfolding P_def K_def C_def S_def by auto
  then show ?thesis
    using assms(1) unfolding scan_frame_header_def Let_def opcode_def [symmetric] n X_def [symmetric] L_def [symmetric]
      K_def [symmetric] C_def [symmetric] S_def [symmetric] P_def [symmetric]
    by (simp split: if_split_asm) (auto simp: not_less)
qed

lemma header_kinds:
  assumes "scan_frame_header h = HeaderDone i"
  shows "hd_control i \<longleftrightarrow> \<not> hd_keeps i" "hd_starts_message i \<longrightarrow> hd_keeps i"
    "hd_control i \<longrightarrow> hd_payload_len i \<le> CONTROL_MAX \<and> hd_fin i"
proof -
  note d = header_done [OF assms]
  show "hd_control i \<longleftrightarrow> \<not> hd_keeps i" using d by linarith
  show "hd_starts_message i \<longrightarrow> hd_keeps i" using d by blast
  show "hd_control i \<longrightarrow> hd_payload_len i \<le> CONTROL_MAX \<and> hd_fin i" using d by blast
qed

text \<open>A header as a peer writes it, the length in its shortest form.\<close>

fun to_be :: "nat \<Rightarrow> nat \<Rightarrow> string" where
  "to_be 0 v = []"
| "to_be (Suc n) v = to_be n (v div 256) @ [char_of (v mod 256)]"

definition encode_header :: "bool \<Rightarrow> bool \<Rightarrow> nat \<Rightarrow> string option \<Rightarrow> nat \<Rightarrow> string" where
  "encode_header fin rsv1 opcode key len =
     (let flag = (if key = None then 0 else 128) in
      [char_of ((if fin then 128 else 0) + (if rsv1 then 64 else 0) + opcode)] @
      (if len < 126 then [char_of (flag + len)]
       else if len \<le> 65535 then char_of (flag + 126 :: nat) # to_be 2 len
       else char_of (flag + 127 :: nat) # to_be 8 len) @
      (case key of None \<Rightarrow> [] | Some k \<Rightarrow> k))"

lemma length_to_be [simp]: "length (to_be n v) = n"
  by (induction n arbitrary: v) auto

lemma be_bytes_to_be: "be_bytes (to_be n v) = v mod 256 ^ n"
proof (induction n arbitrary: v)
  case (Suc n)
  have "v mod 256 ^ Suc n = (v div 256) mod 256 ^ n * 256 + v mod 256"
    using mod_mult2_eq [of v 256 "256 ^ n"] by (simp add: mult.commute)
  then show ?case using Suc by (simp add: be_bytes_snoc)
qed (simp add: be_bytes_def)

definition legal_opcode :: "nat \<Rightarrow> bool" where
  "legal_opcode opcode \<longleftrightarrow> opcode \<in> {0, 1, 2, 8, 9, 10}"

lemma header_unfold:
  assumes "byte (buf ! 0) = (if fin then 128 else 0) + (if rsv1 then 64 else 0) + opcode" "legal_opcode opcode"
    and "byte (buf ! 1) = (if m then 128 else 0) + len7" "len7 < 128" "2 \<le> length buf"
    and "ext = (if len7 = 126 then 2 else if len7 = 127 then 8 else 0)"
    and "len = (if ext = 2 then be_bytes (take 2 (drop 2 buf)) else if ext = 8 then be_bytes (take 8 (drop 2 buf)) else len7)"
  shows "scan_frame_header buf =
    (if length buf < 2 + ext + (if m then 4 else 0) then Need
     else if ext = 8 \<and> 2 ^ 63 \<le> len \<or> opcode \<in> {8, 9, 10} \<and> (CONTROL_MAX < len \<or> \<not> fin) then Bad
     else HeaderDone \<lparr>hd_payload_len = len, hd_keeps = opcode \<in> {0, 1, 2}, hd_control = opcode \<in> {8, 9, 10},
       hd_mask = (if m then Some (take 4 (drop (2 + ext) buf)) else None), hd_fin = fin, hd_rsv1 = rsv1,
       hd_starts_message = opcode \<in> {1, 2}\<rparr>)"
proof -
  have o: "byte (buf ! 0) mod 16 = opcode" "(byte (buf ! 0) div 64 mod 2 = 1) = rsv1" "(128 \<le> byte (buf ! 0)) = fin"
    "(byte (buf ! 0) < 128) = (\<not> fin)"
    using assms(1,2) by (auto simp: legal_opcode_def)
  have l: "byte (buf ! 1) mod 128 = len7" "(128 \<le> byte (buf ! 1)) = m" using assms(3,4) by auto
  have leg: "opcode \<in> {0, 1, 2, 8, 9, 10}" using assms(2) by (simp only: legal_opcode_def)
  show ?thesis
    unfolding scan_frame_header_def Let_def o l assms(6)[symmetric] assms(7)[symmetric]
    using leg assms(5) by (simp add: disj_commute cong: if_cong del: insert_iff)
qed

text \<open>The decoder reads back every header a peer writes: its length, mask, kind and flags; and it waits
  for the whole of it, however the header is cut.\<close>

theorem header_roundtrip:
  assumes "legal_opcode opcode" "len < 2 ^ 63" "\<forall>k. key = Some k \<longrightarrow> length k = 4"
    and "8 \<le> opcode \<longrightarrow> len \<le> CONTROL_MAX \<and> fin"
  shows "scan_frame_header (encode_header fin rsv1 opcode key len) = HeaderDone
      \<lparr>hd_payload_len = len, hd_keeps = opcode \<le> 2, hd_control = 8 \<le> opcode, hd_mask = key, hd_fin = fin,
       hd_rsv1 = rsv1, hd_starts_message = (opcode = 1 \<or> opcode = 2)\<rparr> \<and>
    (\<forall>j < length (encode_header fin rsv1 opcode key len).
       scan_frame_header (take j (encode_header fin rsv1 opcode key len)) = Need)"
proof -
  let ?h = "encode_header fin rsv1 opcode key len"
  define len7 where "len7 = (if len < 126 then len else if len \<le> 65535 then 126 else 127)"
  define ext where "ext = (if len7 = 126 then 2 else if len7 = 127 then 8 else 0 :: nat)"
  define E where "E = (if len < 126 then [] else if len \<le> 65535 then to_be 2 len else to_be 8 len)"
  define K where "K = (case key of None \<Rightarrow> [] | Some k \<Rightarrow> k)"
  define b0 where "b0 = char_of ((if fin then 128 else 0) + (if rsv1 then 64 else 0) + opcode :: nat)"
  define b1 where "b1 = char_of ((if key \<noteq> None then 128 else 0) + len7 :: nat)"
  have h: "?h = b0 # b1 # E @ K" by (simp add: encode_header_def b0_def b1_def len7_def E_def K_def)
  have op: "opcode < 16" "opcode \<in> {8, 9, 10} \<longleftrightarrow> 8 \<le> opcode" "opcode \<in> {0, 1, 2} \<longleftrightarrow> opcode \<le> 2"
    using assms(1) by (auto simp: legal_opcode_def)
  have by0: "byte b0 = (if fin then 128 else 0) + (if rsv1 then 64 else 0) + opcode" using op(1) by (simp add: b0_def)
  have l7: "len7 < 128" by (simp add: len7_def)
  have by1: "byte b1 = (if key \<noteq> None then 128 else 0) + len7" using l7 by (simp add: b1_def)
  have lens: "length E = ext" "length K = (if key \<noteq> None then 4 else 0)"
    using assms(3) by (auto simp: E_def ext_def len7_def K_def split: option.splits)
  have val: "len = (if ext = 2 then be_bytes E else if ext = 8 then be_bytes E else len7)"
    using assms(2) by (auto simp: E_def ext_def len7_def be_bytes_to_be)
  have whole: "scan_frame_header ?h = HeaderDone
      \<lparr>hd_payload_len = len, hd_keeps = opcode \<in> {0, 1, 2}, hd_control = opcode \<in> {8, 9, 10}, hd_mask = key, hd_fin = fin,
       hd_rsv1 = rsv1, hd_starts_message = opcode \<in> {1, 2}\<rparr>"
  proof -
    have b: "byte (?h ! 0) = (if fin then 128 else 0) + (if rsv1 then 64 else 0) + opcode"
      "byte (?h ! 1) = (if key \<noteq> None then 128 else 0) + len7" "2 \<le> length ?h" by (simp_all add: h by0 by1)
    have v: "len = (if ext = 2 then be_bytes (take 2 (drop 2 ?h)) else if ext = 8 then be_bytes (take 8 (drop 2 ?h)) else len7)"
      using val lens(1) unfolding h by simp
    have m: "(if key \<noteq> None then Some (take 4 (drop (2 + ext) ?h)) else None) = key"
      using lens assms(3) by (auto simp: h K_def split: option.splits)
    have bad: "\<not> (ext = 8 \<and> 2 ^ 63 \<le> len \<or> opcode \<in> {8, 9, 10} \<and> (CONTROL_MAX < len \<or> \<not> fin))"
      using assms(2,4) op(2) by auto
    have "\<not> length ?h < 2 + ext + (if key \<noteq> None then 4 else 0)" using lens by (simp add: h)
    then show ?thesis unfolding header_unfold [OF b(1) assms(1) b(2) l7 b(3) ext_def v] if_not_P [OF bad] m by (simp only: if_False)
  qed
  moreover have "scan_frame_header (take j ?h) = Need" if j: "j < length ?h" for j
  proof (cases "j < 2")
    case True
    then have "length (take j ?h) < 2" by simp
    then show ?thesis unfolding scan_frame_header_def by (simp only: if_True)
  next
    case False
    let ?t = "take j ?h"
    have b: "byte (?t ! 0) = (if fin then 128 else 0) + (if rsv1 then 64 else 0) + opcode"
      "byte (?t ! 1) = (if key \<noteq> None then 128 else 0) + len7" "2 \<le> length ?t" using False j by (simp_all add: h by0 by1)
    have "length ?t < 2 + ext + (if key \<noteq> None then 4 else 0)" using j lens by (simp add: h)
    then show ?thesis by (simp only: header_unfold [OF b(1) assms(1) b(2) l7 b(3) ext_def refl] if_True)
  qed
  moreover have "(opcode \<in> {1, 2}) = (opcode = 1 \<or> opcode = 2)" by auto
  ultimately show ?thesis unfolding op(2,3) by simp
qed

theorem header_roundtrip_witness:
  "scan_frame_header (encode_header True False 1 (Some ''abcd'') 300) = HeaderDone
     \<lparr>hd_payload_len = 300, hd_keeps = True, hd_control = False, hd_mask = Some ''abcd'', hd_fin = True,
      hd_rsv1 = False, hd_starts_message = True\<rparr> \<and>
   scan_frame_header (take 7 (encode_header True False 1 (Some ''abcd'') 300)) = Need"
proof -
  have "length (encode_header True False 1 (Some ''abcd'') 300) = 8" by code_simp
  then show ?thesis using header_roundtrip [of 1 300 "Some ''abcd''" True False] by (simp add: legal_opcode_def)
qed

section \<open>The stream a direction carries\<close>

record ws_frame =
  wf_header :: string
  wf_info :: header_info
  wf_payload :: string

definition frame_ok :: "ws_frame \<Rightarrow> bool" where
  "frame_ok f \<longleftrightarrow>
     scan_frame_header (wf_header f) = HeaderDone (wf_info f) \<and>
     list_all (\<lambda>j. scan_frame_header (take j (wf_header f)) = Need) [0..<length (wf_header f)] \<and>
     length (wf_payload f) = hd_payload_len (wf_info f)"

text \<open>A peer masks with the key of the frame; an uncompressed message clears \<open>RSV1\<close> where it starts.\<close>

definition wire :: "ws_frame \<Rightarrow> string" where
  "wire f = wf_header f @ unmask (hd_mask (wf_info f)) 0 (wf_payload f)"

definition uncompressed :: "ws_frame \<Rightarrow> bool" where
  "uncompressed f \<longleftrightarrow> (hd_starts_message (wf_info f) \<longrightarrow> \<not> hd_rsv1 (wf_info f))"

text \<open>What a stream of frames says: the texts that ended or stand alone, the message in flight, and all the
  data in order.\<close>

type_synonym said = "string set \<times> string \<times> string"

definition opens :: "header_info \<Rightarrow> said \<Rightarrow> said" where
  "opens i s = (case s of (T, m, data) \<Rightarrow>
     if hd_keeps i \<and> hd_starts_message i then (insert m T, [], data) else (T, m, data))"

definition carries :: "header_info \<Rightarrow> string \<Rightarrow> said \<Rightarrow> said" where
  "carries i payload s = (case s of (T, m, data) \<Rightarrow>
     if hd_control i then (insert payload T, m, data)
     else (T, m @ payload, data @ payload))"

definition says :: "ws_frame \<Rightarrow> said \<Rightarrow> said" where
  "says f s = carries (wf_info f) (wf_payload f) (opens (wf_info f) s)"

lemma unmask_append: "unmask km p (a @ b) = unmask km p a @ unmask km (p + length a) b"
  by (cases km) (auto simp: unmask_def list_eq_iff_nth_eq nth_enumerate_eq nth_append add.assoc)

lemma take_unmask: "take n (unmask km p s) = unmask km p (take n s)"
  by (cases km) (auto simp: unmask_def list_eq_iff_nth_eq nth_enumerate_eq)

lemma unmask_mod: "unmask km (p mod 4) s = unmask km p s"
  by (cases km) (simp_all add: unmask_def mod_add_left_eq)

lemma length_unmask [simp]: "length (unmask km p s) = length s"
  by (cases km) (simp_all add: unmask_def)

lemma unmask_Nil_iff [simp]: "unmask km p s = [] \<longleftrightarrow> s = []"
  using length_unmask [of km p s] by (metis length_0_conv)

lemma unmask_involution [simp]: "unmask km p (unmask km p s) = s"
  by (cases km) (simp_all add: unmask_def list_eq_iff_nth_eq nth_enumerate_eq)

section \<open>The tee follows the stream\<close>

text \<open>The tee keeps up with what was said: nothing stopped it, its scan has seen what was said, and its sink
  holds the data up to its cap, marked cut exactly when there was more.\<close>

definition sink_holds :: "cap_buf option \<Rightarrow> bool \<Rightarrow> string \<Rightarrow> bool" where
  "sink_holds sink full data =
     (case sink of None \<Rightarrow> True
      | Some b \<Rightarrow> cb_bytes b = take (cb_cap b) data \<and>
          (cb_cap b \<noteq> 0 \<longrightarrow> cb_truncated b = (cb_cap b < length data) \<and> full = (cb_cap b < length data)))"

definition keeps_up :: "'d frame_tee \<Rightarrow> said \<Rightarrow> bool" where
  "keeps_up t s = (case s of (T, m, data) \<Rightarrow>
     \<not> ft_done t \<and> \<not> ft_compressed t \<and> (\<exists>sc. ft_scan t = Some sc \<and> scan_sees sc T m) \<and>
     sink_holds (ft_sink t) (ft_sink_full t) data)"

lemma sink_push:
  assumes "sink_holds (Some b) False data" "CapBuf_push piece b = (filled, b')"
  shows "sink_holds (Some b') filled (data @ piece)"
proof (cases "cb_cap b = 0")
  case True
  then show ?thesis using assms by (auto simp: sink_holds_def CapBuf_push_def)
next
  case False
  then have b: "cb_bytes b = data" "length data \<le> cb_cap b" "\<not> cb_truncated b"
    using assms(1) by (auto simp: sink_holds_def)
  show ?thesis
  proof (cases "length data = cb_cap b")
    case True
    then show ?thesis using assms(2) b False by (auto simp: CapBuf_push_def sink_holds_def)
  next
    case less: False
    then show ?thesis using assms(2) b False
      by (auto simp: CapBuf_push_def sink_holds_def Let_def min_def split: if_splits)
  qed
qed

lemma tee_capture_fields:
  "tee_capture piece t = (filled, t') \<Longrightarrow>
    \<exists>sink full. t' = t\<lparr>ft_sink := sink, ft_sink_full := full\<rparr>"
  by (auto simp: tee_capture_def split: if_splits option.splits prod.splits bool.splits) (metis frame_tee.surjective frame_tee.update_convs(1,2))+

lemma tee_capture_holds:
  assumes "sink_holds (ft_sink t) (ft_sink_full t) data" "tee_capture piece t = (filled, t')"
  shows "sink_holds (ft_sink t') (ft_sink_full t') (data @ piece)"
proof (cases "ft_sink t")
  case None
  then show ?thesis using assms by (auto simp: tee_capture_def sink_holds_def split: if_splits)
next
  case (Some b)
  show ?thesis
  proof (cases "ft_sink_full t")
    case True
    then show ?thesis using assms Some by (auto simp: tee_capture_def sink_holds_def)
  next
    case False
    then show ?thesis using assms Some sink_push [of b data piece]
      by (cases "CapBuf_push piece b"; cases "fst (CapBuf_push piece b)") (auto simp: tee_capture_def)
  qed
qed

definition stream :: "ws_frame list \<Rightarrow> string" where
  "stream fs = concat (map wire fs)"

definition frames_ok :: "ws_frame list \<Rightarrow> bool" where
  "frames_ok fs \<longleftrightarrow> list_all (\<lambda>f. frame_ok f \<and> uncompressed f) fs"

definition at_header :: "'d frame_tee \<Rightarrow> ws_frame list \<Rightarrow> string \<Rightarrow> said \<Rightarrow> bool" where
  "at_header t fs S s \<longleftrightarrow>
     ft_payload_left t = 0 \<and> keeps_up t s \<and> frames_ok fs \<and> ft_header t @ S = stream fs \<and>
     (case fs of [] \<Rightarrow> True | f # _ \<Rightarrow> length (ft_header t) < length (wf_header f))"

definition in_payload :: "'d frame_tee \<Rightarrow> ws_frame \<Rightarrow> string \<Rightarrow> ws_frame list \<Rightarrow> string \<Rightarrow> said \<Rightarrow> bool" where
  "in_payload t f p fs S s \<longleftrightarrow>
     (let i = wf_info f; rest = drop (length p) (wf_payload f) in
      frames_ok (f # fs) \<and> ft_header t = [] \<and> prefix p (wf_payload f) \<and> rest \<noteq> [] \<and> ft_payload_left t = length rest \<and>
      ft_mask t = hd_mask i \<and> ft_mask_at t = length p mod 4 \<and> ft_keeps t = hd_keeps i \<and> ft_control t = hd_control i \<and>
      (hd_control i \<longrightarrow> ft_control_payload t = p) \<and>
      keeps_up t (if hd_control i then opens i s else carries i p (opens i s)) \<and>
      S = unmask (hd_mask i) (length p) rest @ stream fs)"

definition tracks :: "'d frame_tee \<Rightarrow> string \<Rightarrow> said \<Rightarrow> bool" where
  "tracks t S G \<longleftrightarrow>
     (\<exists>fs s. at_header t fs S s \<and> G = foldl (\<lambda>s f. says f s) s fs) \<or>
     (\<exists>f p fs s. in_payload t f p fs S s \<and> G = foldl (\<lambda>s f. says f s) (says f s) fs)"

lemma header_nonempty: "frame_ok f \<Longrightarrow> wf_header f \<noteq> []"
  by (auto simp: frame_ok_def scan_frame_header_def)

lemma tracks_end: "tracks t [] G \<Longrightarrow> keeps_up t G"
proof -
  assume "tracks t [] G"
  then consider fs s where "at_header t fs [] s" "G = foldl (\<lambda>s f. says f s) s fs" | f p fs s where "in_payload t f p fs [] s"
    unfolding tracks_def by blast
  then show ?thesis
  proof cases
    case 1
    have "fs = []"
    proof (rule ccontr)
      assume "fs \<noteq> []"
      then obtain f fs' where fs: "fs = f # fs'" by (cases fs) auto
      have "length (ft_header t) = length (stream fs)" using 1(1) by (simp add: at_header_def)
      then show False using 1(1) by (simp add: at_header_def fs stream_def wire_def)
    qed
    then show ?thesis using 1 by (simp add: at_header_def)
  next
    case 2
    then show ?thesis by (auto simp: in_payload_def Let_def)
  qed
qed

lemma tee_header_opens:
  assumes "keeps_up t s" "hd_starts_message i \<longrightarrow> \<not> hd_rsv1 i"
  shows "keeps_up (tee_header i t) (opens i s)" "ft_payload_left (tee_header i t) = hd_payload_len i"
    "ft_keeps (tee_header i t) = hd_keeps i" "ft_control (tee_header i t) = hd_control i"
    "ft_control_payload (tee_header i t) = []" "ft_mask (tee_header i t) = hd_mask i"
    "ft_mask_at (tee_header i t) = 0" "ft_header (tee_header i t) = []"
proof -
  obtain T m data where s: "s = (T, m, data)" by (cases s)
  have k: "\<not> ft_done t" "\<not> ft_compressed t" using assms(1) by (simp_all add: keeps_up_def s)
  show "keeps_up (tee_header i t) (opens i s)"
    using assms k by (auto simp: keeps_up_def opens_def s tee_header_def Let_def intro: scan_sees_start)
  show "ft_payload_left (tee_header i t) = hd_payload_len i"
    "ft_keeps (tee_header i t) = hd_keeps i" "ft_control (tee_header i t) = hd_control i"
    "ft_control_payload (tee_header i t) = []" "ft_mask (tee_header i t) = hd_mask i"
    "ft_mask_at (tee_header i t) = 0" "ft_header (tee_header i t) = []"
    using assms(2) k by (simp_all add: tee_header_def Let_def)
qed

context substring_finder begin

lemma consume_keeps_up:
  assumes "keeps_up t (T, m, data)" "tee_consume finder piece t = (filled, t')"
  shows "keeps_up t' (T, m @ piece, data @ piece)" "\<exists>scan sink full. t' = t\<lparr>ft_scan := scan, ft_sink := sink, ft_sink_full := full\<rparr>"
proof -
  let ?t = "t\<lparr>ft_scan := map_option (LeakScan_take finder piece) (ft_scan t)\<rparr>"
  have c: "tee_capture piece ?t = (filled, t')" using assms(2) by (simp add: tee_consume_def)
  obtain sink full where t': "t' = ?t\<lparr>ft_sink := sink, ft_sink_full := full\<rparr>" using tee_capture_fields [OF c] by blast
  then show "\<exists>scan sink full. t' = t\<lparr>ft_scan := scan, ft_sink := sink, ft_sink_full := full\<rparr>" by blast
  have "sink_holds (ft_sink t') (ft_sink_full t') (data @ piece)"
    using assms(1) by (intro tee_capture_holds [OF _ c]) (simp add: keeps_up_def)
  then show "keeps_up t' (T, m @ piece, data @ piece)" using assms(1) scan_sees_take t' by (auto simp: keeps_up_def)
qed

lemma end_of_frame_says:
  assumes "keeps_up t (if ft_control t then s else carries i payload s)" "ft_control t = hd_control i"
    and "ft_control t \<longrightarrow> ft_control_payload t = payload" "end_of_frame finder dec fresh_dec t = (filled, t')"
  shows "keeps_up t' (carries i payload s)" "ft_payload_left t' = ft_payload_left t" "ft_header t' = ft_header t"
proof -
  obtain T m data where s: "s = (T, m, data)" by (cases s)
  have nc: "\<not> ft_compressed t" using assms(1) by (auto simp: keeps_up_def split: prod.splits)
  have t': "t' = (if ft_control t then t\<lparr>ft_control_payload := [],
      ft_scan := map_option (LeakScan_take_standalone finder (ft_control_payload t)) (ft_scan t)\<rparr> else t)"
    using assms(4) nc by (auto simp: end_of_frame_def split: if_splits)
  show "ft_payload_left t' = ft_payload_left t" "ft_header t' = ft_header t" by (simp_all add: t')
  show "keeps_up t' (carries i payload s)"
    using assms(1-3) scan_sees_standalone by (auto simp: t' keeps_up_def carries_def s)
qed

end

text \<open>One header byte.\<close>

lemma header_step_needs:
  assumes "at_header t (f # fs) (b # S) s" "Suc (length (ft_header t)) < length (wf_header f)"
  shows "scan_frame_header (ft_header t @ [b]) = Need" "at_header (t\<lparr>ft_header := ft_header t @ [b]\<rparr>) (f # fs) S s"
proof -
  have st: "ft_header t @ b # S = wf_header f @ unmask (hd_mask (wf_info f)) 0 (wf_payload f) @ stream fs"
    using assms(1) by (simp add: at_header_def stream_def wire_def)
  have "ft_header t @ [b] = take (Suc (length (ft_header t))) (wf_header f)"
    using assms(2) arg_cong [OF st, of "take (Suc (length (ft_header t)))"] by simp
  then show "scan_frame_header (ft_header t @ [b]) = Need"
    using assms by (auto simp: at_header_def frames_ok_def frame_ok_def list_all_iff)
  show "at_header (t\<lparr>ft_header := ft_header t @ [b]\<rparr>) (f # fs) S s"
    using assms by (simp add: at_header_def keeps_up_def)
qed

lemma header_step_done:
  assumes "at_header t (f # fs) (b # S) s" "\<not> Suc (length (ft_header t)) < length (wf_header f)"
  shows "ft_header t @ [b] = wf_header f" "S = unmask (hd_mask (wf_info f)) 0 (wf_payload f) @ stream fs"
    "scan_frame_header (ft_header t @ [b]) = HeaderDone (wf_info f)"
proof -
  have st: "(ft_header t @ [b]) @ S = wf_header f @ unmask (hd_mask (wf_info f)) 0 (wf_payload f) @ stream fs"
    using assms(1) by (simp add: at_header_def stream_def wire_def)
  have "length (ft_header t @ [b]) = length (wf_header f)" using assms by (simp add: at_header_def)
  then have "ft_header t @ [b] = wf_header f \<and> S = unmask (hd_mask (wf_info f)) 0 (wf_payload f) @ stream fs"
    using st append_eq_append_conv by blast
  then show h: "ft_header t @ [b] = wf_header f" "S = unmask (hd_mask (wf_info f)) 0 (wf_payload f) @ stream fs" by simp_all
  show "scan_frame_header (ft_header t @ [b]) = HeaderDone (wf_info f)"
    using assms(1) by (simp add: h(1) at_header_def frames_ok_def frame_ok_def)
qed

lemma keeps_up_header [simp]: "keeps_up (t\<lparr>ft_header := h\<rparr>) s = keeps_up t s"
  by (simp add: keeps_up_def)

lemma keeps_up_place [simp]: "keeps_up (t\<lparr>ft_mask_at := k, ft_payload_left := n\<rparr>) s = keeps_up t s"
  by (simp add: keeps_up_def)

lemma keeps_up_control [simp]: "keeps_up (t\<lparr>ft_control_payload := q\<rparr>) s = keeps_up t s"
  by (simp add: keeps_up_def)

lemma keeps_up_not_done: "keeps_up t s \<Longrightarrow> \<not> ft_done t"
  by (simp add: keeps_up_def split: prod.splits)

lemma carries_Nil: "\<not> hd_control i \<Longrightarrow> carries i [] s = s"
  by (cases s) (simp add: carries_def)

lemma header_complete:
  assumes "frames_ok (f # fs)" "keeps_up t s" "S = unmask (hd_mask (wf_info f)) 0 (wf_payload f) @ stream fs"
    and "wf_payload f \<noteq> []"
  shows "in_payload (tee_header (wf_info f) t) f [] fs S s"
proof -
  have ok: "frame_ok f" "hd_starts_message (wf_info f) \<longrightarrow> \<not> hd_rsv1 (wf_info f)"
    using assms(1) by (simp_all add: frames_ok_def uncompressed_def)
  note o = tee_header_opens [OF assms(2) ok(2)]
  have "length (wf_payload f) = hd_payload_len (wf_info f)" using ok(1) by (simp add: frame_ok_def)
  then show ?thesis using assms o carries_Nil unfolding in_payload_def Let_def by simp
qed

context substring_finder begin

lemma frame_ends:
  assumes "frames_ok (f # fs)" "ft_payload_left t = 0" "ft_header t = []" "ft_control t = hd_control (wf_info f)"
    and "hd_control (wf_info f) \<longrightarrow> ft_control_payload t = wf_payload f"
    and "keeps_up t (if hd_control (wf_info f) then opens (wf_info f) s else carries (wf_info f) (wf_payload f) (opens (wf_info f) s))"
    and "end_of_frame finder dec fresh_dec t = (filled, t')"
  shows "at_header t' fs (stream fs) (says f s)"
proof -
  have k: "keeps_up t' (carries (wf_info f) (wf_payload f) (opens (wf_info f) s))"
    "ft_payload_left t' = ft_payload_left t" "ft_header t' = ft_header t"
    using end_of_frame_says [of t "opens (wf_info f) s" "wf_info f" "wf_payload f" dec fresh_dec filled t'] assms(4-7) by simp_all
  have "length (ft_header t') < length (wf_header g)" if "fs = g # gs" for g gs
    using assms(1,3) k(3) header_nonempty [of g] that by (simp add: frames_ok_def)
  then show ?thesis using k assms(1-3) by (simp add: at_header_def says_def frames_ok_def split: list.split)
qed

lemma payload_piece:
  assumes "in_payload t f p fs S s" "n \<le> ft_payload_left t"
  shows "unmask (ft_mask t) (ft_mask_at t) (take n S) = take n (drop (length p) (wf_payload f))"
    "n \<le> length (drop (length p) (wf_payload f))"
proof -
  note d = assms(1) [unfolded in_payload_def Let_def]
  show n: "n \<le> length (drop (length p) (wf_payload f))" using d assms(2) by simp
  have "take n S = unmask (hd_mask (wf_info f)) (length p) (take n (drop (length p) (wf_payload f)))"
    using n d by (simp add: take_unmask del: length_drop)
  moreover have "ft_mask t = hd_mask (wf_info f)" "ft_mask_at t = length p mod 4" using d by blast+
  ultimately show "unmask (ft_mask t) (ft_mask_at t) (take n S) = take n (drop (length p) (wf_payload f))"
    by (simp add: unmask_mod)
qed

lemma control_step:
  assumes "in_payload t f p fs S s" "n \<le> ft_payload_left t" "hd_control (wf_info f)"
  shows "tee_payload finder dec fresh_dec (take n S) t =
    Inr (False, t\<lparr>ft_control_payload := p @ take n (drop (length p) (wf_payload f))\<rparr>)"
proof -
  note d = assms(1) [unfolded in_payload_def Let_def]
  note piece = payload_piece [OF assms(1,2)]
  have ok: "frame_ok f" using d by (simp add: frames_ok_def)
  have "length (wf_payload f) \<le> CONTROL_MAX"
    using header_kinds [of "wf_header f" "wf_info f"] ok assms(3) by (simp add: frame_ok_def)
  then have fits: "length (take n (drop (length p) (wf_payload f))) \<le> CONTROL_MAX - length p" using piece(2) by simp
  have c: "ft_control t" "ft_control_payload t = p" "ft_scan t \<noteq> None"
    using d assms(3) by (auto simp: keeps_up_def split: prod.splits)
  have full: "take (min (length (take n (drop (length p) (wf_payload f)))) (CONTROL_MAX - length p)) (take n (drop (length p) (wf_payload f))) =
      take n (drop (length p) (wf_payload f))" unfolding min_absorb1 [OF fits] by (rule take_all) simp
  show ?thesis unfolding tee_payload_def Let_def piece(1) c(2) full using c(1,3) by simp
qed

lemma data_step:
  assumes "in_payload t f p fs S s" "n \<le> ft_payload_left t" "\<not> hd_control (wf_info f)"
  defines "q \<equiv> p @ take n (drop (length p) (wf_payload f))"
  obtains filled scan sink full where
    "tee_payload finder dec fresh_dec (take n S) t = Inr (filled, t\<lparr>ft_scan := scan, ft_sink := sink, ft_sink_full := full\<rparr>)"
    "keeps_up (t\<lparr>ft_scan := scan, ft_sink := sink, ft_sink_full := full\<rparr>) (carries (wf_info f) q (opens (wf_info f) s))"
proof -
  let ?i = "wf_info f" and ?new = "take n (drop (length p) (wf_payload f))"
  note d = assms(1) [unfolded in_payload_def Let_def]
  note piece = payload_piece [OF assms(1,2)]
  have kinds: "hd_keeps ?i"
    using header_kinds [of "wf_header f" ?i] d assms(3) by (simp add: frames_ok_def frame_ok_def)
  obtain T m data where s: "opens ?i s = (T, m, data)" by (cases "opens ?i s")
  have ku: "keeps_up t (T, m @ p, data @ p)" using d assms(3) by (simp add: carries_def s)
  obtain filled t' where c: "tee_consume finder ?new t = (filled, t')" by (cases "tee_consume finder ?new t")
  note ck = consume_keeps_up [OF ku c]
  obtain scan sink full where t': "t' = t\<lparr>ft_scan := scan, ft_sink := sink, ft_sink_full := full\<rparr>" using ck(2) by blast
  have ns: "\<not> spent t'" using ck(1) by (auto simp: spent_def keeps_up_def)
  have nc: "\<not> ft_compressed t" using ku by (simp add: keeps_up_def)
  have k: "ft_keeps t" "\<not> ft_control t" using d kinds assms(3) by simp_all
  have "tee_payload finder dec fresh_dec (take n S) t = Inr (filled, t')"
    unfolding tee_payload_def Let_def piece(1) using k nc ns c by simp
  moreover have "keeps_up t' (carries ?i q (opens ?i s))"
    using ck(1) assms(3) by (simp add: carries_def s q_def)
  ultimately show thesis using that t' by blast
qed

end

section \<open>The loop follows the stream\<close>


lemma unmask_Nil: "unmask km p [] = []"
  by simp

context substring_finder begin

lemma payload_moves:
  assumes "in_payload t f p fs S s" "n \<le> ft_payload_left t"
  defines "q \<equiv> p @ take n (drop (length p) (wf_payload f))"
  assumes u: "ft_header u = []" "ft_payload_left u = ft_payload_left t - n" "ft_mask u = ft_mask t"
      "ft_mask_at u = (ft_mask_at t + n) mod 4" "ft_keeps u = ft_keeps t" "ft_control u = ft_control t"
    and c: "hd_control (wf_info f) \<longrightarrow> ft_control_payload u = q"
    and k: "keeps_up u (if hd_control (wf_info f) then opens (wf_info f) s else carries (wf_info f) q (opens (wf_info f) s))"
  shows "n < ft_payload_left t \<Longrightarrow> in_payload u f q fs (drop n S) s"
    "n = ft_payload_left t \<Longrightarrow> end_of_frame finder dec fresh_dec u = (filled, u') \<Longrightarrow> at_header u' fs (drop n S) (says f s)"
proof -
  note d = assms(1) [unfolded in_payload_def Let_def]
  let ?r = "drop (length p) (wf_payload f)"
  have pf: "wf_payload f = p @ ?r" using d by (auto elim: prefixE)
  have left: "ft_payload_left t = length ?r" using d by blast
  have n: "n \<le> length ?r" using assms(2) left by simp
  have lq: "length q = length p + n" using n by (simp add: q_def)
  have pq: "wf_payload f = q @ drop n ?r" 
    unfolding q_def append_assoc append_take_drop_id by (rule pf)
  have S: "S = unmask (hd_mask (wf_info f)) (length p) ?r @ stream fs" using d by blast
  have "unmask (hd_mask (wf_info f)) (length p) ?r =
      unmask (hd_mask (wf_info f)) (length p) (take n ?r) @ unmask (hd_mask (wf_info f)) (length q) (drop n ?r)"
    using unmask_append [of "hd_mask (wf_info f)" "length p" "take n ?r" "drop n ?r"]
    unfolding append_take_drop_id lq length_take min_absorb2 [OF n] .
  then have dS: "drop n S = unmask (hd_mask (wf_info f)) (length q) (drop n ?r) @ stream fs"
    using n unfolding S by simp
  have dq: "drop n ?r = drop (length q) (wf_payload f)" by (simp add: lq add.commute)
  show "in_payload u f q fs (drop n S) s" if "n < ft_payload_left t"
  proof -
    have "prefix q (wf_payload f)" using pq by (metis prefixI)
    moreover have "drop (length q) (wf_payload f) \<noteq> []" using that left unfolding dq [symmetric] by simp
    moreover have "ft_payload_left u = length (drop (length q) (wf_payload f))"
      unfolding u(2) left dq [symmetric] by simp
    moreover have "ft_mask_at u = length q mod 4" using d by (simp add: u(4) lq mod_add_left_eq)
    ultimately show ?thesis unfolding in_payload_def Let_def using d u(1) c k dS dq
      by (simp only: u(3,5,6) simp_thms)
  qed
  show "at_header u' fs (drop n S) (says f s)"
    if "n = ft_payload_left t" and e: "end_of_frame finder dec fresh_dec u = (filled, u')"
  proof -
    have "drop n ?r = []" using that(1) left by simp
    then have q: "q = wf_payload f" and S': "drop n S = stream fs" using pq dS by simp_all
    have fo: "frames_ok (f # fs)" "ft_control u = hd_control (wf_info f)" using d u(6) by auto
    have "ft_payload_left u = 0" using u(2) that(1) by simp
    from frame_ends [OF fo(1) this u(1) fo(2) c [unfolded q] k [unfolded q] e] show ?thesis unfolding S' .
  qed
qed


lemma payload_step_control:
  assumes "in_payload t f p fs S s" "n \<le> ft_payload_left t" "hd_control (wf_info f)"
  defines "q \<equiv> p @ take n (drop (length p) (wf_payload f))"
  defines "t' \<equiv> t\<lparr>ft_control_payload := q\<rparr>"
  shows "tee_payload finder dec fresh_dec (take n S) t = Inr (False, t')"
  and
    "keeps_up t' (if hd_control (wf_info f) then opens (wf_info f) s else carries (wf_info f) q (opens (wf_info f) s))"
    and "ft_header t' = []" "ft_payload_left t' = ft_payload_left t" "ft_mask t' = ft_mask t" "ft_mask_at t' = ft_mask_at t"
    "ft_keeps t' = ft_keeps t" "ft_control t' = ft_control t" "hd_control (wf_info f) \<longrightarrow> ft_control_payload t' = q"
proof -
  note d = assms(1) [unfolded in_payload_def Let_def]
  have k: "keeps_up t (opens (wf_info f) s)" and h: "ft_header t = []" using d assms(3) by simp_all
  show "tee_payload finder dec fresh_dec (take n S) t = Inr (False, t')"
    unfolding t'_def q_def by (rule control_step [OF assms(1-3)])
  show "keeps_up t' (if hd_control (wf_info f) then opens (wf_info f) s else carries (wf_info f) q (opens (wf_info f) s))"
    unfolding t'_def using k assms(3) by simp
  show "ft_header t' = []" "ft_payload_left t' = ft_payload_left t" "ft_mask t' = ft_mask t" "ft_mask_at t' = ft_mask_at t"
    "ft_keeps t' = ft_keeps t" "ft_control t' = ft_control t" "hd_control (wf_info f) \<longrightarrow> ft_control_payload t' = q"
    unfolding t'_def using h by simp_all
qed


lemma payload_step_data:
  assumes "in_payload t f p fs S s" "n \<le> ft_payload_left t" "\<not> hd_control (wf_info f)"
  defines "q \<equiv> p @ take n (drop (length p) (wf_payload f))"
  shows "\<exists>filled t'. tee_payload finder dec fresh_dec (take n S) t = Inr (filled, t') \<and>
    keeps_up t' (if hd_control (wf_info f) then opens (wf_info f) s else carries (wf_info f) q (opens (wf_info f) s)) \<and>
    ft_header t' = [] \<and> ft_payload_left t' = ft_payload_left t \<and> ft_mask t' = ft_mask t \<and> ft_mask_at t' = ft_mask_at t \<and>
    ft_keeps t' = ft_keeps t \<and> ft_control t' = ft_control t \<and> (hd_control (wf_info f) \<longrightarrow> ft_control_payload t' = q)"
proof -
  note d = assms(1) [unfolded in_payload_def Let_def]
  have h: "ft_header t = []" using d by blast
  show ?thesis
  proof (rule data_step [OF assms(1-3), of dec fresh_dec, folded q_def])
    fix filled scan sink full
    let ?t = "t\<lparr>ft_scan := scan, ft_sink := sink, ft_sink_full := full\<rparr>"
    assume c: "tee_payload finder dec fresh_dec (take n S) t = Inr (filled, ?t)"
      and k: "keeps_up ?t (carries (wf_info f) q (opens (wf_info f) s))"
    show ?thesis
      by (rule exI [of _ filled], rule exI [of _ ?t], intro conjI, rule c)
        (use k h assms(3) in simp_all)
  qed
qed


lemma payload_step:
  assumes "in_payload t f p fs S s" "n \<le> ft_payload_left t"
  defines "q \<equiv> p @ take n (drop (length p) (wf_payload f))"
  shows "\<exists>filled t'. tee_payload finder dec fresh_dec (take n S) t = Inr (filled, t') \<and>
    keeps_up t' (if hd_control (wf_info f) then opens (wf_info f) s else carries (wf_info f) q (opens (wf_info f) s)) \<and>
    ft_header t' = [] \<and> ft_payload_left t' = ft_payload_left t \<and> ft_mask t' = ft_mask t \<and> ft_mask_at t' = ft_mask_at t \<and>
    ft_keeps t' = ft_keeps t \<and> ft_control t' = ft_control t \<and> (hd_control (wf_info f) \<longrightarrow> ft_control_payload t' = q)"
proof (cases "hd_control (wf_info f)")
  case True
  note c = payload_step_control [OF assms(1,2) True, folded q_def]
  show ?thesis
    by (rule exI [of _ False], rule exI [of _ "t\<lparr>ft_control_payload := q\<rparr>"], intro conjI) (fact c)+
next
  case False
  show ?thesis unfolding q_def by (rule payload_step_data [OF assms(1,2) False])
qed

lemma payload_tracks:
  assumes "in_payload t f p fs (chunk @ S) s" "chunk \<noteq> []" "G = foldl (\<lambda>s f. says f s) (says f s) fs"
  defines "n \<equiv> min (ft_payload_left t) (length chunk)"
  shows "\<exists>filled t'. tee_payload finder dec fresh_dec (take n chunk) t = Inr (filled, t') \<and>
    (let u = t'\<lparr>ft_mask_at := (ft_mask_at t' + n) mod 4, ft_payload_left := ft_payload_left t' - n\<rparr>;
         u' = (if ft_payload_left u = 0 then snd (end_of_frame finder dec fresh_dec u) else u)
     in \<not> ft_done u' \<and> tracks u' (drop n chunk @ S) G)"
proof -
  have n: "n \<le> ft_payload_left t" "n \<le> length chunk" by (simp_all add: n_def)
  have tk: "take n (chunk @ S) = take n chunk" and dr: "drop n (chunk @ S) = drop n chunk @ S" using n(2) by simp_all
  let ?q = "p @ take n (drop (length p) (wf_payload f))"
  from payload_step [OF assms(1) n(1), of dec fresh_dec] obtain filled t' where
    p: "tee_payload finder dec fresh_dec (take n chunk) t = Inr (filled, t')"
    and k: "keeps_up t' (if hd_control (wf_info f) then opens (wf_info f) s else carries (wf_info f) ?q (opens (wf_info f) s))"
    and e: "ft_header t' = []" "ft_payload_left t' = ft_payload_left t" "ft_mask t' = ft_mask t" "ft_mask_at t' = ft_mask_at t"
      "ft_keeps t' = ft_keeps t" "ft_control t' = ft_control t" and cp: "hd_control (wf_info f) \<longrightarrow> ft_control_payload t' = ?q"
    unfolding tk by blast
  define u where "u = t'\<lparr>ft_mask_at := (ft_mask_at t' + n) mod 4, ft_payload_left := ft_payload_left t' - n\<rparr>"
  have u: "ft_header u = []" "ft_payload_left u = ft_payload_left t - n" "ft_mask u = ft_mask t"
    "ft_mask_at u = (ft_mask_at t + n) mod 4" "ft_keeps u = ft_keeps t" "ft_control u = ft_control t"
    "hd_control (wf_info f) \<longrightarrow> ft_control_payload u = ?q" using e cp by (simp_all add: u_def)
  have ku: "keeps_up u (if hd_control (wf_info f) then opens (wf_info f) s else carries (wf_info f) ?q (opens (wf_info f) s))"
    using k by (simp add: u_def)
  note m = payload_moves [OF assms(1) n(1) u ku, unfolded dr]
  define u' where "u' = (if ft_payload_left u = 0 then snd (end_of_frame finder dec fresh_dec u) else u)"
  have "\<not> ft_done u' \<and> tracks u' (drop n chunk @ S) G"
  proof (cases "n = ft_payload_left t")
    case True
    then have "end_of_frame finder dec fresh_dec u = (fst (end_of_frame finder dec fresh_dec u), u')" by (simp add: u'_def u(2))
    from m(2) [OF True this] have a: "at_header u' fs (drop n chunk @ S) (says f s)" .
    then have "\<not> ft_done u'" by (auto simp: at_header_def intro: keeps_up_not_done dest: keeps_up_not_done)
    then show ?thesis unfolding tracks_def using a assms(3) by blast
  next
    case False
    then have "u' = u" "n < ft_payload_left t" using n(1) by (simp_all add: u'_def u(2))
    from m(1) [OF this(2)] this(1) have a: "in_payload u' f ?q fs (drop n chunk @ S) s" by simp
    have "\<not> ft_done u'" using keeps_up_not_done [OF ku] \<open>u' = u\<close> by simp
    then show ?thesis unfolding tracks_def using a assms(3) by blast
  qed
  then show ?thesis using p unfolding u'_def u_def Let_def by blast
qed

lemma header_tracks:
  assumes "at_header t fs (b # S) s" "G = foldl (\<lambda>s f. says f s) s fs"
  defines "t1 \<equiv> t\<lparr>ft_header := ft_header t @ [b]\<rparr>"
  shows "scan_frame_header (ft_header t1) = Need \<and> tracks t1 S G \<or>
    (\<exists>i. scan_frame_header (ft_header t1) = HeaderDone i \<and>
      (let u = tee_header i t1; u' = (if ft_payload_left u = 0 then snd (end_of_frame finder dec fresh_dec u) else u)
       in \<not> ft_done u \<and> \<not> ft_done u' \<and> tracks u' S G))"
proof (cases fs)
  case Nil
  then show ?thesis using assms(1) by (simp add: at_header_def stream_def)
next
  case (Cons f fs')
  note a = assms(1) [unfolded Cons]
  have ok: "frames_ok (f # fs')" and k: "keeps_up t s" using a by (simp_all add: at_header_def)
  have l: "length (wf_payload f) = hd_payload_len (wf_info f)" "hd_starts_message (wf_info f) \<longrightarrow> \<not> hd_rsv1 (wf_info f)"
    using ok by (simp_all add: frames_ok_def frame_ok_def uncompressed_def)
  show ?thesis
  proof (cases "Suc (length (ft_header t)) < length (wf_header f)")
    case True
    note n = header_step_needs [OF a True, folded t1_def]
    have "tracks t1 S G" unfolding tracks_def using n(2) assms(2) Cons by blast
    moreover have "scan_frame_header (ft_header t1) = Need" using n(1) by (simp add: t1_def)
    ultimately show ?thesis by blast
  next
    case False
    note h = header_step_done [OF a False]
    let ?u = "tee_header (wf_info f) t1"
    have k1: "keeps_up t1 s" using k by (simp add: t1_def)
    note o = tee_header_opens [OF k1 l(2)]
    define u' where "u' = (if ft_payload_left ?u = 0 then snd (end_of_frame finder dec fresh_dec ?u) else ?u)"
    have G: "G = foldl (\<lambda>s f. says f s) (says f s) fs'" using assms(2) Cons by simp
    have "\<not> ft_done u' \<and> tracks u' S G"
    proof (cases "wf_payload f = []")
      case True
      then have z: "ft_payload_left ?u = 0" using l(1) o(2) by simp
      then have e: "end_of_frame finder dec fresh_dec ?u = (fst (end_of_frame finder dec fresh_dec ?u), u')" by (simp add: u'_def)
      have "keeps_up ?u (if hd_control (wf_info f) then opens (wf_info f) s else carries (wf_info f) (wf_payload f) (opens (wf_info f) s))"
        using o(1) carries_Nil True by simp
      from frame_ends [OF ok z o(8) o(4) _ this e] True o(5) have "at_header u' fs' (stream fs') (says f s)" by simp
      then have a: "at_header u' fs' S (says f s)" using h(2) True by (simp add: unmask_Nil)
      then have "\<not> ft_done u'" unfolding at_header_def by (blast dest: keeps_up_not_done)
      then show ?thesis unfolding tracks_def using G a by blast
    next
      case False
      then have "hd_payload_len (wf_info f) \<noteq> 0" using l(1) by (metis length_0_conv)
      then have "u' = ?u" using o(2) by (simp add: u'_def)
      with header_complete [OF ok k1 h(2) False] keeps_up_not_done [OF o(1)] show ?thesis unfolding tracks_def using G by metis
    qed
    moreover have "scan_frame_header (ft_header t1) = HeaderDone (wf_info f)" using h(3) by (simp add: t1_def)
    ultimately show ?thesis using keeps_up_not_done [OF o(1)] unfolding u'_def Let_def by blast
  qed
qed

lemma push_loop_tracks:
  "tracks t (chunk @ S) G \<Longrightarrow> tracks (snd (push_loop finder dec fresh_dec chunk filled t)) S G"
proof (induction "length chunk" arbitrary: chunk filled t rule: less_induct)
  case less
  show ?case
  proof (cases chunk)
    case Nil
    then show ?thesis using less.prems by (simp add: push_loop.simps(1))
  next
    case (Cons b rest)
    have IH: "tracks t' (chunk' @ S) G \<Longrightarrow> tracks (snd (push_loop finder dec fresh_dec chunk' filled' t')) S G"
      if "length chunk' < length chunk" for chunk' filled' t'
      using less.hyps that by blast
    from less.prems consider
      (header) fs s where "at_header t fs (b # rest @ S) s" "G = foldl (\<lambda>s f. says f s) s fs"
    | (payload) f p fs s where "in_payload t f p fs (chunk @ S) s" "G = foldl (\<lambda>s f. says f s) (says f s) fs"
      unfolding tracks_def Cons by auto
    then show ?thesis
    proof cases
      case header
      have z: "ft_payload_left t = 0" using header(1) by (simp add: at_header_def)
      have IHr: "tracks t' (rest @ S) G \<Longrightarrow> tracks (snd (push_loop finder dec fresh_dec rest filled' t')) S G" for filled' t'
        using IH [of rest] Cons by simp
      show ?thesis using header_tracks [OF header, of dec fresh_dec] IHr unfolding Cons push_loop.simps(2) z
        by (auto simp: Let_def split: prod.splits)
    next
      case payload
      let ?n = "min (ft_payload_left t) (length chunk)"
      have nz: "ft_payload_left t \<noteq> 0" using payload(1) by (auto simp: in_payload_def Let_def)
      have IHr: "tracks t' (drop ?n chunk @ S) G \<Longrightarrow> tracks (snd (push_loop finder dec fresh_dec (drop ?n chunk) filled' t')) S G"
        for filled' t' using IH [of "drop ?n chunk"] nz Cons by simp
      obtain mf t' where p: "tee_payload finder dec fresh_dec (take ?n chunk) t = Inr (mf, t')"
        and m: "let u = t'\<lparr>ft_mask_at := (ft_mask_at t' + ?n) mod 4, ft_payload_left := ft_payload_left t' - ?n\<rparr>;
         u' = (if ft_payload_left u = 0 then snd (end_of_frame finder dec fresh_dec u) else u)
     in \<not> ft_done u' \<and> tracks u' (drop ?n chunk @ S) G"
        using payload_tracks [OF payload(1) _ payload(2), of dec fresh_dec] Cons by blast
      show ?thesis using p m IHr nz unfolding Cons push_loop.simps(2)
        by (auto simp: Let_def split: prod.splits)
    qed
  qed
qed

end

text \<open>The relay pushes what it reads, chunk by chunk.\<close>

definition push_all ::
  "(string \<Rightarrow> string \<Rightarrow> nat option) \<Rightarrow> 'd decompress \<Rightarrow> 'd \<Rightarrow> string list \<Rightarrow> 'd frame_tee \<Rightarrow> 'd frame_tee" where
  "push_all finder dec fresh_dec chunks t = foldl (\<lambda>t c. snd (tee_push finder dec fresh_dec c t)) t chunks"

definition said_by :: "ws_frame list \<Rightarrow> string set \<times> string" where
  "said_by fs = (case foldl (\<lambda>s f. says f s) ({}, [], []) fs of (T, m, data) \<Rightarrow> (insert m T, data))"

lemma tracks_not_done: "tracks t S G \<Longrightarrow> \<not> ft_done t"
  unfolding tracks_def at_header_def in_payload_def Let_def by (blast dest: keeps_up_not_done)

context substring_finder begin

lemma push_all_tracks:
  "tracks t (concat chunks @ S) G \<Longrightarrow> tracks (push_all finder dec fresh_dec chunks t) S G"
proof (induction chunks arbitrary: t)
  case (Cons c chunks)
  have "tracks (snd (tee_push finder dec fresh_dec c t)) (concat chunks @ S) G"
    using push_loop_tracks [of t c "concat chunks @ S" G dec fresh_dec False] Cons.prems tracks_not_done [OF Cons.prems]
    by (simp add: tee_push_def)
  from Cons.IH [OF this] show ?case by (simp add: push_all_def)
qed (simp add: push_all_def)

lemma new_tracks:
  assumes "FrameTee_new fresh_dec sink needles deflate follow = Some t" "needles \<noteq> []" "frames_ok fs"
    and "sink_holds sink False []"
  shows "tracks t (stream fs) (foldl (\<lambda>s f. says f s) ({}, [], []) fs)"
proof -
  obtain sc where sc: "LeakScan_new needles = Some sc" using assms(2) by (simp add: LeakScan_new_def)
  have "at_header t fs (stream fs) ({}, [], [])"
    using assms sc scan_sees_new [OF sc] header_nonempty
    by (auto simp: at_header_def FrameTee_new_def keeps_up_def frames_ok_def split: list.split)
  then show ?thesis unfolding tracks_def by blast
qed

lemma push_all_follows:
  assumes "FrameTee_new fresh_dec sink needles deflate follow = Some t" "needles \<noteq> []" "frames_ok fs"
    and "sink_holds sink False []" "concat chunks = stream fs"
  shows "keeps_up (push_all finder dec fresh_dec chunks t) (foldl (\<lambda>s f. says f s) ({}, [], []) fs)"
  by (rule tracks_end [OF push_all_tracks]) (use new_tracks [OF assms(1-4)] assms(5) in simp)

end


section \<open>Each needle is named once\<close>

text \<open>A property of the scan that its three operations keep is kept by the whole tee, whatever it decodes.\<close>

definition tee_holds :: "(leak_scan \<Rightarrow> bool) \<Rightarrow> (cap_buf \<Rightarrow> bool) \<Rightarrow> 'd frame_tee \<Rightarrow> bool" where
  "tee_holds P Q t \<longleftrightarrow> pred_option P (ft_scan t) \<and> (\<exists>b. ft_sink t = Some b \<and> Q b)"

lemma capture_scan: "ft_scan (snd (tee_capture piece t)) = ft_scan t"
  by (auto simp: tee_capture_def split: option.splits prod.splits bool.splits)

locale tee_property =
  fixes finder :: "string \<Rightarrow> string \<Rightarrow> nat option" and P :: "leak_scan \<Rightarrow> bool" and Q :: "cap_buf \<Rightarrow> bool"
  assumes take_keeps: "P s \<Longrightarrow> P (LeakScan_take finder piece s)"
    and carry_free: "P s \<Longrightarrow> P (s\<lparr>ls_carry := c\<rparr>)"
    and sink_keeps: "Q b \<Longrightarrow> Q (snd (CapBuf_push piece b))"
begin

lemma capture_holds: "tee_holds P Q t \<Longrightarrow> tee_holds P Q (snd (tee_capture piece t))"
proof (cases "ft_sink t")
  case (Some b)
  assume h: "tee_holds P Q t"
  obtain filled b' where p: "CapBuf_push piece b = (filled, b')" by (cases "CapBuf_push piece b")
  have "Q b'" using h sink_keeps [of b piece] Some by (simp add: tee_holds_def p)
  then show ?thesis using h Some by (cases filled) (simp_all add: tee_capture_def p tee_holds_def)
qed (simp add: tee_holds_def)

lemma start_keeps: "P s \<Longrightarrow> P (LeakScan_start_message s)"
  using carry_free by (simp add: LeakScan_start_message_def)

lemma standalone_keeps: "P s \<Longrightarrow> P (LeakScan_take_standalone finder piece s)"
  unfolding LeakScan_take_standalone_def Let_def by (intro carry_free take_keeps)

lemma header_holds: "tee_holds P Q t \<Longrightarrow> tee_holds P Q (tee_header h t)"
  by (cases "ft_scan t") (auto simp: tee_holds_def tee_header_def Let_def start_keeps)

lemma take_holds: "pred_option P scan \<Longrightarrow> pred_option P (map_option (LeakScan_take finder b) scan)"
  using take_keeps by (cases scan) auto

lemma blocks_hold: "pred_option P scan \<Longrightarrow>
    pred_option P (fst (foldl (\<lambda>(scan, plain) block. (map_option (LeakScan_take finder block) scan, plain @ f plain block)) (scan, plain) blocks))"
  by (induction blocks arbitrary: scan plain) (simp_all add: take_holds)

lemma inflate_holds:
  assumes "tee_holds P Q t"
  shows "tee_holds P Q (snd (tee_inflate finder dec fresh_dec piece t))"
proof (cases "ft_inflater t")
  case None
  then show ?thesis using assms by (simp add: tee_inflate_def Let_def)
next
  case (Some f)
  define keep where "keep = (case ft_sink t of Some sink \<Rightarrow> if ft_sink_full t then 0 else cb_cap sink + 1 | None \<Rightarrow> 0)"
  obtain ended f' blocks where b:
    "(case piece of Some p \<Rightarrow> Inflater_feed dec p f | None \<Rightarrow> Inflater_finish dec fresh_dec f) = (ended, f', blocks)"
    by (rule prod_cases3)
  obtain scan plain where p: "foldl (\<lambda>(scan, plain) block.
      (map_option (LeakScan_take finder block) scan, plain @ take (keep - length plain) block)) (ft_scan t, ft_plain t) blocks = (scan, plain)"
    by (rule prod.exhaust)
  have "pred_option P scan"
    using blocks_hold [of "ft_scan t" "\<lambda>plain block. take (keep - length plain) block" "ft_plain t" blocks] assms
    unfolding p tee_holds_def by simp
  moreover have "snd (tee_inflate finder dec fresh_dec piece t) = t\<lparr>ft_inflater := Some f', ft_scan := scan, ft_plain := plain\<rparr>"
    unfolding tee_inflate_def Let_def Some option.case keep_def [symmetric] b prod.case p snd_conv by simp
  ultimately show ?thesis using assms by (simp add: tee_holds_def)
qed

lemma give_up_holds:
  assumes "tee_holds P Q t"
  shows "tee_holds P Q (snd (give_up why t))"
proof -
  have u: "tee_holds P Q (t\<lparr>ft_done := True, ft_plain := []\<rparr>)" using assms by (simp add: tee_holds_def)
  then show ?thesis using capture_holds [OF u] by (cases why) (simp_all add: give_up_def)
qed

lemma consume_holds: "tee_holds P Q t \<Longrightarrow> tee_holds P Q (snd (tee_consume finder piece t))"
  unfolding tee_consume_def by (rule capture_holds) (simp add: tee_holds_def take_holds)

lemma payload_holds:
  assumes "tee_holds P Q t"
  shows "tee_holds P Q (case tee_payload finder dec fresh_dec raw t of Inl r \<Rightarrow> snd r | Inr r \<Rightarrow> snd r)"
proof -
  let ?piece = "unmask (ft_mask t) (ft_mask_at t) raw"
  obtain filled t1 where c: "tee_consume finder ?piece t = (filled, t1)" by (cases "tee_consume finder ?piece t")
  obtain ended t2 where i: "tee_inflate finder dec fresh_dec (Some ?piece) t = (ended, t2)"
    by (cases "tee_inflate finder dec fresh_dec (Some ?piece) t")
  have h: "tee_holds P Q t1" "tee_holds P Q t2" "tee_holds P Q (t1\<lparr>ft_done := True\<rparr>)"
    "tee_holds P Q (t\<lparr>ft_control_payload := cp\<rparr>)" for cp
    using consume_holds [OF assms, of ?piece] inflate_holds [OF assms, of dec fresh_dec "Some ?piece"] c i assms
    by (simp_all add: tee_holds_def)
  show ?thesis
    unfolding tee_payload_def Let_def c i
    using h assms give_up_holds [OF h(2)] by (cases ended) (simp_all split: if_split unit.split)
qed

lemma end_holds:
  assumes "tee_holds P Q t"
  shows "tee_holds P Q (snd (end_of_frame finder dec fresh_dec t))"
proof -
  obtain ended t2 where i: "tee_inflate finder dec fresh_dec None t = (ended, t2)" by (cases "tee_inflate finder dec fresh_dec None t")
  obtain filled t3 where c: "tee_capture (ft_plain t2) (t2\<lparr>ft_plain := []\<rparr>) = (filled, t3)"
    by (cases "tee_capture (ft_plain t2) (t2\<lparr>ft_plain := []\<rparr>)")
  have t2: "tee_holds P Q t2" using inflate_holds [OF assms, of dec fresh_dec None] i by simp
  have t2': "tee_holds P Q (t2\<lparr>ft_plain := []\<rparr>)" using t2 by (simp add: tee_holds_def)
  have t3: "tee_holds P Q t3" "tee_holds P Q (t3\<lparr>ft_done := True\<rparr>)"
    using capture_holds [OF t2', of "ft_plain t2"] c by (simp_all add: tee_holds_def)
  have s: "tee_holds P Q (t\<lparr>ft_control_payload := [], ft_scan := map_option (LeakScan_take_standalone finder x) (ft_scan t)\<rparr>)" for x
    using assms standalone_keeps by (cases "ft_scan t") (simp_all add: tee_holds_def)
  show ?thesis unfolding end_of_frame_def i
    using assms s t3 c give_up_holds [OF t2] by (cases ended) (simp_all split: if_split unit.split)
qed

lemma loop_holds: "tee_holds P Q t \<Longrightarrow> tee_holds P Q (snd (push_loop finder dec fresh_dec chunk filled t))"
proof (induction "length chunk" arbitrary: chunk filled t rule: less_induct)
  case less
  have IH: "tee_holds P Q t' \<Longrightarrow> tee_holds P Q (snd (push_loop finder dec fresh_dec chunk' filled' t'))"
    if "length chunk' < length chunk" for chunk' filled' t'
    using less.hyps that by blast
  have ends: "tee_holds P Q u \<Longrightarrow> tee_holds P Q (snd (if b then end_of_frame finder dec fresh_dec u else (False, u)))" for u b
    using end_holds [of u dec fresh_dec] by simp
  show ?case
  proof (cases chunk)
    case Nil
    then show ?thesis using less.prems by (simp add: push_loop.simps(1))
  next
    case (Cons b rest)
    show ?thesis
    proof (cases "ft_payload_left t = 0")
      case True
      let ?t = "t\<lparr>ft_header := ft_header t @ [b]\<rparr>"
      have t: "tee_holds P Q ?t" using less.prems by (simp add: tee_holds_def)
      have rest: "tee_holds P Q t' \<Longrightarrow> tee_holds P Q (snd (push_loop finder dec fresh_dec rest filled' t'))" for filled' t'
        using IH [of rest] Cons by simp
      show ?thesis
      proof (cases "scan_frame_header (ft_header ?t)")
        case Need
        then show ?thesis using rest [OF t] True by (simp add: Cons push_loop.simps(2))
      next
        case Bad
        then show ?thesis using t True by (simp add: Cons push_loop.simps(2) tee_holds_def)
      next
        case (HeaderDone h)
        let ?u = "tee_header h ?t"
        have u: "tee_holds P Q ?u" by (rule header_holds [OF t])
        obtain more u' where u': "(if ft_payload_left ?u = 0 then end_of_frame finder dec fresh_dec ?u else (False, ?u)) = (more, u')"
          by (rule prod.exhaust)
        have "tee_holds P Q u'" using ends [OF u, of "ft_payload_left ?u = 0"] unfolding u' by simp
        then show ?thesis
          unfolding Cons push_loop.simps(2) Let_def HeaderDone header_scan.case u' prod.case using True u rest by simp
      qed
    next
      case False
      let ?n = "min (ft_payload_left t) (length (b # rest))"
      have rest: "tee_holds P Q t' \<Longrightarrow> tee_holds P Q (snd (push_loop finder dec fresh_dec (drop ?n (b # rest)) filled' t'))" for filled' t'
        using IH [of "drop ?n (b # rest)"] Cons False by simp
      note p = payload_holds [OF less.prems, of dec fresh_dec "take ?n (b # rest)"]
      show ?thesis
      proof (cases "tee_payload finder dec fresh_dec (take ?n (b # rest)) t")
        case (Inl r)
        then show ?thesis using p False by (cases r) (simp add: Cons push_loop.simps(2) Let_def)
      next
        case (Inr r)
        obtain mf t1 where r: "r = (mf, t1)" by (cases r)
        let ?u = "t1\<lparr>ft_mask_at := (ft_mask_at t1 + ?n) mod 4, ft_payload_left := ft_payload_left t1 - ?n\<rparr>"
        have u: "tee_holds P Q ?u" using p [unfolded Inr r sum.case snd_conv] by (simp add: tee_holds_def)
        obtain more u' where u': "(if ft_payload_left ?u = 0 then end_of_frame finder dec fresh_dec ?u else (False, ?u)) = (more, u')"
          by (rule prod.exhaust)
        have "tee_holds P Q u'" using ends [OF u, of "ft_payload_left ?u = 0"] unfolding u' by simp
        then show ?thesis
          unfolding Cons push_loop.simps(2) Let_def Inr r sum.case u' prod.case using False rest by simp
      qed
    qed
  qed
qed

lemma push_all_holds: "tee_holds P Q t \<Longrightarrow> tee_holds P Q (push_all finder dec fresh_dec chunks t)"
proof (induction chunks arbitrary: t)
  case (Cons c chunks)
  then show ?case using Cons.IH [of "snd (tee_push finder dec fresh_dec c t)"] loop_holds [of t dec fresh_dec c False]
    by (simp add: push_all_def tee_push_def split: if_splits)
qed (simp add: push_all_def)

end

definition named_once :: "secret_needle list \<Rightarrow> leak_scan \<Rightarrow> bool" where
  "named_once needles s \<longleftrightarrow> ls_needles s = needles \<and> length (ls_reported s) = length needles \<and>
     mset (ls_fresh s) = mset (map (\<lambda>i. sn_name (needles ! i)) (filter (nth (ls_reported s)) [0..<length needles]))"

lemma mset_filter_disj: "(\<And>x. x \<in> set xs \<Longrightarrow> \<not> (p x \<and> q x)) \<Longrightarrow> (\<And>x. x \<in> set xs \<Longrightarrow> r x \<longleftrightarrow> p x \<or> q x) \<Longrightarrow>
    mset (filter r xs) = mset (filter p xs) + mset (filter q xs)"
  by (induction xs) auto

lemma named_once_take:
  assumes "named_once needles s"
  shows "named_once needles (LeakScan_take finder piece s)"
proof (cases "list_all id (ls_reported s)")
  case True
  then show ?thesis using assms by (simp add: LeakScan_take_def)
next
  case False
  let ?c = "ls_carry s @ piece" and ?s = "LeakScan_take finder piece s"
  let ?hit = "\<lambda>i. \<not> ls_reported s ! i \<and> find_in finder (needles ! i) ?c 0 \<noteq> None"
  let ?hits = "filter ?hit [0..<length needles]"
  have n: "ls_needles s = needles" "length (ls_reported s) = length needles" using assms by (simp_all add: named_once_def)
  have fields: "ls_needles ?s = needles" "ls_reported ?s = foldl (\<lambda>r i. r[i := True]) (ls_reported s) ?hits"
    "ls_fresh ?s = ls_fresh s @ map (\<lambda>i. sn_name (needles ! i)) ?hits"
    using False n by (simp_all add: LeakScan_take_def Let_def)
  have rep: "length (ls_reported ?s) = length needles"
    "ls_reported ?s ! i \<longleftrightarrow> ls_reported s ! i \<or> ?hit i" if "i < length needles" for i
    using foldl_set_True [of "ls_reported s" ?hits] n that unfolding fields(2) by auto
  have "mset (filter (nth (ls_reported ?s)) [0..<length needles]) =
      mset (filter (nth (ls_reported s)) [0..<length needles]) + mset ?hits"
    by (rule mset_filter_disj) (use rep(2) in auto)
  moreover have "length (ls_reported ?s) = length needles"
    using foldl_set_True [of "ls_reported s" ?hits] n unfolding fields(2) by simp
  ultimately show ?thesis using assms unfolding named_once_def fields by (simp del: mset_filter)
qed

lemma sink_cap_keeps: "cb_cap (snd (CapBuf_push piece b)) = cb_cap b"
  by (simp add: CapBuf_push_def Let_def)

interpretation named: tee_property finder "named_once needles" "\<lambda>b. cb_cap b = cap" for finder needles cap
  by unfold_locales (simp_all add: named_once_take sink_cap_keeps, simp add: named_once_def)


lemma scan_names:
  assumes "named_once needles s" "scan_sees s T m"
  shows "mset (ls_fresh s) = mset (map sn_name (filter (\<lambda>n. \<exists>x \<in> insert m T. occurs (sn_bytes n) x) needles))"
proof -
  let ?P = "\<lambda>n. \<exists>x \<in> insert m T. occurs (sn_bytes n) x"
  have "filter (nth (ls_reported s)) [0..<length needles] = filter (\<lambda>i. ?P (needles ! i)) [0..<length needles]"
    by (rule filter_cong) (use assms in \<open>simp_all add: named_once_def scan_sees_def\<close>)
  moreover have "map (nth needles) (filter (\<lambda>i. ?P (needles ! i)) [0..<length needles]) = filter ?P needles"
    using filter_map [of ?P "nth needles" "[0..<length needles]"] by (simp add: comp_def map_nth)
  ultimately have "map (\<lambda>i. sn_name (needles ! i)) (filter (nth (ls_reported s)) [0..<length needles]) = map sn_name (filter ?P needles)"
    using map_map [of sn_name "nth needles"] by (metis (no_types, lifting) comp_def map_eq_conv)
  then show ?thesis using assms(1) by (simp add: named_once_def)
qed

lemma relay_run:
  assumes "substring_finder finder" "frames_ok fs" "concat chunks = stream fs" "needles \<noteq> []"
    and "FrameTee_new fresh_dec (Some (CapBuf_new cap)) needles deflate follow = Some t"
  shows "keeps_up (push_all finder dec fresh_dec chunks t) (foldl (\<lambda>s f. says f s) ({}, [], []) fs)" "tee_holds (named_once needles) (\<lambda>b. cb_cap b = cap) (push_all finder dec fresh_dec chunks t)"
proof -
  have "sink_holds (Some (CapBuf_new cap)) False []" by (simp add: sink_holds_def CapBuf_new_def)
  from substring_finder.push_all_follows [OF assms(1,5,4,2) this assms(3), of dec]
  show "keeps_up (push_all finder dec fresh_dec chunks t) (foldl (\<lambda>s f. says f s) ({}, [], []) fs)" .
  have "tee_holds (named_once needles) (\<lambda>b. cb_cap b = cap) t"
    using assms(4,5) by (auto simp: FrameTee_new_def LeakScan_new_def tee_holds_def named_once_def CapBuf_new_def)
  then show "tee_holds (named_once needles) (\<lambda>b. cb_cap b = cap) (push_all finder dec fresh_dec chunks t)" by (rule named.push_all_holds)
qed

text \<open>C28. A relay that decodes a stream of frames, uncompressed and cut into any chunks, is never blinded,
  and names exactly the needles that occur in a message or in a control frame, each once.\<close>

theorem websocket_relay_names:
  assumes "substring_finder finder" "frames_ok fs" "concat chunks = stream fs" "needles \<noteq> []"
    and "FrameTee_new fresh_dec (Some (CapBuf_new cap)) needles deflate follow = Some t"
  shows "\<not> ft_done (push_all finder dec fresh_dec chunks t) \<and>
    mset (fst (sightings (push_all finder dec fresh_dec chunks t))) =
      mset (map sn_name (filter (\<lambda>n. \<exists>x \<in> fst (said_by fs). occurs (sn_bytes n) x) needles))"
proof -
  obtain T m data where s: "foldl (\<lambda>s f. says f s) ({}, [], []) fs = (T, m, data)" by (rule prod_cases3)
  note r = relay_run [OF assms, of dec, unfolded s]
  obtain sc where sc: "ft_scan (push_all finder dec fresh_dec chunks t) = Some sc" "scan_sees sc T m"
    using r(1) by (auto simp: keeps_up_def)
  have "named_once needles sc" using r(2) by (simp add: tee_holds_def sc(1))
  from scan_names [OF this sc(2)] show ?thesis
    using keeps_up_not_done [OF r(1)] by (simp add: sightings_def sc(1) LeakScan_drain_def said_by_def s)
qed

definition peer_frame :: "bool \<Rightarrow> nat \<Rightarrow> string option \<Rightarrow> string \<Rightarrow> ws_frame" where
  "peer_frame fin opcode key payload =
     \<lparr>wf_header = encode_header fin False opcode key (length payload),
      wf_info = \<lparr>hd_payload_len = length payload, hd_keeps = opcode \<le> 2, hd_control = 8 \<le> opcode, hd_mask = key,
        hd_fin = fin, hd_rsv1 = False, hd_starts_message = (opcode = 1 \<or> opcode = 2)\<rparr>,
      wf_payload = payload\<rparr>"

definition sample_frames :: "ws_frame list" where
  "sample_frames = [peer_frame False 1 (Some ''wxyz'') ''my s3c'', peer_frame True 9 None ''t0ken'', peer_frame True 0 (Some ''abcd'') ''ret!'']"

definition sample_needles :: "secret_needle list" where
  "sample_needles = [needle_named ''a'' ''s3cret'', needle_named ''b'' ''t0ken'', needle_named ''c'' ''crett'']"

definition sample_tee :: "nat \<Rightarrow> unit frame_tee" where
  "sample_tee cap = the (FrameTee_new () (Some (CapBuf_new cap)) sample_needles None False)"

lemma sample_said: "said_by sample_frames = ({''my s3cret!'', ''t0ken'', []}, ''my s3cret!'')"
  by (simp add: said_by_def sample_frames_def peer_frame_def says_def opens_def carries_def insert_commute)

lemma sample_ok: "frames_ok sample_frames" "sample_needles \<noteq> []"
  "FrameTee_new () (Some (CapBuf_new cap)) sample_needles None False = Some (sample_tee cap)"
  by code_simp (simp_all add: sample_needles_def sample_tee_def FrameTee_new_def)

lemma sample_chunks: "concat [take 3 (stream sample_frames), drop 3 (stream sample_frames)] = stream sample_frames"
  by simp

theorem websocket_relay_names_witness:
  "mset (fst (sightings (push_all first_at (\<lambda>d i w n. (TinflFailed, 0, 0, d, w)) ()
     [take 3 (stream sample_frames), drop 3 (stream sample_frames)] (sample_tee 6)))) = {#''a'', ''b''#}"
proof -
  have o: "occurs ''s3cret'' ''my s3cret!'' \<and> occurs ''t0ken'' ''t0ken''"
    using sublist_appendI [of "''s3cret''" "''my ''" "''!''"] by (simp add: occurs_def)
  have "\<not> occurs ''crett'' ''my s3cret!''" by code_simp
  moreover have "\<not> occurs ''crett'' ''t0ken''" by code_simp
  ultimately have f: "filter (\<lambda>n. \<exists>x \<in> fst (said_by sample_frames). occurs (sn_bytes n) x) sample_needles =
      [needle_named ''a'' ''s3cret'', needle_named ''b'' ''t0ken'']"
    using o unfolding sample_said by (simp add: sample_needles_def needle_named_def)
  show ?thesis
    using websocket_relay_names [OF left_to_right.substring_finder_axioms sample_ok(1) sample_chunks sample_ok(2,3)] unfolding f
    by (simp add: needle_named_def)
qed



text \<open>Once every value has been reported the scan keeps its carry as it was: a needle learned after that is
  matched across the piece the scan skipped.\<close>

lemma carry_goes_stale:
  "let s = the (LeakScan_new [needle_named ''a'' ''key'']);
       s = LeakScan_take first_at ''my key is s3'' (LeakScan_start_message s);
       s = LeakScan_take first_at '' and more'' s;
       s = LeakScan_extend [needle_named ''b'' ''s3cret''] s;
       s = LeakScan_take first_at ''cret'' s
   in ls_reported s = [True, True] \<and> \<not> sublist ''s3cret'' ''my key is s3 and morecret''"
  by code_simp

end
