(* ===== verification/Ssh_Agent.thy ===== *)
theory Ssh_Agent
  imports Base64 Lens_Record Ws_Stream
begin

text \<open>
  The ssh-agent broker, src/src/sandbox/sshagent.rs: the messages of the agent protocol, the filter that
  names the keys a cage may use, the answer to one request and the loop of a connection. The cage and
  the host's agent are peers: what a peer will send is a byte source of \<open>Byte_Reader\<close> (any
  segmentation, interruptions, errors), what it was sent is kept, and it may stop taking bytes at any
  point. SHA-256 and the helper that asks the user are parameters; what a connection writes to the
  shared ring (\<open>AgentRing::push\<close>) is kept as the list of its pushes.
\<close>

section \<open>The protocol\<close>

definition FAILURE :: nat where
  "FAILURE = 5"

definition REQUEST_IDENTITIES :: nat where
  "REQUEST_IDENTITIES = 11"

definition IDENTITIES_ANSWER :: nat where
  "IDENTITIES_ANSWER = 12"

definition SIGN_REQUEST :: nat where
  "SIGN_REQUEST = 13"

definition SIGN_RESPONSE :: nat where
  "SIGN_RESPONSE = 14"

definition EXTENSION :: nat where
  "EXTENSION = 27"

definition SESSION_BIND :: string where
  "SESSION_BIND = ''session-bind@openssh.com''"

definition MAX_MESSAGE :: nat where
  "MAX_MESSAGE = 256 * 1024"

record identity =
  id_blob :: string
  id_comment :: string

definition fingerprint :: "(string \<Rightarrow> string) \<Rightarrow> string \<Rightarrow> string" where
  "fingerprint digest blob = ''SHA256:'' @ trim_end_char CHR ''='' (base64_encode (digest blob))"

definition label :: "(string \<Rightarrow> string) \<Rightarrow> identity \<Rightarrow> string" where
  "label digest key = (if id_comment key = [] then fingerprint digest (id_blob key) else id_comment key)"

definition filter_admits :: "(string \<Rightarrow> string) \<Rightarrow> string list \<Rightarrow> identity \<Rightarrow> bool" where
  "filter_admits digest allow key =
     (let fp = fingerprint digest (id_blob key) in
      list_ex (\<lambda>entry. entry \<noteq> [] \<and> (entry = fp \<or> entry = id_comment key)) allow)"

text \<open>\<open>Reader::u32\<close> and \<open>Reader::string\<close> at a position of a message, with the position behind.\<close>

definition rd_u32 :: "string \<Rightarrow> nat \<Rightarrow> (nat \<times> nat) option" where
  "rd_u32 buf at = (if at + 4 \<le> length buf then Some (be_bytes (take 4 (drop at buf)), at + 4) else None)"

definition rd_string :: "string \<Rightarrow> nat \<Rightarrow> (string \<times> nat) option" where
  "rd_string buf at =
     (case rd_u32 buf at of
        None \<Rightarrow> None
      | Some (len, at) \<Rightarrow> if at + len \<le> length buf then Some (take len (drop at buf), at + len) else None)"

definition put_string :: "string \<Rightarrow> string" where
  "put_string s = to_be 4 (length s) @ s"

fun parse_entries :: "nat \<Rightarrow> string \<Rightarrow> nat \<Rightarrow> identity list option" where
  "parse_entries 0 buf at = Some []"
| "parse_entries (Suc n) buf at =
     (case rd_string buf at of
        None \<Rightarrow> None
      | Some (blob, at) \<Rightarrow>
          (case rd_string buf at of
             None \<Rightarrow> None
           | Some (comment, at) \<Rightarrow>
               map_option (\<lambda>ids. \<lparr>id_blob = blob, id_comment = utf8_lossy comment\<rparr> # ids) (parse_entries n buf at)))"

definition parse_identities :: "string \<Rightarrow> identity list option" where
  "parse_identities body =
     (case body of
        [] \<Rightarrow> None
      | k # rest \<Rightarrow>
          if byte k \<noteq> IDENTITIES_ANSWER then None
          else case rd_u32 rest 0 of
            None \<Rightarrow> None
          | Some (num, at) \<Rightarrow> if length rest div 8 + 1 < num then None else parse_entries num rest at)"

definition identities_answer :: "identity list \<Rightarrow> string" where
  "identities_answer ids =
     char_of IDENTITIES_ANSWER # to_be 4 (length ids) @ concat (map (\<lambda>key. put_string (id_blob key) @ put_string (id_comment key)) ids)"

definition sign_request_key :: "string \<Rightarrow> string option" where
  "sign_request_key payload = map_option fst (rd_string payload 0)"

definition extension_name :: "string \<Rightarrow> string option" where
  "extension_name payload = map_option fst (rd_string payload 0)"

definition session_bind_host_key :: "(string \<Rightarrow> string) \<Rightarrow> string \<Rightarrow> string option" where
  "session_bind_host_key digest payload =
     (case rd_string payload 0 of
        None \<Rightarrow> None
      | Some (_, at) \<Rightarrow>
          (case rd_string payload at of
             None \<Rightarrow> None
           | Some (blob, _) \<Rightarrow> if blob = [] then None else Some (fingerprint digest blob)))"

section \<open>The peers\<close>

datatype agent_fault = AgentIo io_fault | FrameOutOfRange

text \<open>What a peer will send, what it was sent, and how many bytes more it takes where it stops taking them.\<close>

record peer =
  pr_in :: reader
  pr_out :: string
  pr_room :: "nat option"

definition read_message :: "peer \<Rightarrow> (agent_fault + string) \<times> peer" where
  "read_message p =
     (case read_exact 4 (pr_in p) of
        (Inl e, r) \<Rightarrow> (Inl (AgentIo e), p\<lparr>pr_in := r\<rparr>)
      | (Inr len, r) \<Rightarrow>
          let len = be_bytes len in
          if len = 0 \<or> MAX_MESSAGE < len then (Inl FrameOutOfRange, p\<lparr>pr_in := r\<rparr>)
          else case read_exact len r of
            (Inl e, r) \<Rightarrow> (Inl (AgentIo e), p\<lparr>pr_in := r\<rparr>)
          | (Inr body, r) \<Rightarrow> (Inr body, p\<lparr>pr_in := r\<rparr>))"

definition write_message :: "string \<Rightarrow> peer \<Rightarrow> (agent_fault + unit) \<times> peer" where
  "write_message body p =
     (let bytes = to_be 4 (length body) @ body in
      case pr_room p of
        None \<Rightarrow> (Inr (), p\<lparr>pr_out := pr_out p @ bytes\<rparr>)
      | Some k \<Rightarrow>
          if length bytes \<le> k then (Inr (), p\<lparr>pr_out := pr_out p @ bytes, pr_room := Some (k - length bytes)\<rparr>)
          else (Inl (AgentIo Broken), p\<lparr>pr_out := pr_out p @ take k bytes, pr_room := Some 0\<rparr>))"

definition exchange :: "string \<Rightarrow> peer \<Rightarrow> (agent_fault + string) \<times> peer" where
  "exchange body host =
     (case write_message body host of
        (Inl e, host) \<Rightarrow> (Inl e, host)
      | (Inr _, host) \<Rightarrow> read_message host)"

definition host_identities :: "peer \<Rightarrow> (agent_fault + identity list) \<times> peer" where
  "host_identities host =
     (case exchange [char_of REQUEST_IDENTITIES] host of
        (Inl e, host) \<Rightarrow> (Inl e, host)
      | (Inr reply, host) \<Rightarrow> (Inr (case parse_identities reply of Some ids \<Rightarrow> ids | None \<Rightarrow> []), host))"

section \<open>One request\<close>

text \<open>A connection: the grant, the helper where the user is asked (its answer may depend on how often
  it ran), the server the cage said it speaks to, the pushes to the ring and the questions put.\<close>

record conn =
  cn_allow :: "string list"
  cn_confirm :: "(nat \<Rightarrow> string \<Rightarrow> bool) option"
  cn_bound :: "string option"
  cn_log :: "(AgentKind \<times> string) list"
  cn_asked :: "(string \<times> bool) list"

definition Conn_new :: "string list \<Rightarrow> (nat \<Rightarrow> string \<Rightarrow> bool) option \<Rightarrow> conn" where
  "Conn_new allow confirm = \<lparr>cn_allow = allow, cn_confirm = confirm, cn_bound = None, cn_log = [], cn_asked = []\<rparr>"

definition push_log :: "AgentKind \<Rightarrow> string \<Rightarrow> conn \<Rightarrow> conn" where
  "push_log kd detail c = c\<lparr>cn_log := cn_log c @ [(kd, detail)]\<rparr>"

definition toward :: "conn \<Rightarrow> string" where
  "toward c = (case cn_bound c of Some fp \<Rightarrow> '' toward the server holding '' @ fp | None \<Rightarrow> [])"

definition confirm_prompt :: "string \<Rightarrow> string \<Rightarrow> string" where
  "confirm_prompt lb tw = ''sbx: the sandbox is asking to sign with '' @ sanitize_detail lb @ sanitize_detail tw @ ''.'' @ [LF, LF] @ ''Allow it?''"

text \<open>The user's answer, where the user is asked.\<close>

definition ask_user :: "string \<Rightarrow> conn \<Rightarrow> bool \<times> conn" where
  "ask_user prompt c =
     (case cn_confirm c of
        None \<Rightarrow> (True, c)
      | Some allows \<Rightarrow> (let a = allows (length (cn_asked c)) prompt in (a, c\<lparr>cn_asked := cn_asked c @ [(prompt, a)]\<rparr>)))"

definition refused_message_name :: "nat \<Rightarrow> string \<Rightarrow> string" where
  "refused_message_name kd payload =
     (if kd = EXTENSION then ''an extension the broker does not forward'' @ (if extension_name payload \<noteq> None then [] else '' (unnamed)'')
      else
        let what =
          (if kd \<in> {7, 17, 24, 25} then Some ''to add a key to your agent''
           else if kd \<in> {8, 18} then Some ''to remove a key from your agent''
           else if kd = 19 then Some ''to remove every key from your agent''
           else if kd = 9 then Some ''to remove every key from your agent (the SSH-1 spelling of the same command)''
           else if kd = 22 then Some ''to lock your agent''
           else if kd = 23 then Some ''to unlock your agent''
           else if kd \<in> {20, 21, 26} then Some ''to add or drop a smartcard in your agent''
           else None)
        in case what of
          Some w \<Rightarrow> ''an attempt '' @ w
        | None \<Rightarrow> ''a request of type '' @ fmt_nat 10 kd @ '', which the broker does not know'')"

definition respond_list :: "(string \<Rightarrow> string) \<Rightarrow> peer \<Rightarrow> conn \<Rightarrow> (agent_fault + string) \<times> peer \<times> conn" where
  "respond_list digest host c =
     (case host_identities host of
        (Inl e, host) \<Rightarrow> (Inl e, host, c)
      | (Inr ids, host) \<Rightarrow>
          let admitted = filter (filter_admits digest (cn_allow c)) ids; names = map (label digest) admitted in
          (Inr (identities_answer admitted), host,
           push_log AgentList (''offered '' @ (if names = [] then ''no key'' else join '', '' names) @ '' ('' @
             fmt_nat 10 (length ids - length admitted) @ '' withheld)'') c))"

text \<open>What becomes of the host's answer to a signature request.\<close>

definition sign_outcome :: "string \<Rightarrow> string \<Rightarrow> string \<Rightarrow> conn \<Rightarrow> string \<times> conn" where
  "sign_outcome lb tw reply c =
     (let none = (\<lambda>what. ([char_of FAILURE], push_log AgentRefuse (''your agent returned no signature for '' @ lb @ tw @
        '' (it answered with '' @ what @ '')'') c))
      in case reply of
        k # _ \<Rightarrow>
          if byte k = SIGN_RESPONSE then (reply, push_log AgentSign (lb @ tw) c)
          else if byte k = FAILURE then (reply, push_log AgentRefuse (''your agent declined to sign with '' @ lb @ tw) c)
          else none (''a message of type '' @ fmt_nat 10 (byte k))
      | [] \<Rightarrow> none ''an empty message'')"

definition respond_sign :: "(string \<Rightarrow> string) \<Rightarrow> string \<Rightarrow> string \<Rightarrow> peer \<Rightarrow> conn \<Rightarrow> (agent_fault + string) \<times> peer \<times> conn" where
  "respond_sign digest request payload host c =
     (let refused = [char_of FAILURE] in
      case sign_request_key payload of
        None \<Rightarrow> (Inr refused, host, push_log AgentRefuse ''a malformed signature request'' c)
      | Some blob \<Rightarrow>
          (case host_identities host of
             (Inl e, host) \<Rightarrow> (Inl e, host, c)
           | (Inr ids, host) \<Rightarrow>
               (case List.find (\<lambda>key. id_blob key = blob \<and> filter_admits digest (cn_allow c) key) ids of
                  None \<Rightarrow> (Inr refused, host, push_log AgentRefuse (''a signature with a key the grant does not name'' @ toward c) c)
                | Some key \<Rightarrow>
                    let lb = label digest key; tw = toward c; (allowed, c) = ask_user (confirm_prompt lb tw) c in
                    if \<not> allowed then
                      (Inr refused, host, push_log AgentRefuse (''you declined to let the cage sign with '' @ lb @ tw) c)
                    else
                      (case exchange request host of
                         (Inl e, host) \<Rightarrow> (Inl e, host, c)
                       | (Inr reply, host) \<Rightarrow> (case sign_outcome lb tw reply c of (r, c) \<Rightarrow> (Inr r, host, c))))))"

definition respond :: "(string \<Rightarrow> string) \<Rightarrow> string \<Rightarrow> peer \<Rightarrow> conn \<Rightarrow> (agent_fault + string) \<times> peer \<times> conn" where
  "respond digest request host c =
     (let refused = [char_of FAILURE] in
      case request of
        [] \<Rightarrow> (Inr refused, host, push_log AgentRefuse ''an empty request'' c)
      | k # payload \<Rightarrow>
          if byte k = REQUEST_IDENTITIES \<and> payload = [] then respond_list digest host c
          else if byte k = SIGN_REQUEST then respond_sign digest request payload host c
          else if byte k = EXTENSION \<and> extension_name payload = Some SESSION_BIND then
            (case exchange request host of (res, host) \<Rightarrow> (res, host, c\<lparr>cn_bound := session_bind_host_key digest payload\<rparr>))
          else (Inr refused, host, push_log AgentRefuse (refused_message_name (byte k) payload) c))"

section \<open>One connection\<close>

definition host_failed :: "(agent_fault \<Rightarrow> string) \<Rightarrow> agent_fault \<Rightarrow> peer \<Rightarrow> conn \<Rightarrow> peer \<times> conn" where
  "host_failed show_fault e cage c =
     (snd (write_message [char_of FAILURE] cage),
      push_log AgentRefuse (''a request your own agent could not be asked ('' @ show_fault e @ '')'') c)"

lemma to_be_be_bytes: "to_be (length s) (be_bytes s) = s"
proof (induction s rule: rev_induct)
  case (snoc x s)
  have "(be_bytes s * 256 + byte x) div 256 = be_bytes s" "(be_bytes s * 256 + byte x) mod 256 = byte x"
    using byte_less [of x] by simp_all
  then show ?case using snoc by (simp add: be_bytes_snoc)
qed (simp add: be_bytes_def)

lemma read_exact_takes:
  assumes "read_exact n r = (res, r')"
  shows "\<exists>d. contents r = d @ contents r' \<and> length d \<le> n \<and> (\<forall>x. res = Inr x \<longrightarrow> d = x \<and> length x = n)"
proof -
  obtain d ok where f: "fill n r = (d, ok, r')" using assms by (auto simp: read_exact_def Let_def split: prod.splits)
  show ?thesis using fill_contents [OF f] assms f by (intro exI [of _ d]) (auto simp: read_exact_def split: if_splits)
qed

definition frame :: "string \<Rightarrow> string" where
  "frame body = to_be 4 (length body) @ body"

lemma read_message_takes:
  assumes "read_message p = (res, p')"
  shows "\<exists>d. contents (pr_in p) = d @ contents (pr_in p') \<and> pr_out p' = pr_out p \<and> pr_room p' = pr_room p \<and>
    (\<forall>body. res = Inr body \<longrightarrow> d = frame body \<and> 0 < length body \<and> length body \<le> MAX_MESSAGE)"
proof (cases "read_exact 4 (pr_in p)")
  case x: (Pair x r)
  obtain h where h: "contents (pr_in p) = h @ contents r" "\<forall>y. x = Inr y \<longrightarrow> h = y \<and> length y = 4"
    using read_exact_takes [OF x] by metis
  show ?thesis
  proof (cases x)
    case (Inl e)
    then have "res = Inl (AgentIo e)" "p' = p\<lparr>pr_in := r\<rparr>" using assms unfolding read_message_def x by simp_all
    then show ?thesis using h(1) by simp
  next
    case (Inr len)
    have l: "to_be 4 (be_bytes len) = len" "h = len" using h(2) Inr to_be_be_bytes [of len] by simp_all
    show ?thesis
    proof (cases "be_bytes len = 0 \<or> MAX_MESSAGE < be_bytes len")
      case True
      then have "res = Inl FrameOutOfRange" "p' = p\<lparr>pr_in := r\<rparr>" using assms unfolding read_message_def x Inr by (simp_all add: Let_def)
      then show ?thesis using h(1) by simp
    next
      case False
      show ?thesis
      proof (cases "read_exact (be_bytes len) r")
        case y: (Pair y r')
        obtain b where b: "contents r = b @ contents r'" "\<forall>z. y = Inr z \<longrightarrow> b = z \<and> length z = be_bytes len"
          using read_exact_takes [OF y] by metis
        have e: "res = (case y of Inl e \<Rightarrow> Inl (AgentIo e) | Inr z \<Rightarrow> Inr z)" "p' = p\<lparr>pr_in := r'\<rparr>"
          using assms False unfolding read_message_def x Inr by (cases y; simp add: y)+
        show ?thesis
        proof (cases y)
          case (Inl e)
          then show ?thesis using h(1) b(1) \<open>res = _\<close> \<open>p' = _\<close> by simp
        next
          case (Inr z)
          then have "h @ b = frame z" using l b(2) by (simp add: frame_def)
          then show ?thesis using h(1) b \<open>res = _\<close> \<open>p' = _\<close> Inr False by auto
        qed
      qed
    qed
  qed
qed

lemma cage_shrinks:
  assumes "write_message reply cage = (Inr u, cage')" "read_message cage' = (Inr request, cage'')"
  shows "length (contents (pr_in cage'')) < length (contents (pr_in cage))"
proof -
  have "pr_in cage' = pr_in cage" using assms(1) by (auto simp: write_message_def Let_def split: option.splits if_splits)
  then show ?thesis using read_message_takes [OF assms(2)] by (auto simp: frame_def)
qed

text \<open>\<open>serve_conn\<close>'s loop, after its first request was read.\<close>

function serve_loop ::
  "(string \<Rightarrow> string) \<Rightarrow> (agent_fault \<Rightarrow> string) \<Rightarrow> string \<Rightarrow> peer \<Rightarrow> peer \<Rightarrow> conn \<Rightarrow> peer \<times> peer \<times> conn" where
  "serve_loop digest show_fault request cage host c =
     (case respond digest request host c of
        (Inl e, host, c) \<Rightarrow> (case host_failed show_fault e cage c of (cage, c) \<Rightarrow> (cage, host, c))
      | (Inr reply, host, c) \<Rightarrow>
          (case write_message reply cage of
             (Inl _, cage) \<Rightarrow> (cage, host, c)
           | (Inr _, cage) \<Rightarrow>
               (case read_message cage of
                  (Inl _, cage) \<Rightarrow> (cage, host, c)
                | (Inr request, cage) \<Rightarrow> serve_loop digest show_fault request cage host c)))"
  by pat_completeness auto
termination
proof (relation "measure (\<lambda>(digest, show_fault, request, cage, host, c). length (contents (pr_in cage)))", goal_cases)
  case (2 digest show_fault request cage host c res rest reply host' c' w cage' u q cage'' request')
  then have "write_message reply cage = (Inr u, cage')" "read_message cage' = (Inr request', cage'')" by metis+
  then show ?case using cage_shrinks by simp
qed simp

text \<open>The whole connection. Where the first request does not come, the broker says so if the cage sent
  nothing in time (\<open>timed_out\<close>, the error's kind) or the deadline passed meanwhile (\<open>late\<close>). The host's
  agent is dialled behind it.\<close>

definition serve_conn ::
  "(string \<Rightarrow> string) \<Rightarrow> (agent_fault \<Rightarrow> string) \<Rightarrow> bool \<Rightarrow> bool \<Rightarrow> peer \<Rightarrow> agent_fault + peer \<Rightarrow> string list \<Rightarrow>
    (nat \<Rightarrow> string \<Rightarrow> bool) option \<Rightarrow> peer \<times> peer option \<times> conn" where
  "serve_conn digest show_fault timed_out late cage dialled allow confirm =
     (let c = Conn_new allow confirm in
      case read_message cage of
        (Inl _, cage) \<Rightarrow>
          (cage, None,
           if timed_out then push_log AgentRefuse ''a connection that asked for nothing within the broker's deadline'' c
           else if late then push_log AgentRefuse
             ''a connection that did not finish its first request within the broker's deadline'' c
           else c)
      | (Inr request, cage) \<Rightarrow>
          (case dialled of
             Inl e \<Rightarrow> (case host_failed show_fault e cage c of (cage, c) \<Rightarrow> (cage, None, c))
           | Inr host \<Rightarrow> (case serve_loop digest show_fault request cage host c of (cage, host, c) \<Rightarrow> (cage, Some host, c))))"

text \<open>What a grant amounts to on this host: the labels admitted, and how many keys are withheld.\<close>

definition admit :: "(string \<Rightarrow> string) \<Rightarrow> string list \<Rightarrow> peer \<Rightarrow> (agent_fault + string list \<times> nat) \<times> peer" where
  "admit digest allow host =
     (case host_identities host of
        (Inl e, host) \<Rightarrow> (Inl e, host)
      | (Inr ids, host) \<Rightarrow>
          (Inr (map (\<lambda>key. sanitize_detail (label digest key)) (filter (filter_admits digest allow) ids),
             length (filter (\<lambda>key. \<not> filter_admits digest allow key) ids)), host))"

text \<open>Whether the launch asks the user of each signature, and with which helper.\<close>

datatype Confirmation = NotAsked | Prompt string | NoHelper

fun confirmation_helper :: "Confirmation \<Rightarrow> string option" where
  "confirmation_helper (Prompt path) = Some path"
| "confirmation_helper NotAsked = None"
| "confirmation_helper NoHelper = None"

definition confirmation :: "bool \<Rightarrow> string option \<Rightarrow> Confirmation" where
  "confirmation asked askpass =
     (if \<not> asked then NotAsked else case askpass of Some helper \<Rightarrow> Prompt helper | None \<Rightarrow> NoHelper)"

section \<open>What a peer was told\<close>

text \<open>The messages a source holds, at any place.\<close>

definition heard :: "peer \<Rightarrow> string set" where
  "heard p = {m. sublist (frame m) (contents (pr_in p))}"

text \<open>Between two states a peer was told messages that satisfy \<open>P\<close>, the last of them perhaps cut where
  it stopped taking bytes.\<close>

definition told :: "(string \<Rightarrow> bool) \<Rightarrow> peer \<Rightarrow> peer \<Rightarrow> bool" where
  "told P p p' \<longleftrightarrow>
     (\<exists>ms rest. pr_out p' = pr_out p @ concat (map frame ms) @ rest \<and> list_all P ms \<and>
        (rest = [] \<or> pr_room p' = Some 0 \<and> (\<exists>m. P m \<and> prefix rest (frame m)))) \<and>
     (pr_room p = Some 0 \<longrightarrow> pr_out p' = pr_out p \<and> pr_room p' = Some 0)"

lemma told_refl: "pr_out p' = pr_out p \<Longrightarrow> pr_room p' = pr_room p \<Longrightarrow> told P p p'"
  unfolding told_def by (intro conjI exI [of _ "[]"]) simp_all

lemma told_trans:
  assumes "told P p q" "told P q r"
  shows "told P p r"
proof -
  obtain ms rest where 1: "pr_out q = pr_out p @ concat (map frame ms) @ rest" "list_all P ms"
    "rest = [] \<or> pr_room q = Some 0 \<and> (\<exists>m. P m \<and> prefix rest (frame m))"
    using assms(1) unfolding told_def by blast
  obtain ns rest' where 2: "pr_out r = pr_out q @ concat (map frame ns) @ rest'" "list_all P ns"
    "rest' = [] \<or> pr_room r = Some 0 \<and> (\<exists>m. P m \<and> prefix rest' (frame m))"
    using assms(2) unfolding told_def by blast
  have s: "pr_room p = Some 0 \<longrightarrow> pr_out r = pr_out p \<and> pr_room r = Some 0" "pr_room q = Some 0 \<longrightarrow> pr_out r = pr_out q \<and> pr_room r = Some 0"
    using assms unfolding told_def by simp_all
  show ?thesis
  proof (cases "rest = []")
    case True
    then have "pr_out r = pr_out p @ concat (map frame (ms @ ns)) @ rest'" "list_all P (ms @ ns)" using 1 2 by simp_all
    then show ?thesis unfolding told_def using 2(3) s(1) by blast
  next
    case False
    then have "pr_out r = pr_out p @ concat (map frame ms) @ rest" "pr_room r = Some 0" using 1 s(2) by simp_all
    then show ?thesis unfolding told_def using 1(2,3) s(1) by blast
  qed
qed

lemma told_mono:
  assumes "told P p q" "\<And>m. P m \<Longrightarrow> Q m"
  shows "told Q p q"
proof -
  obtain ms rest where 1: "pr_out q = pr_out p @ concat (map frame ms) @ rest" "list_all P ms"
    "rest = [] \<or> pr_room q = Some 0 \<and> (\<exists>m. P m \<and> prefix rest (frame m))"
    using assms(1) unfolding told_def by blast
  then have "list_all Q ms" "rest = [] \<or> pr_room q = Some 0 \<and> (\<exists>m. Q m \<and> prefix rest (frame m))"
    using assms(2) by (auto simp: list_all_iff)
  then show ?thesis using 1(1) assms(1) unfolding told_def by blast
qed

lemma write_tells:
  assumes "write_message m p = (res, p')" "P m"
  shows "told P p p' \<and> pr_in p' = pr_in p"
proof -
  have ne: "0 < length (frame m)" by (simp add: frame_def)
  consider "pr_out p' = pr_out p @ frame m" "pr_in p' = pr_in p" "pr_room p \<noteq> Some 0"
    | k where "pr_out p' = pr_out p @ take k (frame m)" "pr_in p' = pr_in p" "pr_room p = Some k" "pr_room p' = Some 0"
    using assms(1) ne by (fastforce simp: write_message_def Let_def frame_def split: option.splits if_splits)
  then show ?thesis
  proof cases
    case 1
    then show ?thesis unfolding told_def using assms(2) by (intro conjI exI [of _ "[m]"] exI [of _ "[]"]) simp_all
  next
    case (2 k)
    have "prefix (take k (frame m)) (frame m)" by (rule take_is_prefix)
    then show ?thesis unfolding told_def using 2 assms(2) by (intro conjI exI [of _ "[]"] exI [of _ "take k (frame m)"]) auto
  qed
qed

lemma exchange_tells:
  assumes "exchange m p = (res, p')" "P m"
  shows "told P p p' \<and> (\<exists>d. contents (pr_in p) = d @ contents (pr_in p') \<and> (\<forall>r. res = Inr r \<longrightarrow> d = frame r \<and> length r \<le> MAX_MESSAGE))"
proof -
  obtain w q where w: "write_message m p = (w, q)" by force
  note t = write_tells [OF w, of P, OF assms(2)]
  show ?thesis
  proof (cases w)
    case (Inl e)
    then have "res = Inl e" "p' = q" using assms(1) w by (simp_all add: exchange_def)
    then show ?thesis using t by simp
  next
    case (Inr u)
    then have "read_message q = (res, p')" using assms(1) w by (simp add: exchange_def)
    note r = read_message_takes [OF this]
    have "told P q p'" using r by (intro told_refl) blast+
    then have "told P p p'" using t told_trans by blast
    moreover have "pr_in q = pr_in p" using t by blast
    ultimately show ?thesis using r by metis
  qed
qed

text \<open>The keys a reply lists.\<close>

definition listed :: "string \<Rightarrow> identity list" where
  "listed reply = (case parse_identities reply of Some ids \<Rightarrow> ids | None \<Rightarrow> [])"

lemma identities_tells:
  assumes "host_identities p = (res, p')" "P [char_of REQUEST_IDENTITIES]"
  shows "told P p p' \<and> (\<exists>d. contents (pr_in p) = d @ contents (pr_in p') \<and>
    (\<forall>ids. res = Inr ids \<longrightarrow> (\<exists>r. d = frame r \<and> length r \<le> MAX_MESSAGE \<and> ids = listed r)))"
proof -
  obtain x q where x: "exchange [char_of REQUEST_IDENTITIES] p = (x, q)" by force
  note t = exchange_tells [OF x, of P, OF assms(2)]
  show ?thesis
  proof (cases x)
    case (Inl e)
    then have "res = Inl e" "p' = q" using assms(1) x by (simp_all add: host_identities_def)
    then show ?thesis using t by auto
  next
    case (Inr r)
    then have "res = Inr (listed r)" "p' = q" using assms(1) x by (simp_all add: host_identities_def listed_def)
    then show ?thesis using t Inr by auto
  qed
qed

section \<open>What the host's agent is asked\<close>

text \<open>The requests the grant covers: the listing, the binding of a session, and a signature with a key
  that a listing the host sent names and the grant filter_admits, to which the user agreed where the user is
  asked.\<close>

definition granted :: "(string \<Rightarrow> string) \<Rightarrow> string list \<Rightarrow> bool \<Rightarrow> string set \<Rightarrow> (string \<times> bool) set \<Rightarrow> string \<Rightarrow> bool" where
  "granted digest allow asks replies asked m \<longleftrightarrow>
     m = [char_of REQUEST_IDENTITIES] \<or>
     (\<exists>payload. m = char_of EXTENSION # payload \<and> extension_name payload = Some SESSION_BIND) \<or>
     (\<exists>payload blob reply key. m = char_of SIGN_REQUEST # payload \<and> sign_request_key payload = Some blob \<and>
        reply \<in> replies \<and> key \<in> set (listed reply) \<and> id_blob key = blob \<and> filter_admits digest allow key \<and>
        (asks \<longrightarrow> (\<exists>tw. (confirm_prompt (label digest key) tw, True) \<in> asked)))"

lemma granted_mono: "granted digest allow asks replies asked m \<Longrightarrow> asked \<subseteq> asked' \<Longrightarrow> granted digest allow asks replies asked' m"
  unfolding granted_def by blast

text \<open>What a request is answered with, given what the host sent.\<close>

definition answers :: "(string \<Rightarrow> string) \<Rightarrow> string list \<Rightarrow> string set \<Rightarrow> string \<Rightarrow> string \<Rightarrow> bool" where
  "answers digest allow replies request r \<longleftrightarrow>
     r = [char_of FAILURE] \<or>
     (request = [char_of REQUEST_IDENTITIES] \<and>
        (\<exists>reply \<in> replies. length reply \<le> MAX_MESSAGE \<and> r = identities_answer (filter (filter_admits digest allow) (listed reply)))) \<or>
     (r \<in> replies \<and> (\<exists>k payload. request = k # payload \<and>
        (byte k = SIGN_REQUEST \<and> r \<noteq> [] \<and> byte (hd r) \<in> {SIGN_RESPONSE, FAILURE} \<or>
         byte k = EXTENSION \<and> extension_name payload = Some SESSION_BIND)))"

lemma suffix_heard: "contents (pr_in p) = d @ contents (pr_in p') \<Longrightarrow> heard p' \<subseteq> heard p"
  unfolding heard_def by (auto intro: sublist_order.order_trans)

lemma frame_heard: "contents (pr_in p) = frame m @ x \<Longrightarrow> m \<in> heard p"
  unfolding heard_def by simp

lemma char_of_byte: "byte k = n \<Longrightarrow> k = char_of n"
  by auto

text \<open>The contract of one step of a connection.\<close>

definition kept :: "(string \<Rightarrow> string) \<Rightarrow> peer \<Rightarrow> conn \<Rightarrow> peer \<Rightarrow> conn \<Rightarrow> bool" where
  "kept digest host c host' c' \<longleftrightarrow>
     told (granted digest (cn_allow c) (cn_confirm c \<noteq> None) (heard host) (set (cn_asked c'))) host host' \<and>
     heard host' \<subseteq> heard host \<and> cn_allow c' = cn_allow c \<and> cn_confirm c' = cn_confirm c \<and> set (cn_asked c) \<subseteq> set (cn_asked c')"

lemma ask_user_kept:
  "ask_user prompt c = (a, c') \<Longrightarrow> cn_allow c' = cn_allow c \<and> cn_confirm c' = cn_confirm c \<and> set (cn_asked c) \<subseteq> set (cn_asked c') \<and>
    cn_bound c' = cn_bound c \<and> (a \<longrightarrow> cn_confirm c \<noteq> None \<longrightarrow> (prompt, True) \<in> set (cn_asked c'))"
  by (auto simp: ask_user_def Let_def split: option.splits)

lemma push_log_simps [simp]:
  "cn_allow (push_log kd d c) = cn_allow c" "cn_confirm (push_log kd d c) = cn_confirm c" "cn_asked (push_log kd d c) = cn_asked c"
  by (simp_all add: push_log_def)

lemma respond_list_kept:
  assumes "respond_list digest host c = (res, host', c')"
  shows "kept digest host c host' c' \<and>
    (\<forall>r. res = Inr r \<longrightarrow> answers digest (cn_allow c) (heard host) [char_of REQUEST_IDENTITIES] r)"
proof -
  obtain x q where x: "host_identities host = (x, q)" by force
  have "granted digest (cn_allow c) (cn_confirm c \<noteq> None) (heard host) (set (cn_asked c')) [char_of REQUEST_IDENTITIES]"
    by (simp add: granted_def)
  note t = identities_tells [OF x, of "granted digest (cn_allow c) (cn_confirm c \<noteq> None) (heard host) (set (cn_asked c'))", OF this]
  then obtain d where d: "contents (pr_in host) = d @ contents (pr_in q)"
    "\<forall>ids. x = Inr ids \<longrightarrow> (\<exists>r. d = frame r \<and> length r \<le> MAX_MESSAGE \<and> ids = listed r)" by blast
  have q: "host' = q" "cn_allow c' = cn_allow c" "cn_confirm c' = cn_confirm c" "cn_asked c' = cn_asked c"
    using assms x by (auto simp: respond_list_def Let_def split: sum.splits)
  have k: "kept digest host c host' c'" unfolding kept_def q using t suffix_heard [OF d(1)] q by simp
  have "answers digest (cn_allow c) (heard host) [char_of REQUEST_IDENTITIES] r" if "res = Inr r" for r
  proof -
    note rr = that
    obtain ids where ids: "x = Inr ids" "r = identities_answer (filter (filter_admits digest (cn_allow c)) ids)"
      using assms x rr by (cases x) (auto simp: respond_list_def Let_def)
    then obtain reply where "d = frame reply" "length reply \<le> MAX_MESSAGE" "ids = listed reply" using d(2) by blast
    moreover have "reply \<in> heard host" using frame_heard d(1) \<open>d = frame reply\<close> by blast
    ultimately show ?thesis unfolding answers_def ids(2) by blast
  qed
  with k show ?thesis by blast
qed

lemma sign_outcome_kept:
  assumes "sign_outcome lb tw reply c = (r, c')"
  shows "cn_allow c' = cn_allow c \<and> cn_confirm c' = cn_confirm c \<and> cn_asked c' = cn_asked c \<and>
    (r = [char_of FAILURE] \<or> r = reply \<and> r \<noteq> [] \<and> byte (hd r) \<in> {SIGN_RESPONSE, FAILURE})"
  using assms by (cases reply) (auto simp: sign_outcome_def Let_def split: if_splits)

text \<open>The ways a signature request can go.\<close>

lemma respond_sign_cases:
  assumes "respond_sign digest request payload host c = (res, host', c')"
  obtains (malformed) "res = Inr [char_of FAILURE]" "host' = host"
      "cn_allow c' = cn_allow c" "cn_confirm c' = cn_confirm c" "cn_asked c' = cn_asked c"
  | (unsigned) x where "host_identities host = (x, host')" "\<forall>r. res = Inr r \<longrightarrow> r = [char_of FAILURE]"
      "cn_allow c' = cn_allow c" "cn_confirm c' = cn_confirm c" "set (cn_asked c) \<subseteq> set (cn_asked c')"
  | (asked) blob ids q key c1 y where "sign_request_key payload = Some blob" "host_identities host = (Inr ids, q)"
      "key \<in> set ids" "id_blob key = blob" "filter_admits digest (cn_allow c) key"
      "ask_user (confirm_prompt (label digest key) (toward c)) c = (True, c1)" "exchange request q = (y, host')"
      "\<exists>lb tw. case y of Inl e \<Rightarrow> res = Inl e \<and> c' = c1 | Inr reply \<Rightarrow> \<exists>r. sign_outcome lb tw reply c1 = (r, c') \<and> res = Inr r"
proof (cases "sign_request_key payload")
  case None
  then have "(res, host', c') = (Inr [char_of FAILURE], host, push_log AgentRefuse ''a malformed signature request'' c)"
    unfolding assms [symmetric] respond_sign_def Let_def by simp
  then show ?thesis by (intro malformed) simp_all
next
  case (Some blob)
  obtain x q where x: "host_identities host = (x, q)" by force
  show ?thesis
  proof (cases x)
    case (Inl e)
    have "(res, host', c') = (Inl e, q, c)" unfolding assms [symmetric] respond_sign_def Let_def Some option.case x Inl by simp
    then show ?thesis using x by (intro unsigned [of x]) simp_all
  next
    case (Inr ids)
    show ?thesis
    proof (cases "List.find (\<lambda>key. id_blob key = blob \<and> filter_admits digest (cn_allow c) key) ids")
      case None
      have "(res, host', c') =
          (Inr [char_of FAILURE], q, push_log AgentRefuse (''a signature with a key the grant does not name'' @ toward c) c)"
        unfolding assms [symmetric] respond_sign_def Let_def Some option.case x Inr sum.case prod.case None by simp
      then show ?thesis using x by (intro unsigned [of x]) simp_all
    next
      case key: (Some key)
      obtain a c1 where a: "ask_user (confirm_prompt (label digest key) (toward c)) c = (a, c1)" by force
      show ?thesis
      proof (cases a)
        case False
        have "(res, host', c') = (Inr [char_of FAILURE], q,
            push_log AgentRefuse (''you declined to let the cage sign with '' @ label digest key @ toward c) c1)"
          using False unfolding assms [symmetric] respond_sign_def Let_def Some option.case x Inr sum.case prod.case key a by simp
        then show ?thesis using x ask_user_kept [OF a] by (intro unsigned [of x]) simp_all
      next
        case True
        obtain y q' where y: "exchange request q = (y, q')" by force
        have r: "(res, host', c') = (case y of Inl e \<Rightarrow> (Inl e, q', c1)
             | Inr reply \<Rightarrow> (case sign_outcome (label digest key) (toward c) reply c1 of (r, c) \<Rightarrow> (Inr r, q', c)))"
          using True unfolding assms [symmetric] respond_sign_def Let_def Some option.case x Inr sum.case prod.case key a y by simp
        have "host' = q'" using r by (cases y) (auto split: prod.splits)
        moreover have "case y of Inl e \<Rightarrow> res = Inl e \<and> c' = c1
            | Inr reply \<Rightarrow> \<exists>r. sign_outcome (label digest key) (toward c) reply c1 = (r, c') \<and> res = Inr r"
          using r by (cases y) (auto split: prod.splits)
        moreover have "key \<in> set ids" "id_blob key = blob" "filter_admits digest (cn_allow c) key" using key by (auto dest: find_SomeD)
        moreover have "host_identities host = (Inr ids, q)" using x Inr by simp
        moreover have "ask_user (confirm_prompt (label digest key) (toward c)) c = (True, c1)" using a True by simp
        ultimately show ?thesis using y by (intro asked [of blob ids q key c1 y]) (simp_all add: Some, blast)
      qed
    qed
  qed
qed

lemma respond_sign_kept:
  assumes "respond_sign digest (char_of SIGN_REQUEST # payload) payload host c = (res, host', c')"
  shows "kept digest host c host' c' \<and>
    (\<forall>r. res = Inr r \<longrightarrow> answers digest (cn_allow c) (heard host) (char_of SIGN_REQUEST # payload) r)"
  using assms
proof (cases rule: respond_sign_cases)
  case malformed
  then show ?thesis using told_refl [of host host] by (simp add: kept_def answers_def)
next
  case (unsigned x)
  have "granted digest (cn_allow c) (cn_confirm c \<noteq> None) (heard host) (set (cn_asked c')) [char_of REQUEST_IDENTITIES]"
    by (simp add: granted_def)
  note t = identities_tells [OF unsigned(1), of "granted digest (cn_allow c) (cn_confirm c \<noteq> None) (heard host) (set (cn_asked c'))", OF this]
  then have "heard host' \<subseteq> heard host" using suffix_heard by blast
  then show ?thesis using t unsigned(2-) by (simp add: kept_def answers_def)
next
  case (asked blob ids q key c1 y)
  let ?P = "granted digest (cn_allow c) (cn_confirm c \<noteq> None) (heard host) (set (cn_asked c'))"
  note ak = ask_user_kept [OF asked(6)]
  have c': "cn_allow c' = cn_allow c1" "cn_confirm c' = cn_confirm c1" "cn_asked c' = cn_asked c1"
    and r: "\<And>r. res = Inr r \<Longrightarrow> r = [char_of FAILURE] \<or> y = Inr r \<and> r \<noteq> [] \<and> byte (hd r) \<in> {SIGN_RESPONSE, FAILURE}"
  proof -
    have "cn_allow c' = cn_allow c1 \<and> cn_confirm c' = cn_confirm c1 \<and> cn_asked c' = cn_asked c1 \<and>
        (\<forall>r. res = Inr r \<longrightarrow> r = [char_of FAILURE] \<or> y = Inr r \<and> r \<noteq> [] \<and> byte (hd r) \<in> {SIGN_RESPONSE, FAILURE})"
    proof (cases y)
      case (Inl e)
      then show ?thesis using asked(8) by simp
    next
      case (Inr reply)
      then obtain lb tw r where o: "sign_outcome lb tw reply c1 = (r, c')" "res = Inr r" using asked(8) by auto
      then show ?thesis using sign_outcome_kept [OF o(1)] Inr by auto
    qed
    then show "cn_allow c' = cn_allow c1" "cn_confirm c' = cn_confirm c1" "cn_asked c' = cn_asked c1"
      "\<And>r. res = Inr r \<Longrightarrow> r = [char_of FAILURE] \<or> y = Inr r \<and> r \<noteq> [] \<and> byte (hd r) \<in> {SIGN_RESPONSE, FAILURE}" by blast+
  qed
  have "?P [char_of REQUEST_IDENTITIES]" by (simp add: granted_def)
  note t = identities_tells [OF asked(2), of ?P, OF this]
  then obtain reply where reply: "contents (pr_in host) = frame reply @ contents (pr_in q)" "ids = listed reply" by blast
  note sub = suffix_heard [OF reply(1)]
  have "cn_confirm c \<noteq> None \<longrightarrow> (\<exists>tw. (confirm_prompt (label digest key) tw, True) \<in> set (cn_asked c'))" using ak c'(3) by auto
  then have "?P (char_of SIGN_REQUEST # payload)"
    unfolding granted_def using asked(1,3-5) frame_heard [OF reply(1)] reply(2)
    by (intro disjI2 exI [of _ payload] exI [of _ blob] exI [of _ reply] exI [of _ key]) simp
  note t2 = exchange_tells [OF asked(7), of ?P, OF this]
  then obtain d where d: "contents (pr_in q) = d @ contents (pr_in host')" "\<forall>r. y = Inr r \<longrightarrow> d = frame r" by blast
  have "told ?P host host'" using t t2 told_trans by blast
  then have k: "kept digest host c host' c'" unfolding kept_def using c' sub suffix_heard [OF d(1)] ak by auto
  have "answers digest (cn_allow c) (heard host) (char_of SIGN_REQUEST # payload) r" if "res = Inr r" for r
  proof -
    have "r \<in> heard host" if "y = Inr r" using that d sub frame_heard by blast
    moreover have "byte (char_of SIGN_REQUEST) = SIGN_REQUEST" by (simp add: SIGN_REQUEST_def)
    ultimately show ?thesis unfolding answers_def using r [OF that] by blast
  qed
  with k show ?thesis by blast
qed

lemma respond_kept:
  assumes "respond digest request host c = (res, host', c')"
  shows "kept digest host c host' c' \<and> (\<forall>r. res = Inr r \<longrightarrow> answers digest (cn_allow c) (heard host) request r)"
proof (cases request)
  case Nil
  then show ?thesis using assms told_refl [of host host] by (auto simp: respond_def kept_def answers_def)
next
  case (Cons k payload)
  consider (listing) "byte k = REQUEST_IDENTITIES" "payload = []" | (sign) "byte k = SIGN_REQUEST"
    | (bind) "byte k = EXTENSION" "extension_name payload = Some SESSION_BIND"
    | (other) "\<not> (byte k = REQUEST_IDENTITIES \<and> payload = [])" "byte k \<noteq> SIGN_REQUEST"
        "\<not> (byte k = EXTENSION \<and> extension_name payload = Some SESSION_BIND)" by blast
  then show ?thesis
  proof cases
    case listing
    then have "respond_list digest host c = (res, host', c')" using assms Cons by (simp add: respond_def Let_def)
    moreover have "request = [char_of REQUEST_IDENTITIES]" using Cons listing char_of_byte by blast
    ultimately show ?thesis using respond_list_kept by blast
  next
    case sign
    then have k: "k = char_of SIGN_REQUEST" using char_of_byte by blast
    have "respond_sign digest request payload host c = (res, host', c')"
      using assms sign by (simp add: respond_def Let_def Cons REQUEST_IDENTITIES_def SIGN_REQUEST_def)
    then show ?thesis using respond_sign_kept unfolding Cons k by blast
  next
    case bind
    then have k: "k = char_of EXTENSION" using char_of_byte by blast
    obtain x q where x: "exchange request host = (x, q)" by force
    have e: "res = x" "host' = q" "c' = c\<lparr>cn_bound := session_bind_host_key digest payload\<rparr>"
      using assms bind x by (simp_all add: respond_def Let_def Cons REQUEST_IDENTITIES_def SIGN_REQUEST_def EXTENSION_def)
    have "granted digest (cn_allow c) (cn_confirm c \<noteq> None) (heard host) (set (cn_asked c')) request"
      unfolding granted_def Cons k using bind(2) by blast
    note t = exchange_tells [OF x, of "granted digest (cn_allow c) (cn_confirm c \<noteq> None) (heard host) (set (cn_asked c'))", OF this]
    then obtain d where d: "contents (pr_in host) = d @ contents (pr_in q)" "\<forall>r. x = Inr r \<longrightarrow> d = frame r" by blast
    then have "answers digest (cn_allow c) (heard host) request r" if "res = Inr r" for r
      unfolding answers_def using that e(1) frame_heard bind Cons by blast
    then show ?thesis using t suffix_heard [OF d(1)] by (simp add: kept_def e)
  next
    case other
    then have "res = Inr [char_of FAILURE]" "host' = host" "c' = push_log AgentRefuse (refused_message_name (byte k) payload) c"
      using assms by (auto simp: respond_def Let_def Cons split: if_splits)
    then show ?thesis using told_refl [of host host] by (simp add: kept_def answers_def)
  qed
qed

section \<open>A whole connection\<close>

lemma granted_wider:
  "granted digest allow asks replies asked m \<Longrightarrow> replies \<subseteq> replies' \<Longrightarrow> asked \<subseteq> asked' \<Longrightarrow> granted digest allow asks replies' asked' m"
  unfolding granted_def by blast

lemma answers_wider: "answers digest allow replies q r \<Longrightarrow> replies \<subseteq> replies' \<Longrightarrow> answers digest allow replies' q r"
  unfolding answers_def by blast

text \<open>What the cage may be told: a refusal, or the answer to a request it sent.\<close>

definition answered :: "(string \<Rightarrow> string) \<Rightarrow> string list \<Rightarrow> string set \<Rightarrow> string set \<Rightarrow> string \<Rightarrow> bool" where
  "answered digest allow replies requests r \<longleftrightarrow> r = [char_of FAILURE] \<or> (\<exists>q \<in> requests. answers digest allow replies q r)"

lemma answered_wider:
  "answered digest allow replies requests r \<Longrightarrow> replies \<subseteq> replies' \<Longrightarrow> requests \<subseteq> requests' \<Longrightarrow> answered digest allow replies' requests' r"
  unfolding answered_def using answers_wider by blast

lemma host_failed_kept:
  assumes "host_failed show_fault e cage c = (cage', c')"
  shows "told (answered digest allow replies requests) cage cage' \<and> cn_allow c' = cn_allow c \<and> cn_confirm c' = cn_confirm c \<and> cn_asked c' = cn_asked c"
proof -
  obtain w where w: "write_message [char_of FAILURE] cage = (w, cage')"
    using assms by (cases "write_message [char_of FAILURE] cage") (simp add: host_failed_def)
  have "answered digest allow replies requests [char_of FAILURE]" by (simp add: answered_def)
  note t = write_tells [OF w, of "answered digest allow replies requests", OF this]
  moreover have "c' = push_log AgentRefuse (''a request your own agent could not be asked ('' @ show_fault e @ '')'') c"
    using assms by (simp add: host_failed_def)
  ultimately show ?thesis by simp
qed

lemma serve_loop_kept:
  assumes "serve_loop digest show_fault request cage host c = (cage', host', c')"
  shows "told (granted digest (cn_allow c) (cn_confirm c \<noteq> None) (heard host) (set (cn_asked c'))) host host' \<and>
    told (answered digest (cn_allow c) (heard host) (insert request (heard cage))) cage cage' \<and> set (cn_asked c) \<subseteq> set (cn_asked c')"
  using assms
proof (induction digest show_fault request cage host c rule: serve_loop.induct)
  case (1 digest show_fault request cage host c)
  obtain res h1 c1 where r: "respond digest request host c = (res, h1, c1)" by (rule prod_cases3)
  note k = respond_kept [OF r]
  then have kh: "told (granted digest (cn_allow c) (cn_confirm c \<noteq> None) (heard host) (set (cn_asked c1))) host h1"
    "heard h1 \<subseteq> heard host" "cn_allow c1 = cn_allow c" "cn_confirm c1 = cn_confirm c" "set (cn_asked c) \<subseteq> set (cn_asked c1)"
    unfolding kept_def by blast+
  let ?A = "answered digest (cn_allow c) (heard host) (insert request (heard cage))"
  show ?case
  proof (cases res)
    case (Inl e)
    obtain cg c2 where f: "host_failed show_fault e cage c1 = (cg, c2)" by force
    have "(cage', host', c') = (cg, h1, c2)" using "1.prems" Inl r f by (simp add: serve_loop.simps)
    then show ?thesis using kh host_failed_kept [OF f] by simp
  next
    case (Inr reply)
    have "?A reply" using k Inr unfolding answered_def by blast
    obtain w cg where w: "write_message reply cage = (w, cg)" by force
    note t = write_tells [OF w, of ?A, OF \<open>?A reply\<close>]
    show ?thesis
    proof (cases w)
      case (Inl e)
      then have "(cage', host', c') = (cg, h1, c1)" using "1.prems" Inr r w by (simp add: serve_loop.simps)
      then show ?thesis using kh t by simp
    next
      case u: (Inr u)
      obtain x cg2 where x: "read_message cg = (x, cg2)" by force
      note d = read_message_takes [OF x]
      then have rd: "told ?A cg cg2" "heard cg2 \<subseteq> heard cage" using t suffix_heard by (blast intro: told_refl, metis)
      show ?thesis
      proof (cases x)
        case (Inl e)
        then have "(cage', host', c') = (cg2, h1, c1)" using "1.prems" Inr r w u x by (simp add: serve_loop.simps)
        then show ?thesis using kh t rd(1) told_trans by blast
      next
        case q: (Inr q)
        have more: "serve_loop digest show_fault q cg2 h1 c1 = (cage', host', c')"
          using "1.prems" Inr r w u x q by (simp add: serve_loop.simps [of digest show_fault request])
        have q_heard: "q \<in> heard cage" using d q t frame_heard by metis
        note IH = "1.IH" [OF r [symmetric] Inr refl w [symmetric] u x [symmetric] q more]
        have "told (granted digest (cn_allow c) (cn_confirm c \<noteq> None) (heard host) (set (cn_asked c'))) host h1"
          by (rule told_mono [OF kh(1)], erule granted_wider) (use IH in simp_all)
        moreover have "told (granted digest (cn_allow c) (cn_confirm c \<noteq> None) (heard host) (set (cn_asked c'))) h1 host'"
          by (rule told_mono [OF conjunct1 [OF IH]], unfold kh(3,4), erule granted_wider) (use kh(2) in simp_all)
        moreover have "told ?A cg2 cage'"
          by (rule told_mono [OF conjunct1 [OF conjunct2 [OF IH]]], unfold kh(3), erule answered_wider)
            (use kh(2) q_heard rd(2) in auto)
        ultimately show ?thesis using IH kh(5) t rd(1) told_trans by (meson order_trans)
      qed
    qed
  qed
qed


text \<open>A connection that asks for the list, of an agent that holds one key.\<close>

definition one_key :: peer where
  "one_key = \<lparr>pr_in = [Bytes (frame (identities_answer [\<lparr>id_blob = ''k'', id_comment = ''me''\<rparr>]))], pr_out = [], pr_room = None\<rparr>"

definition one_question :: peer where
  "one_question = \<lparr>pr_in = [Bytes (frame [char_of REQUEST_IDENTITIES])], pr_out = [], pr_room = None\<rparr>"

lemma one_question_served:
  "\<exists>cage' host' c. serve_conn rev (\<lambda>_. []) False False one_question (Inr one_key) [''me''] None = (cage', Some host', c)"
proof -
  have "\<not> Option.is_none (fst (snd (serve_conn rev (\<lambda>_. []) False False one_question (Inr one_key) [''me''] None)))" by code_simp
  then show ?thesis
    by (cases "serve_conn rev (\<lambda>_. []) False False one_question (Inr one_key) [''me''] None") (auto simp: Option.is_none_def)
qed




section \<open>The list of keys\<close>

lemma rd_u32_at: "rd_u32 (a @ to_be 4 n @ b) (length a) = Some (n mod 4294967296, length a + 4)"
  using be_bytes_to_be [of 4 n] by (simp add: rd_u32_def)

lemma rd_string_at:
  assumes "length s < 4294967296"
  shows "rd_string (a @ put_string s @ b) (length a) = Some (s, length (a @ put_string s))"
proof -
  have "rd_u32 (a @ put_string s @ b) (length a) = Some (length s, length a + 4)"
    using rd_u32_at [of a "length s" "s @ b"] assms by (simp add: put_string_def)
  then show ?thesis by (simp add: rd_string_def put_string_def)
qed

definition good_identity :: "identity \<Rightarrow> bool" where
  "good_identity key \<longleftrightarrow> length (id_blob key) < 4294967296 \<and> length (id_comment key) < 4294967296 \<and> valid_utf8 (id_comment key)"

lemma parse_entries_written:
  assumes "list_all good_identity ids"
  shows "parse_entries (length ids) (a @ concat (map (\<lambda>key. put_string (id_blob key) @ put_string (id_comment key)) ids)) (length a) = Some ids"
  using assms
proof (induction ids arbitrary: a)
  case (Cons key ids)
  let ?rest = "concat (map (\<lambda>key. put_string (id_blob key) @ put_string (id_comment key)) ids)"
  let ?b = "put_string (id_blob key)" and ?c = "put_string (id_comment key)"
  have g: "length (id_blob key) < 4294967296" "length (id_comment key) < 4294967296" "valid_utf8 (id_comment key)"
    using Cons.prems by (simp_all add: good_identity_def)
  have "rd_string (a @ ?b @ ?c @ ?rest) (length a) = Some (id_blob key, length (a @ ?b))" by (rule rd_string_at [OF g(1)])
  moreover have "rd_string (a @ ?b @ ?c @ ?rest) (length (a @ ?b)) = Some (id_comment key, length (a @ ?b @ ?c))"
    using rd_string_at [OF g(2), of "a @ ?b" ?rest] by simp
  moreover have "parse_entries (length ids) (a @ ?b @ ?c @ ?rest) (length (a @ ?b @ ?c)) = Some ids"
    using Cons.IH [of "a @ ?b @ ?c"] Cons.prems by simp
  ultimately show ?case using g(3) by (simp add: utf8_lossy_valid)
qed simp

lemma parse_answer:
  assumes "list_all good_identity ids" "length ids < 4294967296"
  shows "parse_identities (identities_answer ids) = Some ids"
proof -
  let ?body = "concat (map (\<lambda>key. put_string (id_blob key) @ put_string (id_comment key)) ids)"
  have "8 * length ids \<le> length ?body" by (induction ids) (simp_all add: put_string_def)
  then have "length ids \<le> length (to_be 4 (length ids) @ ?body) div 8 + 1" by simp
  moreover have "rd_u32 (to_be 4 (length ids) @ ?body) 0 = Some (length ids, 4)"
    using rd_u32_at [of "[]" "length ids" ?body] assms(2) by simp
  moreover have "parse_entries (length ids) (to_be 4 (length ids) @ ?body) 4 = Some ids"
    using parse_entries_written [OF assms(1), of "to_be 4 (length ids)"] by simp
  ultimately show ?thesis by (simp add: parse_identities_def identities_answer_def IDENTITIES_ANSWER_def)
qed

lemma utf8_lossy_length: "length (utf8_lossy s) \<le> 3 * length s"
proof (induction s rule: utf8_lossy.induct)
  case (2 b s)
  obtain ok k where k: "utf8_seq b s = (ok, k)" by force
  have "length replacement = 3" by (simp add: replacement_def)
  moreover obtain m where "length s = k + m" using utf8_seq_bound [OF k] le_iff_add by blast
  ultimately show ?case using 2 [OF k [symmetric] refl] k by (simp add: utf8_lossy.simps(2))
qed simp

lemma parsed_good:
  assumes "parse_entries n buf at = Some ids" "3 * length buf < 4294967296"
  shows "list_all good_identity ids \<and> length ids = n"
  using assms
proof (induction n arbitrary: at ids)
  case (Suc n)
  obtain blob at1 comment at2 ids' where p: "rd_string buf at = Some (blob, at1)" "rd_string buf at1 = Some (comment, at2)"
    "parse_entries n buf at2 = Some ids'" "ids = \<lparr>id_blob = blob, id_comment = utf8_lossy comment\<rparr> # ids'"
    using Suc.prems(1) by (auto split: option.splits)
  have short: "length s \<le> length buf" if "rd_string buf a = Some (s, b)" for s a b
    using that by (auto simp: rd_string_def split: option.splits if_splits)
  show ?case
    using Suc.IH [OF p(3) Suc.prems(2)] short [OF p(1)] short [OF p(2)] utf8_lossy_length [of comment] utf8_lossy_is_valid [of comment] Suc.prems(2)
    by (simp add: p(4) good_identity_def)
qed simp

lemma listed_good:
  assumes "length reply \<le> MAX_MESSAGE"
  shows "list_all good_identity (listed reply) \<and> length (listed reply) < 4294967296"
proof (cases "parse_identities reply")
  case None
  then show ?thesis by (simp add: listed_def)
next
  case (Some ids)
  then obtain k rest n at where r: "reply = k # rest" "length rest div 8 + 1 \<ge> n" "parse_entries n rest at = Some ids"
    by (auto simp: parse_identities_def not_less split: list.splits if_splits option.splits)
  have b: "3 * length rest < 4294967296" using assms r(1) by (simp add: MAX_MESSAGE_def)
  then have "n < 4294967296" using r(2) by linarith
  then show ?thesis using parsed_good [OF r(3) b] Some by (simp add: listed_def)
qed



end
