(* ===== verification/Spec2Isabelle.thy ===== *)
theory Spec2Isabelle
  imports Egress_Policy Allow_Grammar Ssrf Proc_Policy Fs_Policy Conn_Cap Http_Head Http_Body Secret_Needle Credential_Use
    Ws_Inflate Ws_Deflate Ssh_Agent
begin

text \<open>
  Verification of the sandbox launcher of this repository (the crate under src/src): the parts that
  decide. The launcher runs a program in a cage that has no network and no file of the host but those
  it is given; what the program then asks for (a request, an execution, a file, a signature) is decided
  on the host side by rules of the user, and the credentials the user lends are put on the requests
  there and kept out of everything the cage and the captures can read. The development translates those
  decisions, the parsers they stand on and the relays that carry their outcome into executable
  definitions and proves what makes them correct.

  \<^bold>\<open>How the parts interact.\<close> A line of the configuration becomes a rule (Allow_Grammar, Proc_Policy,
  Fs_Policy); a policy is a set of rules with defaults (Egress_Policy). A request reaches the proxy as
  bytes: its head is read under a bound and parsed (Http_Head, over the readers of Byte_Reader), its
  framing is decided, its target is canonicalised and judged (Allow_Rules, Egress_Policy), the name is
  resolved and the addresses are judged again (Ssrf, Net_Addr). What is forwarded is written anew, with
  the injected headers (Credentials, Credential_Use) and the body as it was framed (Http_Body); answers
  are relayed, masked (Secret_Needle) and, after an upgrade, followed frame by frame (Ws_Frame).
  Conn_Cap bounds what the cage can have open at once.

  \<^bold>\<open>The theories and the code they model.\<close>
  \<^item> Prelude, Utf8: the string, slice and integer interface of Rust the sources use, byte strings as
    \<open>string\<close>, \<open>Result\<close> as a sum, machine integers as words.
  \<^item> Net_Addr: \<open>std::net::IpAddr\<close>, printed and parsed.
  \<^item> Allow_Rules, Allow_Facts: the data and matcher of src/src/allowlist/mod.rs; the facts are about
    canonical paths and hosts, ports, methods and \<open>covers\<close>.
  \<^item> Precedence: the contract of a plane (deny before allow before default) as a locale; Egress_Policy and
    Proc_Policy interpret it.
  \<^item> Egress_Policy: \<open>EgressPolicy\<close> of src/src/allowlist/mod.rs with the verdicts of its three planes.
  \<^item> Allow_Grammar: src/src/allowlist/grammar.rs, every entry form and every refusal.
  \<^item> Ssrf: src/src/sandbox/proxy/ssrf.rs, address classes and the guard.
  \<^item> Proc_Policy: src/src/proc_policy.rs, the verdict on an execution and the readings that find the program
    behind a loader, a script line or a handler.
  \<^item> Fs_Policy: src/src/config/fspolicy.rs.
  \<^item> Conn_Cap: src/src/sandbox/conncap.rs; the ceiling as a step relation over one atomic counter.
  \<^item> Http_Head, Byte_Reader, Http_Body: src/src/sandbox/proxy/wire.rs and the parts of
    src/src/sandbox/proxy/mod.rs that read, frame, relay and rewrite HTTP/1 messages.
  \<^item> Secret_Needle: the needles of src/src/sandbox/proxy/inject.rs, the masking of
    src/src/sandbox/proxy/mod.rs and src/src/sandbox/redact.rs.
  \<^item> Credentials, Credential_Runs, Credential_Use: \<open>Credentials\<close> and the injections of
    src/src/sandbox/proxy/inject.rs; every interleaving of replacing and observing as a step relation.
  \<^item> Ws_Frame, Ws_Stream, Ws_Inflate, Ws_Deflate: the WebSocket decoder of
    src/src/sandbox/proxy/wsframe.rs and the capture buffer of src/src/sandbox/proxy/capture.rs.

  \<^bold>\<open>What the theorems show.\<close> Verdicts are characterised in full and shown blind to the respellings an
  upstream would fold (paths, hosts, file names); what narrows a policy never opens it. Parsers accept
  what their grammar says, their results are well formed, and printing gives the entry back. The head
  written upstream parses to what was meant, no injected value opens a line, and no request is smuggled
  behind another. Relays lose and invent nothing under any segmentation, the ends they report are the
  framing's, and nothing secret crosses a masking relay. Concurrent state (the ceiling, the live
  credentials) keeps its invariant under every interleaving.

  \<^bold>\<open>Conventions.\<close> State is a record passed and returned; a step the code takes under a lock or as one
  atomic operation is one step, and concurrency is an inductive relation over such steps. An error is a
  value of the sum the operation returns. A source of bytes is the list of what its reads find, so every
  segmentation, interruption and failure is an input. There is no fuel: every loop is a total function
  whose measure is the loop's own reason to end (the bytes left, the rounds left, the room left).
  Instants and durations are natural numbers of nanoseconds. Counters and sizes the code keeps at a width
  where wrapping could matter are words of that width.

  \<^bold>\<open>Parameters.\<close> Third-party code is an argument of the definitions that call it: the regular expression
  engine (\<open>compile\<close>, \<open>is_match\<close>), the substring searcher of \<open>memchr\<close> (\<open>finder\<close>, with the locale
  \<open>substring_finder\<close> for what it documents), the DEFLATE decoder (\<open>dec\<close>), a signer plugin (\<open>sign\<close>).

  \<^bold>\<open>Not modelled.\<close> System calls and what only wraps them: launching, namespaces, mounts, seccomp
  notification, sockets, threads, terminals, files on disk. TLS and HTTP/2, which are other crates' state
  machines. Command lines, help, rendering and reports. Package stores and provisioning. The
  configuration schema, which a TOML crate fills. Deadlines are left out of the byte readers: a deadline
  that passes is one more failure of a read.
\<close>

section \<open>The proxy as a whole\<close>



end
